(* ===== verification/Zkt_Prelude.thy ===== *)
theory Zkt_Prelude
  imports Main "HOL-Library.Word"
begin

text \<open>
  Shared vocabulary of the ZKT kernel development: the machine types of the i386 target
  (\<open>size_t\<close>, \<open>uintptr_t\<close> and \<open>uint32_t\<close> are all 32 bits wide), the error numbers of
  \<open>zkt/abi/zkt_abi.h\<close>, panics as values, the contract of a byte queue, and the list and
  word lemmas several components use.
\<close>

unbundle bit_operations_syntax

named_theorems zkt_layout \<open>numeric constants of the memory layout, unfolded on demand\<close>
named_theorems zkt_frame \<open>what an operation leaves alone\<close>

section \<open>Machine types\<close>

type_synonym u8 = "8 word"
type_synonym u16 = "16 word"
type_synonym u32 = "32 word"
type_synonym u64 = "64 word"

section \<open>Errors and panics\<close>

text \<open>
  The kernel returns error numbers negated; here an error is a value of its own and a
  fallible call returns \<open>Inl\<close> of it.
\<close>

datatype errno =
    EPERM | ENOENT | E2BIG | ENOEXEC | EBADF | ECHILD | EIO | ENXIO | ENOMEM | EACCES
  | EFAULT | EBUSY | EEXIST | EXDEV | ENODEV | ENOTDIR | EISDIR | EINVAL | EMFILE | ENOSPC
  | EROFS | ERANGE | ENAMETOOLONG | ESPIPE | EPIPE | ENOSYS | ENOTEMPTY | EPROTO
  | EADDRINUSE | ENETUNREACH | ETIMEDOUT | EHOSTUNREACH

type_synonym 'a result = "errno + 'a"

text \<open>\<open>panic()\<close> does not return: its message is the outcome.\<close>

datatype 'a outcome = Panic string | Done 'a

section \<open>Computations that may panic or not return\<close>

text \<open>
  A computation of the kernel: \<open>None\<close> when it does not return, otherwise its outcome.
\<close>

type_synonym 'a run = "'a outcome option"

definition rret :: "'a \<Rightarrow> 'a run" where
  "rret x = Some (Done x)"

definition rpanic :: "string \<Rightarrow> 'a run" where
  "rpanic m = Some (Panic m)"

definition rbind :: "'a run \<Rightarrow> ('a \<Rightarrow> 'b run) \<Rightarrow> 'b run" where
  "rbind m f = Option.bind m (case_outcome rpanic f)"

lemma rbind_simps [simp]:
  "rbind (rret x) f = f x" "rbind (rpanic e) f = rpanic e" "rbind None f = None"
  by (simp_all add: rbind_def rret_def rpanic_def)

lemma rbind_assoc: "rbind (rbind m f) g = rbind m (\<lambda>x. rbind (f x) g)"
  by (simp add: rbind_def rpanic_def split: Option.bind_split outcome.split)

lemma rret_eq_iff [simp]: "rret x = rret y \<longleftrightarrow> x = y" "rret x \<noteq> rpanic e" "rret x \<noteq> None"
    "rpanic e \<noteq> rret x" "None \<noteq> rret x"
  by (simp_all add: rret_def rpanic_def)

lemma rbind_eq_rret: "rbind m f = rret y \<longleftrightarrow> (\<exists>x. m = rret x \<and> f x = rret y)"
  by (auto simp: rbind_def rret_def rpanic_def split: Option.bind_splits outcome.splits)

lemma rbind_mono [partial_function_mono]:
  assumes "mono_option B" and "\<And>y. mono_option (\<lambda>f. C y f)"
  shows "mono_option (\<lambda>f. rbind (B f) (\<lambda>y. C y f))"
  unfolding rbind_def
proof (rule Partial_Function.bind_mono [OF assms(1)])
  fix y
  show "mono_option (\<lambda>f. case y of Panic e \<Rightarrow> rpanic e | Done x \<Rightarrow> C x f)"
    by (cases y) (simp_all add: assms(2) option.const_mono)
qed

section \<open>Arithmetic on 32-bit values\<close>

text \<open>
  Sizes and addresses are natural numbers below \<open>2 ^ 32\<close> where a component's invariant
  keeps them there; these are the C operators on them, with the wrap-around written out.
\<close>

definition add32 :: "nat \<Rightarrow> nat \<Rightarrow> nat" where
  "add32 a b = (a + b) mod 2 ^ 32"

definition sub32 :: "nat \<Rightarrow> nat \<Rightarrow> nat" where
  "sub32 a b = (a + (2 ^ 32 - b mod 2 ^ 32)) mod 2 ^ 32"

definition shl32 :: "nat \<Rightarrow> nat \<Rightarrow> nat" where
  "shl32 a n = (a * 2 ^ n) mod 2 ^ 32"

lemma add32_exact: "a + b < 2 ^ 32 \<Longrightarrow> add32 a b = a + b"
  by (simp add: add32_def)

lemma sub32_exact: "b \<le> a \<Longrightarrow> a < 2 ^ 32 \<Longrightarrow> sub32 a b = a - b"
proof -
  assume "b \<le> a" and a: "a < 2 ^ 32"
  then have "a + (2 ^ 32 - b mod 2 ^ 32) = (a - b) + 2 ^ 32" by simp
  then show ?thesis using a by (simp add: sub32_def)
qed

lemma shl32_exact: "a * 2 ^ n < 2 ^ 32 \<Longrightarrow> shl32 a n = a * 2 ^ n"
  by (simp add: shl32_def)

section \<open>Queues\<close>

text \<open>
  What a bounded first-in first-out queue promises its users. A user pushes only after it
  saw the queue not full and pops only after it saw it not empty; \<open>fifo_run\<close> is any such
  use, in any interleaving. \<open>None\<close> is an access outside the queue's storage.
\<close>

datatype 'a fifo_op = Push 'a | Pop

fun fifo_run :: "('s \<Rightarrow> bool) \<Rightarrow> ('s \<Rightarrow> bool) \<Rightarrow> ('s \<Rightarrow> 'a \<Rightarrow> 's option) \<Rightarrow>
    ('s \<Rightarrow> ('a \<times> 's) option) \<Rightarrow> 's \<Rightarrow> 'a fifo_op list \<Rightarrow> ('a list \<times> 'a list \<times> 's) option" where
  "fifo_run full isempty push pop s [] = Some ([], [], s)"
| "fifo_run full isempty push pop s (Push x # ops) =
     (if full s then fifo_run full isempty push pop s ops
      else case push s x of None \<Rightarrow> None
      | Some s' \<Rightarrow> map_option (\<lambda>(ins, outs, t). (x # ins, outs, t))
                     (fifo_run full isempty push pop s' ops))"
| "fifo_run full isempty push pop s (Pop # ops) =
     (if isempty s then fifo_run full isempty push pop s ops
      else case pop s of None \<Rightarrow> None
      | Some (x, s') \<Rightarrow> map_option (\<lambda>(ins, outs, t). (ins, x # outs, t))
                          (fifo_run full isempty push pop s' ops))"

locale bounded_fifo =
  fixes inv :: "'s \<Rightarrow> bool"
    and content :: "'s \<Rightarrow> 'a list"
    and full :: "'s \<Rightarrow> bool"
    and isempty :: "'s \<Rightarrow> bool"
    and push :: "'s \<Rightarrow> 'a \<Rightarrow> 's option"
    and pop :: "'s \<Rightarrow> ('a \<times> 's) option"
  assumes push_ok: "inv s \<Longrightarrow> \<not> full s \<Longrightarrow>
      \<exists>s'. push s x = Some s' \<and> inv s' \<and> content s' = content s @ [x]"
    and pop_ok: "inv s \<Longrightarrow> \<not> isempty s \<Longrightarrow>
      \<exists>x s'. pop s = Some (x, s') \<and> inv s' \<and> content s = x # content s'"
begin

lemma run_fifo:
  "inv s \<Longrightarrow> \<exists>ins outs t. fifo_run full isempty push pop s ops = Some (ins, outs, t)
     \<and> inv t \<and> outs @ content t = content s @ ins"
proof (induction ops arbitrary: s)
  case Nil
  then show ?case by simp
next
  case (Cons op ops)
  show ?case
  proof (cases op)
    case (Push x)
    show ?thesis
    proof (cases "full s")
      case True
      with Cons Push show ?thesis by simp
    next
      case False
      with Cons.prems obtain s' where
        s': "push s x = Some s'" "inv s'" "content s' = content s @ [x]"
        using push_ok by blast
      from Cons.IH [OF s'(2)] s' False Push show ?thesis by fastforce
    qed
  next
    case Pop
    show ?thesis
    proof (cases "isempty s")
      case True
      with Cons Pop show ?thesis by simp
    next
      case False
      with Cons.prems obtain x s' where
        s': "pop s = Some (x, s')" "inv s'" "content s = x # content s'"
        using pop_ok by blast
      from Cons.IH [OF s'(2)] s' False Pop show ?thesis by fastforce
    qed
  qed
qed

end

section \<open>Words and masks\<close>

lemma unat_and_pow2_minus_1:
  fixes w :: "'a::len word"
  shows "unat (w AND (2 ^ k - 1)) = unat w mod 2 ^ k"
proof -
  have "w AND (2 ^ k - 1) = take_bit k w"
    by (simp add: take_bit_eq_mask mask_eq_exp_minus_1)
  moreover have "unat (take_bit k w) = take_bit k (unat w)"
    by (rule unsigned_take_bit_eq)
  ultimately show ?thesis
    by (simp only: take_bit_eq_mod)
qed

lemma unat_pow2: "k < LENGTH('a) \<Longrightarrow> unat (2 ^ k :: 'a::len word) = 2 ^ k"
  using unat_of_nat [of "2 ^ k", where 'a = 'a] by simp

lemma mod_pow2_pow2: "k \<le> m \<Longrightarrow> (n mod 2 ^ m) mod 2 ^ k = n mod (2 ^ k :: nat)"
  by (simp add: mod_mod_cancel le_imp_power_dvd)

lemma upt4: "[0 ..< 4] = [0, 1, 2, 3 :: nat]"
  by (simp add: upt_rec)

lemma upt8: "[0 ..< 8] = [0, 1, 2, 3, 4, 5, 6, 7 :: nat]"
  by (simp add: upt_rec)

end
