(* ===== verification/Ring.thy ===== *)
theory Ring
  imports Zkt_Prelude
begin

text \<open>
  The byte ring buffer of \<open>zkt/kernel/ring.h\<close>, shared by the keyboard, serial and console
  drivers. \<open>head\<close> and \<open>tail\<close> are free-running 32-bit counters that wrap; an index is a
  counter masked with \<open>size - 1\<close>. An access outside the storage is \<open>None\<close>.
\<close>

section \<open>Model\<close>

record ring =
  rg_buf :: "u8 list"
  rg_size :: u32
  rg_head :: u32
  rg_tail :: u32

definition ring_init :: "u8 list \<Rightarrow> ring" where
  "ring_init storage = \<lparr>rg_buf = storage, rg_size = of_nat (length storage),
     rg_head = 0, rg_tail = 0\<rparr>"

definition ring_empty :: "ring \<Rightarrow> bool" where
  "ring_empty r \<longleftrightarrow> rg_head r = rg_tail r"

definition ring_full :: "ring \<Rightarrow> bool" where
  "ring_full r \<longleftrightarrow> rg_head r - rg_tail r = rg_size r"

definition ring_push :: "ring \<Rightarrow> u8 \<Rightarrow> ring option" where
  "ring_push r c =
     (let i = unat (rg_head r AND (rg_size r - 1))
      in if i < length (rg_buf r)
         then Some (r\<lparr>rg_buf := (rg_buf r)[i := c], rg_head := rg_head r + 1\<rparr>)
         else None)"

definition ring_pop :: "ring \<Rightarrow> (u8 \<times> ring) option" where
  "ring_pop r =
     (let i = unat (rg_tail r AND (rg_size r - 1))
      in if i < length (rg_buf r)
         then Some (rg_buf r ! i, r\<lparr>rg_tail := rg_tail r + 1\<rparr>)
         else None)"

section \<open>Invariant and abstraction\<close>

text \<open>The size is a power of two and the storage has that many bytes.\<close>

definition ring_inv :: "ring \<Rightarrow> bool" where
  "ring_inv r \<longleftrightarrow> (\<exists>k < 32. rg_size r = 2 ^ k) \<and> length (rg_buf r) = unat (rg_size r)
     \<and> unat (rg_head r - rg_tail r) \<le> unat (rg_size r)"

definition ring_content :: "ring \<Rightarrow> u8 list" where
  "ring_content r = map (\<lambda>i. rg_buf r ! ((unat (rg_tail r) + i) mod length (rg_buf r)))
     [0 ..< unat (rg_head r - rg_tail r)]"

lemma ring_invE:
  assumes "ring_inv r"
  obtains k where "k < 32" "rg_size r = 2 ^ k" "length (rg_buf r) = 2 ^ k"
    "unat (rg_head r - rg_tail r) \<le> 2 ^ k"
proof -
  from assms obtain k where "k < 32" "rg_size r = 2 ^ k" by (auto simp: ring_inv_def)
  moreover from \<open>k < 32\<close> have "unat (2 ^ k :: u32) = 2 ^ k" by (simp add: unat_pow2)
  ultimately show thesis using that assms by (auto simp: ring_inv_def)
qed

text \<open>Stepping a counter steps the index modulo the size, even where the counter wraps.\<close>

lemma unat_succ_mod_pow2:
  fixes w :: u32
  assumes "k < 32"
  shows "unat (w + 1) mod 2 ^ k = (unat w + 1) mod 2 ^ k"
  using mod_pow2_pow2 [of k 32 "unat w + 1"] assms
  by (simp add: unat_word_ariths)

lemma unat_head_mod_pow2:
  fixes h t :: u32
  assumes "k < 32"
  shows "unat h mod 2 ^ k = (unat t + unat (h - t)) mod 2 ^ k"
proof -
  have "unat (t + (h - t)) = (unat t + unat (h - t)) mod 2 ^ 32"
    by (simp only: unat_word_ariths) simp
  then show ?thesis
    using mod_pow2_pow2 [of k 32 "unat t + unat (h - t)"] assms by simp
qed

lemma mod_shift_neq:
  fixes t :: nat
  assumes "i < n" and "n < L"
  shows "(t + i) mod L \<noteq> (t + n) mod L"
proof
  assume "(t + i) mod L = (t + n) mod L"
  then have "L dvd (t + n) - (t + i)"
    using assms mod_eq_dvd_iff_nat [of "t + i" "t + n" L] by simp
  then have "L dvd n - i" by simp
  with assms show False by (auto dest: dvd_imp_le)
qed

lemma unat_succ_small: "unat w < 2 ^ 31 \<Longrightarrow> unat (w + 1) = unat w + 1" for w :: u32
  using unat_plus_if' [of w 1] by simp

lemma pow2_le: "k < 32 \<Longrightarrow> (2::nat) ^ k \<le> 2 ^ 31"
  by (rule power_increasing) auto

lemma ring_push_ok:
  assumes inv: "ring_inv r" and room: "\<not> ring_full r"
  shows "\<exists>r'. ring_push r c = Some r' \<and> ring_inv r' \<and> ring_content r' = ring_content r @ [c]"
proof -
  obtain k where k: "k < 32" "rg_size r = 2 ^ k" "length (rg_buf r) = 2 ^ k"
    and n: "unat (rg_head r - rg_tail r) \<le> 2 ^ k" using inv by (rule ring_invE)
  define m where "m = unat (rg_head r - rg_tail r)"
  define i where "i = unat (rg_head r) mod 2 ^ k"
  let ?r = "r\<lparr>rg_buf := (rg_buf r)[i := c], rg_head := rg_head r + 1\<rparr>"
  have "m \<noteq> 2 ^ k"
    using room k unat_pow2 [of k, where 'a = 32]
    by (auto simp: ring_full_def word_unat_eq_iff m_def)
  with n have lt: "m < 2 ^ k" by (simp add: m_def)
  have eq: "rg_head r + 1 - rg_tail r = (rg_head r - rg_tail r) + 1" by simp
  have m': "unat (rg_head r + 1 - rg_tail r) = m + 1"
    unfolding eq m_def
    by (rule unat_succ_small) (use lt pow2_le [OF k(1)] in \<open>simp add: m_def\<close>)
  have i: "i = (unat (rg_tail r) + m) mod 2 ^ k"
    unfolding i_def m_def by (rule unat_head_mod_pow2 [OF k(1)])
  have push: "ring_push r c = Some ?r"
    using k by (simp add: ring_push_def Let_def unat_and_pow2_minus_1 i_def)
  have old: "(rg_buf r)[i := c] ! ((unat (rg_tail r) + j) mod 2 ^ k)
      = rg_buf r ! ((unat (rg_tail r) + j) mod 2 ^ k)" if "j < m" for j
    using mod_shift_neq [OF that lt] i by (metis nth_list_update_neq)
  have "ring_content ?r = ring_content r @ [c]"
    using k(3) old by (simp add: ring_content_def m' m_def [symmetric] i [symmetric])
      (simp add: i_def)
  moreover have "ring_inv ?r" using inv k lt m' by (auto simp: ring_inv_def unat_pow2)
  ultimately show ?thesis using push by blast
qed

lemma ring_pop_ok:
  assumes inv: "ring_inv r" and some: "\<not> ring_empty r"
  shows "\<exists>c r'. ring_pop r = Some (c, r') \<and> ring_inv r' \<and> ring_content r = c # ring_content r'"
proof -
  obtain k where k: "k < 32" "rg_size r = 2 ^ k" "length (rg_buf r) = 2 ^ k"
    and n: "unat (rg_head r - rg_tail r) \<le> 2 ^ k" using inv by (rule ring_invE)
  let ?r = "r\<lparr>rg_tail := rg_tail r + 1\<rparr>"
  have eq: "rg_head r - (rg_tail r + 1) = (rg_head r - rg_tail r) - 1" by simp
  have pos: "rg_head r - rg_tail r \<noteq> 0" using some by (simp add: ring_empty_def)
  then obtain m where m: "unat (rg_head r - rg_tail r) = Suc m"
    by (metis unat_eq_zero not0_implies_Suc)
  have m': "unat (rg_head r - (rg_tail r + 1)) = m"
    unfolding eq using unat_minus_one [OF pos] m by simp
  have pop: "ring_pop r = Some (rg_buf r ! (unat (rg_tail r) mod 2 ^ k), ?r)"
    using k by (simp add: ring_pop_def Let_def unat_and_pow2_minus_1)
  have "(unat (rg_tail r) + Suc j) mod 2 ^ k = (unat (rg_tail r + 1) + j) mod 2 ^ k" for j
    using mod_add_cong [OF unat_succ_mod_pow2 [OF k(1), of "rg_tail r"] refl, of j]
    by simp
  then have "ring_content r = (rg_buf r ! (unat (rg_tail r) mod 2 ^ k)) # ring_content ?r"
    using k(3) by (simp add: ring_content_def m' m map_upt_Suc del: upt_Suc)
  moreover have "ring_inv ?r" using inv n m m' by (auto simp: ring_inv_def)
  ultimately show ?thesis using pop by blast
qed

interpretation ring_queue: bounded_fifo ring_inv ring_content ring_full ring_empty ring_push ring_pop
  by unfold_locales (fact ring_push_ok, fact ring_pop_ok)

lemma ring_init_inv:
  assumes "k < 32" and "length storage = 2 ^ k"
  shows "ring_inv (ring_init storage)" and "ring_content (ring_init storage) = []"
  using assms by (auto simp: ring_inv_def ring_init_def ring_content_def unat_pow2)

section \<open>Properties\<close>

text \<open>
  C40. Over any storage whose size is a power of two, any interleaving of pushes (made only
  when the ring is not full) and pops (made only when it is not empty) stays inside the
  storage, and the bytes popped followed by the bytes left are the bytes pushed, in order.
\<close>

theorem ring_is_fifo:
  assumes "k < 32" and "length storage = 2 ^ k"
  shows "\<exists>ins outs r. fifo_run ring_full ring_empty ring_push ring_pop (ring_init storage) ops
           = Some (ins, outs, r) \<and> ring_inv r \<and> outs @ ring_content r = ins"
  using ring_queue.run_fifo [OF ring_init_inv(1) [OF assms], of ops] ring_init_inv(2) [OF assms]
  by simp

theorem ring_is_fifo_witness:
  "\<exists>ins outs r. fifo_run ring_full ring_empty ring_push ring_pop (ring_init [0, 0])
       [Push 7, Push 9, Push 11, Pop, Push 13, Pop] = Some (ins, outs, r) \<and> outs @ ring_content r = ins
       \<and> ins = [7, 9, 13]"
  using ring_is_fifo [of 1 "[0, 0]" "[Push 7, Push 9, Push 11, Pop, Push 13, Pop]"]
  by (simp add: ring_init_def ring_full_def ring_empty_def ring_push_def ring_pop_def)

end
