(* ===== verification/Pmm.thy ===== *)
theory Pmm
  imports Zkt_Prelude
begin

text \<open>
  The physical frame allocator of \<open>zkt/mm/pmm.c\<close>: one bit per 4 KiB frame, set where the
  frame is in use, reserved or absent. The file's static variables are the fields of the
  record; frame numbers, sizes and addresses are \<open>size_t\<close> and \<open>uintptr_t\<close> values, that is
  naturals below \<open>2 ^ 32\<close>. The record is extensible, so that the components built on the
  allocator (the page tables, the heap) extend it with their own state.
\<close>

section \<open>Model\<close>

record mem_region =
  mr_base :: nat
  mr_length :: nat
  mr_usable :: bool

record pmm =
  bitmap_at :: nat
  bitmap :: "u32 list"
  frame_count :: nat
  word_count :: nat
  search_hint :: nat
  free_count :: nat
  usable_count :: nat

subsection \<open>Single bits\<close>

definition mark_used :: "'a pmm_scheme \<Rightarrow> nat \<Rightarrow> 'a pmm_scheme" where
  "mark_used p frame = p\<lparr>bitmap := (bitmap p)[frame div 32 :=
     (bitmap p ! (frame div 32)) OR push_bit (frame mod 32) 1]\<rparr>"

definition mark_free :: "'a pmm_scheme \<Rightarrow> nat \<Rightarrow> 'a pmm_scheme" where
  "mark_free p frame = p\<lparr>bitmap := (bitmap p)[frame div 32 :=
     (bitmap p ! (frame div 32)) AND NOT (push_bit (frame mod 32) 1)]\<rparr>"

definition is_used :: "'a pmm_scheme \<Rightarrow> nat \<Rightarrow> bool" where
  "is_used p frame \<longleftrightarrow> (bitmap p ! (frame div 32)) AND push_bit (frame mod 32) 1 \<noteq> 0"

text \<open>\<open>for (f = first; f < end && f < frame_count; f++)\<close> with one of the above as body.\<close>

definition mark_used_range :: "'a pmm_scheme \<Rightarrow> nat \<Rightarrow> nat \<Rightarrow> 'a pmm_scheme" where
  "mark_used_range p first stop =
     fold (\<lambda>f q. mark_used q f) [first ..< min stop (frame_count p)] p"

definition mark_free_range :: "'a pmm_scheme \<Rightarrow> nat \<Rightarrow> nat \<Rightarrow> 'a pmm_scheme" where
  "mark_free_range p first stop =
     fold (\<lambda>f q. mark_free q f) [first ..< min stop (frame_count p)] p"

definition count_free :: "'a pmm_scheme \<Rightarrow> nat" where
  "count_free p = length (filter (\<lambda>f. \<not> is_used p f) [0 ..< frame_count p])"

subsection \<open>Building the map\<close>

definition V2P :: "nat \<Rightarrow> nat" where
  "V2P va = sub32 va 0xC0000000"

definition P2V :: "nat \<Rightarrow> nat" where
  "P2V pa = add32 pa 0xC0000000"

text \<open>\<open>x & ~(PAGE_SIZE - 1)\<close>\<close>

definition page_floor :: "nat \<Rightarrow> nat" where
  "page_floor x = x div 4096 * 4096"

definition region_end :: "mem_region \<Rightarrow> nat" where
  "region_end r = (let e = (mr_base r + mr_length r) mod 2 ^ 64 in if e > 2 ^ 32 then 2 ^ 32 else e)"

fun usable_top :: "mem_region list \<Rightarrow> nat \<Rightarrow> nat" where
  "usable_top [] acc = acc"
| "usable_top (r # rs) acc =
     usable_top rs (if mr_usable r \<and> mr_base r < 2 ^ 32 \<and> region_end r > acc then region_end r else acc)"

text \<open>
  The placement loop of \<open>pmm_init\<close>: one pass over the regions with the end computed at its
  start, then the passes until one moves nothing. A loop that does not end is \<open>None\<close>.
\<close>

fun place_scan :: "mem_region list \<Rightarrow> nat \<Rightarrow> nat \<Rightarrow> bool \<Rightarrow> nat \<times> bool" where
  "place_scan [] bitmap_end start moved = (start, moved)"
| "place_scan (r # rs) bitmap_end start moved =
     (if \<not> mr_usable r \<and> mr_base r < V2P bitmap_end \<and> region_end r > V2P start
      then place_scan rs bitmap_end (P2V (page_floor ((region_end r + 4095) mod 2 ^ 32))) True
      else place_scan rs bitmap_end start moved)"

definition bitmap_end_of :: "nat \<Rightarrow> nat \<Rightarrow> nat" where
  "bitmap_end_of start bytes = page_floor (sub32 (add32 (add32 start bytes) 4096) 1)"

partial_function (option) place_bitmap :: "mem_region list \<Rightarrow> nat \<Rightarrow> nat \<Rightarrow> (nat \<times> nat) option" where
  "place_bitmap regions bytes start =
     (let e = bitmap_end_of start bytes
      in case place_scan regions e start False of
           (start', moved) \<Rightarrow> if moved then place_bitmap regions bytes start' else Some (start', e))"

text \<open>Usable regions round inward, reserved ones outward; regions above 4 GiB are skipped.\<close>

definition mark_usable :: "mem_region \<Rightarrow> 'a pmm_scheme \<Rightarrow> 'a pmm_scheme" where
  "mark_usable r p =
     (if \<not> mr_usable r \<or> mr_base r \<ge> 2 ^ 32 then p
      else mark_free_range p ((mr_base r + 4095) div 4096) (region_end r div 4096))"

definition mark_reserved :: "mem_region \<Rightarrow> 'a pmm_scheme \<Rightarrow> 'a pmm_scheme" where
  "mark_reserved r p =
     (if mr_usable r \<or> mr_base r \<ge> 2 ^ 32 then p
      else mark_used_range p (mr_base r div 4096) ((region_end r + 4095) div 4096))"

definition pmm_init :: "nat \<Rightarrow> mem_region list \<Rightarrow> 'a pmm_scheme \<Rightarrow> 'a pmm_scheme outcome option" where
  "pmm_init kernel_end regions p =
     (let hi = usable_top regions 0
      in if hi = 0 then Some (Panic ''pmm: boot loader reported no usable memory'')
         else let frames = hi div 4096;
                  words = (frames + 31) div 32
              in case place_bitmap regions (words * 4) kernel_end of
                   None \<Rightarrow> None
                 | Some (start, e) \<Rightarrow>
                     if V2P e > 0x01000000
                     then Some (Panic ''pmm: frame bitmap does not fit in the boot mapping'')
                     else let p0 = p\<lparr>bitmap_at := start, bitmap := replicate words 0xFFFFFFFF,
                                     frame_count := frames, word_count := words\<rparr>;
                              p1 = fold mark_usable regions p0;
                              p2 = fold mark_reserved regions p1;
                              p3 = p2\<lparr>usable_count := count_free p2\<rparr>;
                              p4 = mark_used_range p3 0 (V2P e div 4096);
                              p5 = p4\<lparr>free_count := count_free p4\<rparr>
                          in Some (Done (p5\<lparr>search_hint := 0\<rparr>)))"

subsection \<open>Single frames\<close>

text \<open>\<open>while (w < word_count && bitmap[w] == 0xFFFFFFFFu) w++;\<close>\<close>

function first_word_from :: "u32 list \<Rightarrow> nat \<Rightarrow> nat \<Rightarrow> nat" where
  "first_word_from bm n w =
     (if w < n \<and> bm ! w = 0xFFFFFFFF then first_word_from bm n (w + 1) else w)"
  by pat_completeness auto
termination
  by (relation "measure (\<lambda>(bm, n, w). n - w)") auto

text \<open>\<open>__builtin_ctz\<close>: the index of the lowest set bit, undefined at 0 (here 32).\<close>

function ctz_from :: "u32 \<Rightarrow> nat \<Rightarrow> nat" where
  "ctz_from w i = (if i < 32 \<and> \<not> bit w i then ctz_from w (i + 1) else i)"
  by pat_completeness auto
termination
  by (relation "measure (\<lambda>(w, i). 32 - i)") auto

definition pmm_alloc_frame :: "'a pmm_scheme \<Rightarrow> nat \<times> 'a pmm_scheme" where
  "pmm_alloc_frame p =
     (let w = first_word_from (bitmap p) (word_count p) (search_hint p);
          p1 = p\<lparr>search_hint := w\<rparr>
      in if w < word_count p
         then let frame = w * 32 + ctz_from (NOT (bitmap p ! w)) 0;
                  p2 = mark_used p1 frame
              in (shl32 frame 12, p2\<lparr>free_count := sub32 (free_count p2) 1\<rparr>)
         else (0, p1))"

definition pmm_free_frame :: "'a pmm_scheme \<Rightarrow> nat \<Rightarrow> 'a pmm_scheme outcome" where
  "pmm_free_frame p phys =
     (let frame = phys div 4096
      in if phys mod 4096 \<noteq> 0 then Panic ''pmm_free_frame: address is not page-aligned''
         else if frame \<ge> frame_count p
         then Panic ''pmm_free_frame: address is beyond physical memory''
         else if \<not> is_used p frame
         then Panic ''pmm_free_frame: frame is already free (double free)''
         else let p1 = mark_free p frame;
                  p2 = p1\<lparr>free_count := add32 (free_count p1) 1\<rparr>
              in Done (if frame div 32 < search_hint p2
                       then p2\<lparr>search_hint := frame div 32\<rparr> else p2))"

definition pmm_free_frames :: "'a pmm_scheme \<Rightarrow> nat" where
  "pmm_free_frames p = free_count p"

definition pmm_usable_frames :: "'a pmm_scheme \<Rightarrow> nat" where
  "pmm_usable_frames p = usable_count p"

subsection \<open>Contiguous frames\<close>

text \<open>\<open>while (run < frames && !is_used(start + run)) run++;\<close>\<close>

function free_run :: "'a pmm_scheme \<Rightarrow> nat \<Rightarrow> nat \<Rightarrow> nat \<Rightarrow> nat" where
  "free_run p start frames run =
     (if run < frames \<and> \<not> is_used p (start + run)
      then free_run p start frames (run + 1) else run)"
  by pat_completeness auto
termination
  by (relation "measure (\<lambda>(p, start, frames, run). frames - run)") auto

text \<open>
  The search loop of \<open>pmm_alloc_contiguous\<close>. It may not end (a boundary that is not a
  multiple of the page size), which is \<open>None\<close>; \<open>Some None\<close> is no run found.
\<close>

partial_function (option) contiguous_from ::
    "'a pmm_scheme \<Rightarrow> nat \<Rightarrow> nat \<Rightarrow> nat \<Rightarrow> nat \<Rightarrow> nat option option" where
  "contiguous_from p frames stop boundary start =
     (if add32 start frames \<le> stop
      then let lo = shl32 start 12;
               hi = sub32 (add32 lo (shl32 frames 12)) 1
           in if boundary \<noteq> 0 \<and> lo div boundary \<noteq> hi div boundary
              then contiguous_from p frames stop boundary ((hi div boundary) * boundary div 4096)
              else let run = free_run p start frames 0
                   in if run = frames then Some (Some start)
                      else contiguous_from p frames stop boundary (add32 start (run + 1))
      else Some None)"

definition pmm_alloc_contiguous ::
    "'a pmm_scheme \<Rightarrow> nat \<Rightarrow> nat \<Rightarrow> nat \<Rightarrow> (nat \<times> 'a pmm_scheme) option" where
  "pmm_alloc_contiguous p frames limit boundary =
     (if frames = 0 then Some (0, p)
      else let stop = min (limit div 4096) (frame_count p)
           in case contiguous_from p frames stop boundary 0 of
                None \<Rightarrow> None
              | Some None \<Rightarrow> Some (0, p)
              | Some (Some start) \<Rightarrow>
                  let p1 = fold (\<lambda>f q. mark_used q f) [start ..< start + frames] p
                  in Some (shl32 start 12, p1\<lparr>free_count := sub32 (free_count p1) frames\<rparr>))"

section \<open>Bits of the map\<close>

declare first_word_from.simps [simp del] ctz_from.simps [simp del] free_run.simps [simp del]

lemma is_used_bit: "is_used p f \<longleftrightarrow> bit (bitmap p ! (f div 32)) (f mod 32)"
  by (simp add: is_used_def bit_iff_and_push_bit_not_eq_0)

lemma frame_eq_iff: "(f :: nat) = g \<longleftrightarrow> f div 32 = g div 32 \<and> f mod 32 = g mod 32"
  by (metis div_mult_mod_eq)

lemma is_used_mark_used:
  "f div 32 < length (bitmap p) \<Longrightarrow> is_used (mark_used p f) g \<longleftrightarrow> g = f \<or> is_used p g"
  by (cases "g div 32 = f div 32")
    (auto simp: is_used_bit mark_used_def bit_simps frame_eq_iff [of g f])

lemma is_used_mark_free:
  "f div 32 < length (bitmap p) \<Longrightarrow> is_used (mark_free p f) g \<longleftrightarrow> g \<noteq> f \<and> is_used p g"
  by (cases "g div 32 = f div 32")
    (auto simp: is_used_bit mark_free_def bit_simps frame_eq_iff [of g f])

lemma mark_fields [simp]:
  "frame_count (mark_used p f) = frame_count p" "word_count (mark_used p f) = word_count p"
  "search_hint (mark_used p f) = search_hint p" "free_count (mark_used p f) = free_count p"
  "usable_count (mark_used p f) = usable_count p"
  "length (bitmap (mark_used p f)) = length (bitmap p)"
  "frame_count (mark_free p f) = frame_count p" "word_count (mark_free p f) = word_count p"
  "search_hint (mark_free p f) = search_hint p" "free_count (mark_free p f) = free_count p"
  "usable_count (mark_free p f) = usable_count p"
  "length (bitmap (mark_free p f)) = length (bitmap p)"
  by (simp_all add: mark_used_def mark_free_def)

section \<open>Invariant\<close>

definition free_set :: "'a pmm_scheme \<Rightarrow> nat set" where
  "free_set p = {f. f < frame_count p \<and> \<not> is_used p f}"

definition pmm_shape :: "'a pmm_scheme \<Rightarrow> bool" where
  "pmm_shape p \<longleftrightarrow> frame_count p \<le> 2 ^ 20
     \<and> word_count p = (frame_count p + 31) div 32 \<and> length (bitmap p) = word_count p
     \<and> (\<forall>f. frame_count p \<le> f \<and> f < 32 * word_count p \<longrightarrow> is_used p f)"

definition pmm_inv :: "'a pmm_scheme \<Rightarrow> bool" where
  "pmm_inv p \<longleftrightarrow> pmm_shape p \<and> free_count p = card (free_set p)
     \<and> search_hint p \<le> word_count p
     \<and> (\<forall>f. f < 32 * search_hint p \<longrightarrow> is_used p f) \<and> 0 \<notin> free_set p"

lemma free_set_finite [simp, intro]: "finite (free_set p)"
  by (simp add: free_set_def)

lemma free_set_bound: "f \<in> free_set p \<Longrightarrow> f < frame_count p"
  by (simp add: free_set_def)

lemma shape_word: "pmm_shape p \<Longrightarrow> f < frame_count p \<Longrightarrow> f div 32 < length (bitmap p)"
  by (simp add: pmm_shape_def)

lemma card_free_le: "pmm_shape p \<Longrightarrow> card (free_set p) \<le> 2 ^ 20"
  using card_mono [of "{..<frame_count p}" "free_set p"]
  by (simp add: pmm_shape_def subset_eq free_set_bound)

lemma free_set_mark_used:
  "f div 32 < length (bitmap p) \<Longrightarrow> free_set (mark_used p f) = free_set p - {f}"
  by (auto simp: free_set_def is_used_mark_used)

lemma free_set_mark_free:
  "f div 32 < length (bitmap p) \<Longrightarrow> f < frame_count p \<Longrightarrow>
   free_set (mark_free p f) = insert f (free_set p)"
  by (auto simp: free_set_def is_used_mark_free)

lemma mark_used_shape: "pmm_shape p \<Longrightarrow> f div 32 < length (bitmap p) \<Longrightarrow> pmm_shape (mark_used p f)"
  by (auto simp: pmm_shape_def is_used_mark_used)

lemma mark_free_shape: "pmm_shape p \<Longrightarrow> f < frame_count p \<Longrightarrow> pmm_shape (mark_free p f)"
  by (auto simp: pmm_shape_def is_used_mark_free)

section \<open>Searching\<close>

lemma first_word_from_spec:
  "w \<le> n \<Longrightarrow> w \<le> first_word_from bm n w \<and> first_word_from bm n w \<le> n
     \<and> (\<forall>v. w \<le> v \<and> v < first_word_from bm n w \<longrightarrow> bm ! v = 0xFFFFFFFF)
     \<and> (first_word_from bm n w < n \<longrightarrow> bm ! first_word_from bm n w \<noteq> 0xFFFFFFFF)"
proof (induction bm n w rule: first_word_from.induct)
  case (1 bm n w)
  show ?case
  proof (cases "w < n \<and> bm ! w = 0xFFFFFFFF")
    case True
    then have "first_word_from bm n w = first_word_from bm n (w + 1)"
      by (simp add: first_word_from.simps [of bm n w])
    moreover have "v = w \<or> w + 1 \<le> v" if "w \<le> v" for v using that by auto
    ultimately show ?thesis using "1.IH" True by (metis Suc_eq_plus1 Suc_leD Suc_leI)
  next
    case False
    with "1.prems" show ?thesis by (auto simp: first_word_from.simps [of bm n w])
  qed
qed

lemma ctz_from_spec:
  assumes "bit w b" "i \<le> b" "b < 32" "\<And>j. j < i \<Longrightarrow> \<not> bit w j"
  shows "ctz_from w i < 32 \<and> bit w (ctz_from w i) \<and> (\<forall>j < ctz_from w i. \<not> bit w j)"
  using assms
proof (induction w i rule: ctz_from.induct)
  case (1 w i)
  show ?case
  proof (cases "bit w i")
    case True
    with "1.prems" show ?thesis by (simp add: ctz_from.simps [of w i])
  next
    case False
    with "1.prems" have "i < b" by (metis le_neq_implies_less)
    then have eq: "ctz_from w i = ctz_from w (i + 1)"
      using False "1.prems" by (simp add: ctz_from.simps [of w i])
    have "i + 1 \<le> b" using \<open>i < b\<close> by simp
    moreover have "\<not> bit w j" if "j < i + 1" for j
      using that False "1.prems"(4) [of j] by (metis less_antisym Suc_eq_plus1)
    ultimately show ?thesis unfolding eq using False "1.prems" by (intro "1.IH") auto
  qed
qed

lemma word_full_iff: "w = 0xFFFFFFFF \<longleftrightarrow> (\<forall>i < 32. bit w i)" for w :: u32
proof -
  have "w = - 1 \<longleftrightarrow> (\<forall>i < 32. bit w i)"
    by (auto simp: bit_eq_iff bit_simps)
  moreover have "(0xFFFFFFFF :: u32) = - 1" by simp
  ultimately show ?thesis by (simp only:)
qed


section \<open>Allocating and freeing one frame\<close>

text \<open>Where the search stops, the lowest free frame is, if there is any.\<close>

lemma search_finds_lowest:
  assumes inv: "pmm_inv p"
    and w: "w = first_word_from (bitmap p) (word_count p) (search_hint p)"
  shows "w \<le> word_count p" and "\<forall>f. f < 32 * w \<longrightarrow> is_used p f"
    and "w < word_count p \<Longrightarrow> f = w * 32 + ctz_from (NOT (bitmap p ! w)) 0 \<Longrightarrow>
      f \<in> free_set p \<and> (\<forall>g \<in> free_set p. f \<le> g) \<and> f div 32 = w"
proof -
  note spec = first_word_from_spec [of "search_hint p" "word_count p" "bitmap p", folded w]
  show le: "w \<le> word_count p" using spec inv by (auto simp: pmm_inv_def)
  show below: "\<forall>f. f < 32 * w \<longrightarrow> is_used p f"
  proof (intro allI impI)
    fix f assume f: "f < 32 * w"
    show "is_used p f"
    proof (cases "f < 32 * search_hint p")
      case True
      with inv show ?thesis by (simp add: pmm_inv_def)
    next
      case False
      with f have "search_hint p \<le> f div 32" "f div 32 < w" by auto
      with spec inv have "bitmap p ! (f div 32) = 0xFFFFFFFF" by (auto simp: pmm_inv_def)
      then show ?thesis unfolding is_used_bit word_full_iff by simp
    qed
  qed
  show "f \<in> free_set p \<and> (\<forall>g \<in> free_set p. f \<le> g) \<and> f div 32 = w"
    if lt: "w < word_count p" and f: "f = w * 32 + ctz_from (NOT (bitmap p ! w)) 0"
  proof -
    have "bitmap p ! w \<noteq> 0xFFFFFFFF" using spec inv lt by (auto simp: pmm_inv_def)
    then obtain b where b: "b < 32" "\<not> bit (bitmap p ! w) b" unfolding word_full_iff by blast
    define c where "c = ctz_from (NOT (bitmap p ! w)) 0"
    have c: "c < 32" "\<not> bit (bitmap p ! w) c" "\<forall>j < c. bit (bitmap p ! w) j"
      using ctz_from_spec [of "NOT (bitmap p ! w)" b 0] b by (auto simp: bit_simps c_def)
    have fd: "f div 32 = w" "f mod 32 = c" using f c(1) by (auto simp: c_def [symmetric])
    have "\<not> is_used p f" using fd c by (simp add: is_used_bit)
    moreover from this have "f < frame_count p"
      using inv lt f c(1) by (auto simp: pmm_inv_def pmm_shape_def c_def [symmetric] not_le [symmetric])
    ultimately have "f \<in> free_set p" by (simp add: free_set_def)
    moreover have "f \<le> g" if g: "g \<in> free_set p" for g
    proof (rule ccontr)
      assume "\<not> f \<le> g"
      moreover have "\<not> g < 32 * w" using below g by (auto simp: free_set_def)
      ultimately have gd: "g div 32 = w" using f c(1) by (auto simp: c_def [symmetric])
      have "g = g div 32 * 32 + g mod 32" by simp
      with gd \<open>\<not> f \<le> g\<close> have "g mod 32 < c" using f by (simp add: c_def [symmetric])
      with gd c(3) g show False by (auto simp: free_set_def is_used_bit)
    qed
    ultimately show ?thesis using fd by blast
  qed
qed

lemma pmm_alloc_frame_some:
  assumes inv: "pmm_inv p" and some: "free_set p \<noteq> {}"
  obtains p' where "pmm_alloc_frame p = (4096 * Min (free_set p), p')" "pmm_inv p'"
    "free_set p' = free_set p - {Min (free_set p)}" "frame_count p' = frame_count p"
    "pmm.more p' = pmm.more p"
proof -
  define w where "w = first_word_from (bitmap p) (word_count p) (search_hint p)"
  define f where "f = w * 32 + ctz_from (NOT (bitmap p ! w)) 0"
  define p' where "p' = mark_used (p\<lparr>search_hint := w\<rparr>) f\<lparr>free_count := sub32 (free_count p) 1\<rparr>"
  note s = search_finds_lowest [OF inv w_def]
  have lt: "w < word_count p"
  proof (rule ccontr)
    assume "\<not> w < word_count p"
    then have "32 * w \<ge> frame_count p" using s(1) inv by (auto simp: pmm_inv_def pmm_shape_def)
    with s(2) some show False by (fastforce simp: free_set_def)
  qed
  then have f: "f \<in> free_set p" "\<forall>g \<in> free_set p. f \<le> g" "f div 32 = w"
    using s(3) [OF _ f_def] by auto
  then have min: "Min (free_set p) = f" by (intro Min_eqI) auto
  have bnd: "f < 2 ^ 20" using f(1) inv by (auto simp: free_set_def pmm_inv_def pmm_shape_def)
  have word: "f div 32 < length (bitmap p)" using f(3) lt inv by (simp add: pmm_inv_def pmm_shape_def)
  have eq: "pmm_alloc_frame p = (4096 * f, p')"
    using lt bnd shl32_exact [of f 12]
    by (simp add: pmm_alloc_frame_def Let_def w_def [symmetric] f_def [symmetric] p'_def mult.commute)
  have used: "is_used p' g \<longleftrightarrow> g = f \<or> is_used p g" for g
    using is_used_mark_used [of f "p\<lparr>search_hint := w\<rparr>" g] word by (simp add: p'_def is_used_def)
  have flds: "frame_count p' = frame_count p" "word_count p' = word_count p"
    "length (bitmap p') = length (bitmap p)" "free_count p' = sub32 (free_count p) 1"
    "search_hint p' = w"
    by (auto simp: p'_def)
  have fs: "free_set p' = free_set p - {f}" by (auto simp: free_set_def used flds)
  have "free_count p = card (free_set p)" "card (free_set p) \<le> 2 ^ 20" "0 < card (free_set p)"
    using inv card_free_le f(1) by (auto simp: pmm_inv_def card_gt_0_iff)
  then have "free_count p' = card (free_set p')"
    using f(1) sub32_exact [of 1 "free_count p"] by (simp add: flds fs)
  then have "pmm_inv p'"
    using inv lt s(2) by (auto simp: pmm_inv_def pmm_shape_def flds fs used)
  then show thesis using that eq fs min flds by (auto simp: p'_def mark_used_def)
qed

lemma pmm_alloc_frame_none:
  assumes inv: "pmm_inv p" and none: "free_set p = {}"
  obtains p' where "pmm_alloc_frame p = (0, p')" "pmm_inv p'" "free_set p' = {}"
    "frame_count p' = frame_count p" "pmm.more p' = pmm.more p"
proof -
  define w where "w = first_word_from (bitmap p) (word_count p) (search_hint p)"
  note s = search_finds_lowest [OF inv w_def]
  have nlt: "\<not> w < word_count p" using s(3) none by blast
  have "pmm_inv (p\<lparr>search_hint := w\<rparr>)" "free_set (p\<lparr>search_hint := w\<rparr>) = {}"
    using inv none s(1,2) by (auto simp: pmm_inv_def pmm_shape_def free_set_def is_used_def)
  then show thesis using that nlt by (auto simp: pmm_alloc_frame_def Let_def w_def [symmetric])
qed

lemma pmm_free_frame_done:
  assumes inv: "pmm_inv p" and f: "0 < f" "f < frame_count p" "f \<notin> free_set p"
  obtains p' where "pmm_free_frame p (4096 * f) = Done p'" "pmm_inv p'"
    "free_set p' = insert f (free_set p)" "frame_count p' = frame_count p"
    "pmm.more p' = pmm.more p"
proof -
  define p' where "p' = (let q = mark_free p f\<lparr>free_count := add32 (free_count p) 1\<rparr>
    in if f div 32 < search_hint p then q\<lparr>search_hint := f div 32\<rparr> else q)"
  have used: "is_used p f" using f by (simp add: free_set_def)
  have shape: "pmm_shape p" using inv by (simp add: pmm_inv_def)
  note word = shape_word [OF shape f(2)]
  have eq: "pmm_free_frame p (4096 * f) = Done p'"
    using f used by (simp add: pmm_free_frame_def Let_def p'_def)
  have used': "is_used p' g \<longleftrightarrow> g \<noteq> f \<and> is_used p g" for g
    using is_used_mark_free [OF word, of g] by (simp add: p'_def Let_def is_used_def)
  have flds: "frame_count p' = frame_count p" "word_count p' = word_count p"
    "length (bitmap p') = length (bitmap p)" "free_count p' = add32 (free_count p) 1"
    "search_hint p' = min (search_hint p) (f div 32)"
    by (auto simp: p'_def Let_def)
  have fs: "free_set p' = insert f (free_set p)"
    using f by (auto simp: free_set_def used' flds)
  have "free_count p' = card (free_set p')"
    using inv f card_free_le [OF shape] by (simp add: flds fs pmm_inv_def add32_exact)
  moreover have "is_used p' g" if "g < 32 * search_hint p'" for g
  proof -
    have "g < 32 * search_hint p" "g \<noteq> f" using that by (auto simp: flds)
    then show ?thesis using inv by (simp add: pmm_inv_def used')
  qed
  ultimately have "pmm_inv p'"
    using inv f by (auto simp: pmm_inv_def pmm_shape_def flds fs used')
  then show thesis using that eq fs flds by (auto simp: p'_def Let_def mark_free_def)
qed


section \<open>The contract of a frame allocator\<close>

text \<open>
  What the clients of the allocator (page tables, heap, stacks) rely on: a frame handed out
  is page-aligned, not null and leaves the free set; a frame given back returns to it.
\<close>

datatype frame_op = AllocFrame | FreeFrame nat

text \<open>A client that frees only what it holds: any sequence of its requests.\<close>

fun frame_run :: "('s \<Rightarrow> nat \<times> 's) \<Rightarrow> ('s \<Rightarrow> nat \<Rightarrow> 's outcome) \<Rightarrow> 's \<Rightarrow> nat list \<Rightarrow>
    frame_op list \<Rightarrow> ('s \<times> nat list) outcome" where
  "frame_run alloc release s held [] = Done (s, held)"
| "frame_run alloc release s held (AllocFrame # ops) =
     (case alloc s of (phys, s') \<Rightarrow>
        frame_run alloc release s' (if phys = 0 then held else phys # held) ops)"
| "frame_run alloc release s held (FreeFrame phys # ops) =
     (if phys \<in> set held
      then case release s phys of Panic m \<Rightarrow> Panic m
           | Done s' \<Rightarrow> frame_run alloc release s' (remove1 phys held) ops
      else frame_run alloc release s held ops)"

definition held_ok :: "nat set \<Rightarrow> nat \<Rightarrow> nat list \<Rightarrow> bool" where
  "held_ok free limit held \<longleftrightarrow> distinct held
     \<and> (\<forall>phys \<in> set held. \<exists>f. phys = 4096 * f \<and> 0 < f \<and> f < limit \<and> f \<notin> free)"

locale frame_allocator =
  fixes inv :: "'s \<Rightarrow> bool"
    and free :: "'s \<Rightarrow> nat set"
    and limit :: "'s \<Rightarrow> nat"
    and alloc :: "'s \<Rightarrow> nat \<times> 's"
    and release :: "'s \<Rightarrow> nat \<Rightarrow> 's outcome"
  assumes finite_free: "inv s \<Longrightarrow> finite (free s)"
    and alloc_none: "inv s \<Longrightarrow> free s = {} \<Longrightarrow>
      \<exists>s'. alloc s = (0, s') \<and> inv s' \<and> free s' = {} \<and> limit s' = limit s"
    and alloc_some: "inv s \<Longrightarrow> free s \<noteq> {} \<Longrightarrow>
      \<exists>f s'. alloc s = (4096 * f, s') \<and> f \<in> free s \<and> 0 < f \<and> f < limit s
        \<and> inv s' \<and> free s' = free s - {f} \<and> limit s' = limit s"
    and release_ok: "inv s \<Longrightarrow> 0 < f \<Longrightarrow> f < limit s \<Longrightarrow> f \<notin> free s \<Longrightarrow>
      \<exists>s'. release s (4096 * f) = Done s' \<and> inv s' \<and> free s' = insert f (free s)
        \<and> limit s' = limit s"
begin

lemma alloc_then_release:
  assumes "inv s" and "alloc s = (phys, s')" and "phys \<noteq> 0"
  shows "\<exists>s''. release s' phys = Done s'' \<and> inv s'' \<and> free s'' = free s \<and> limit s'' = limit s"
proof -
  have "free s \<noteq> {}" using alloc_none [OF assms(1)] assms(2,3) by auto
  with alloc_some [OF assms(1)] assms(2) obtain f where f: "phys = 4096 * f" "f \<in> free s"
    "0 < f" "f < limit s" "inv s'" "free s' = free s - {f}" "limit s' = limit s" by auto
  with release_ok [of s' f] show ?thesis by (auto simp: insert_absorb)
qed

lemma run_conserves:
  "inv s \<Longrightarrow> held_ok (free s) (limit s) held \<Longrightarrow>
   \<exists>s' held'. frame_run alloc release s held ops = Done (s', held') \<and> inv s'
     \<and> held_ok (free s') (limit s) held' \<and> limit s' = limit s
     \<and> card (free s') + length held' = card (free s) + length held"
proof (induction ops arbitrary: s held)
  case Nil
  then show ?case by simp
next
  case (Cons op ops)
  show ?case
  proof (cases op)
    case AllocFrame
    show ?thesis
    proof (cases "free s = {}")
      case True
      with alloc_none [OF Cons.prems(1)] obtain s' where "alloc s = (0, s')" "inv s'" "free s' = {}"
        "limit s' = limit s" by auto
      then show ?thesis using Cons.IH [of s' held] Cons.prems(2) AllocFrame True by simp
    next
      case False
      with alloc_some [OF Cons.prems(1)] obtain f s' where f: "alloc s = (4096 * f, s')" "f \<in> free s"
        "0 < f" "f < limit s" "inv s'" "free s' = free s - {f}" "limit s' = limit s" by blast
      have "held_ok (free s') (limit s') (4096 * f # held)"
        using Cons.prems(2) f by (auto simp: held_ok_def)
      moreover have "card (free s) = Suc (card (free s'))"
        using f(2,6) card_Suc_Diff1 [OF finite_free [OF Cons.prems(1)]] by simp
      ultimately show ?thesis
        using Cons.IH [of s' "4096 * f # held"] f(1,3,5,7) AllocFrame by simp
    qed
  next
    case (FreeFrame phys)
    show ?thesis
    proof (cases "phys \<in> set held")
      case False
      then show ?thesis using Cons.IH [OF Cons.prems] FreeFrame by simp
    next
      case True
      with Cons.prems(2) obtain f where f: "phys = 4096 * f" "0 < f" "f < limit s" "f \<notin> free s"
        by (auto simp: held_ok_def)
      with release_ok [OF Cons.prems(1)] obtain s' where s': "release s phys = Done s'" "inv s'"
        "free s' = insert f (free s)" "limit s' = limit s" by auto
      have "held_ok (free s') (limit s') (remove1 phys held)"
        using Cons.prems(2) f s' by (auto simp: held_ok_def)
      moreover have "card (free s') = Suc (card (free s))"
        using f s' finite_free [OF Cons.prems(1)] by simp
      moreover have "length held = Suc (length (remove1 phys held))"
        using True length_pos_if_in_set [OF True] by (simp add: length_remove1)
      ultimately show ?thesis
        using Cons.IH [of s' "remove1 phys held"] s'(1,2,4) True FreeFrame by simp
    qed
  qed
qed

end

interpretation frames: frame_allocator pmm_inv free_set frame_count pmm_alloc_frame pmm_free_frame
proof unfold_locales
  fix s :: "'a pmm_scheme" and f
  assume inv: "pmm_inv s"
  show "finite (free_set s)" by simp
  show "\<exists>s'. pmm_alloc_frame s = (0, s') \<and> pmm_inv s' \<and> free_set s' = {} \<and> frame_count s' = frame_count s"
    if "free_set s = {}" by (rule pmm_alloc_frame_none [OF inv that]) blast
  show "\<exists>f s'. pmm_alloc_frame s = (4096 * f, s') \<and> f \<in> free_set s \<and> 0 < f \<and> f < frame_count s
      \<and> pmm_inv s' \<and> free_set s' = free_set s - {f} \<and> frame_count s' = frame_count s"
    if some: "free_set s \<noteq> {}"
  proof -
    have m: "Min (free_set s) \<in> free_set s" using some by simp
    then have "Min (free_set s) \<noteq> 0" using inv by (metis pmm_inv_def)
    then show ?thesis
      using m free_set_bound [OF m] by (blast intro: pmm_alloc_frame_some [OF inv some])
  qed
  show "\<exists>s'. pmm_free_frame s (4096 * f) = Done s' \<and> pmm_inv s' \<and> free_set s' = insert f (free_set s)
      \<and> frame_count s' = frame_count s"
    if "0 < f" "f < frame_count s" "f \<notin> free_set s"
    by (rule pmm_free_frame_done [OF inv that]) blast
qed

section \<open>Ranges of frames\<close>

lemma fold_mark_used:
  "\<forall>f \<in> set fs. f div 32 < length (bitmap p) \<Longrightarrow>
   is_used (fold (\<lambda>f q. mark_used q f) fs p) g \<longleftrightarrow> g \<in> set fs \<or> is_used p g"
  by (induction fs arbitrary: p) (auto simp: is_used_mark_used)

lemma fold_mark_free:
  "\<forall>f \<in> set fs. f div 32 < length (bitmap p) \<Longrightarrow>
   is_used (fold (\<lambda>f q. mark_free q f) fs p) g \<longleftrightarrow> g \<notin> set fs \<and> is_used p g"
  by (induction fs arbitrary: p) (auto simp: is_used_mark_free)

lemma mark_bitmap_at [simp]:
  "bitmap_at (mark_used p f) = bitmap_at p" "bitmap_at (mark_free p f) = bitmap_at p"
  "pmm.more (mark_used p f) = pmm.more p" "pmm.more (mark_free p f) = pmm.more p"
  by (simp_all add: mark_used_def mark_free_def)

lemma fold_mark_used_fields [simp]:
  shows "frame_count (fold (\<lambda>f q. mark_used q f) fs p) = frame_count p" "word_count (fold (\<lambda>f q. mark_used q f) fs p) = word_count p"
    "search_hint (fold (\<lambda>f q. mark_used q f) fs p) = search_hint p" "free_count (fold (\<lambda>f q. mark_used q f) fs p) = free_count p"
    "usable_count (fold (\<lambda>f q. mark_used q f) fs p) = usable_count p" "bitmap_at (fold (\<lambda>f q. mark_used q f) fs p) = bitmap_at p"
    "length (bitmap (fold (\<lambda>f q. mark_used q f) fs p)) = length (bitmap p)" "pmm.more (fold (\<lambda>f q. mark_used q f) fs p) = pmm.more p"
  by (induction fs arbitrary: p) simp_all

lemma fold_mark_free_fields [simp]:
  shows "frame_count (fold (\<lambda>f q. mark_free q f) fs p) = frame_count p" "word_count (fold (\<lambda>f q. mark_free q f) fs p) = word_count p"
    "search_hint (fold (\<lambda>f q. mark_free q f) fs p) = search_hint p" "free_count (fold (\<lambda>f q. mark_free q f) fs p) = free_count p"
    "usable_count (fold (\<lambda>f q. mark_free q f) fs p) = usable_count p" "bitmap_at (fold (\<lambda>f q. mark_free q f) fs p) = bitmap_at p"
    "length (bitmap (fold (\<lambda>f q. mark_free q f) fs p)) = length (bitmap p)" "pmm.more (fold (\<lambda>f q. mark_free q f) fs p) = pmm.more p"
  by (induction fs arbitrary: p) simp_all

lemma mark_used_range_ok:
  assumes "pmm_shape p"
  shows "pmm_shape (mark_used_range p a b)"
    and "free_set (mark_used_range p a b) = free_set p - {a ..< b}"
    and "frame_count (mark_used_range p a b) = frame_count p"
proof -
  have "is_used (mark_used_range p a b) g \<longleftrightarrow> g \<in> {a ..< min b (frame_count p)} \<or> is_used p g" for g
    using fold_mark_used [of "[a ..< min b (frame_count p)]" p g] shape_word [OF assms]
    by (simp add: mark_used_range_def)
  then show "pmm_shape (mark_used_range p a b)"
    and "free_set (mark_used_range p a b) = free_set p - {a ..< b}"
    and "frame_count (mark_used_range p a b) = frame_count p"
    using assms by (auto simp: pmm_shape_def free_set_def mark_used_range_def)
qed

lemma mark_free_range_ok:
  assumes "pmm_shape p"
  shows "pmm_shape (mark_free_range p a b)"
    and "free_set (mark_free_range p a b) = free_set p \<union> {a ..< min b (frame_count p)}"
    and "frame_count (mark_free_range p a b) = frame_count p"
proof -
  have "is_used (mark_free_range p a b) g \<longleftrightarrow> g \<notin> {a ..< min b (frame_count p)} \<and> is_used p g" for g
    using fold_mark_free [of "[a ..< min b (frame_count p)]" p g] shape_word [OF assms]
    by (simp add: mark_free_range_def)
  then show "pmm_shape (mark_free_range p a b)"
    and "free_set (mark_free_range p a b) = free_set p \<union> {a ..< min b (frame_count p)}"
    and "frame_count (mark_free_range p a b) = frame_count p"
    using assms by (auto simp: pmm_shape_def free_set_def mark_free_range_def)
qed

lemma count_free_card: "count_free p = card (free_set p)"
proof -
  have "count_free p = card (set (filter (\<lambda>f. \<not> is_used p f) [0 ..< frame_count p]))"
    unfolding count_free_def by (rule distinct_card [symmetric]) simp
  also have "set (filter (\<lambda>f. \<not> is_used p f) [0 ..< frame_count p]) = free_set p"
    by (auto simp: free_set_def)
  finally show ?thesis .
qed

section \<open>Contiguous frames\<close>

lemma free_run_spec:
  "run \<le> frames \<Longrightarrow> \<forall>j < run. \<not> is_used p (start + j) \<Longrightarrow>
   free_run p start frames run \<le> frames
   \<and> (\<forall>j < free_run p start frames run. \<not> is_used p (start + j))
   \<and> (free_run p start frames run < frames \<longrightarrow> is_used p (start + free_run p start frames run))"
proof (induction p start frames run rule: free_run.induct)
  case (1 p start frames run)
  show ?case
  proof (cases "run < frames \<and> \<not> is_used p (start + run)")
    case True
    then have "free_run p start frames run = free_run p start frames (run + 1)"
      by (simp add: free_run.simps [of p start frames run])
    with 1 True show ?thesis by (simp add: less_Suc_eq)
  next
    case False
    with "1.prems" show ?thesis by (auto simp: free_run.simps [of p start frames run])
  qed
qed

text \<open>A run of frames that would satisfy the request.\<close>

definition fits :: "'a pmm_scheme \<Rightarrow> nat \<Rightarrow> nat \<Rightarrow> nat \<Rightarrow> nat \<Rightarrow> bool" where
  "fits p frames stop boundary s \<longleftrightarrow> s + frames \<le> stop
     \<and> (\<forall>j < frames. \<not> is_used p (s + j))
     \<and> (boundary \<noteq> 0 \<longrightarrow> (s * 4096) div boundary = (s * 4096 + frames * 4096 - 1) div boundary)"

lemma contiguous_step_arith:
  assumes "0 < frames" and "start + frames \<le> stop" and "stop \<le> 2 ^ 20"
  shows "add32 start frames = start + frames"
    and "shl32 start 12 = start * 4096"
    and "sub32 (add32 (start * 4096) (shl32 frames 12)) 1 = start * 4096 + frames * 4096 - 1"
proof -
  have le: "start * 4096 + frames * 4096 \<le> 2 ^ 32" using assms by simp
  have "start * 4096 < 2 ^ 32" using assms by simp
  then show s: "shl32 start 12 = start * 4096" using shl32_exact [of start 12] by simp
  show "add32 start frames = start + frames" using assms by (simp add: add32_exact)
  show "sub32 (add32 (start * 4096) (shl32 frames 12)) 1 = start * 4096 + frames * 4096 - 1"
  proof (cases "start * 4096 + frames * 4096 = 2 ^ 32")
    case True
    then have "add32 (start * 4096) (shl32 frames 12) = 0"
      using mod_add_right_eq [of "start * 4096" "frames * 4096" "2 ^ 32"]
      by (simp add: add32_def shl32_def)
    then show ?thesis using True by (simp add: sub32_def)
  next
    case False
    with le have "start * 4096 + frames * 4096 < 2 ^ 32" by simp
    moreover from this have "shl32 frames 12 = frames * 4096" using shl32_exact [of frames 12] by simp
    ultimately show ?thesis using assms(1) by (simp add: add32_exact sub32_exact)
  qed
qed

lemma next_boundary:
  assumes "0 < frames" and "4096 dvd boundary" and "boundary \<noteq> 0"
    and cross: "(start * 4096) div boundary \<noteq> (start * 4096 + frames * 4096 - 1) div boundary"
  defines "n \<equiv> ((start * 4096 + frames * 4096 - 1) div boundary) * boundary div 4096"
  shows "start < n" and "n * 4096 \<le> start * 4096 + frames * 4096 - 1"
    and "\<And>s. start \<le> s \<Longrightarrow> s < n \<Longrightarrow> \<not> fits p frames stop boundary s"
proof -
  let ?lo = "start * 4096" and ?hi = "start * 4096 + frames * 4096 - 1"
  obtain b where b: "boundary = 4096 * b" using assms(2) by auto
  have n: "n * 4096 = (?hi div boundary) * boundary" unfolding n_def b by simp
  have "?lo \<le> ?hi" using assms(1) by simp
  then have less: "?lo div boundary < ?hi div boundary"
    using cross div_le_mono [of ?lo ?hi boundary] by simp
  then have "?lo < (?hi div boundary) * boundary"
    using assms(3) by (simp add: div_less_iff_less_mult)
  with n show "start < n" by simp
  show "n * 4096 \<le> ?hi" unfolding n by simp
  fix s assume s: "start \<le> s" "s < n"
  have "s * 4096 < (?hi div boundary) * boundary" using s(2) n by simp
  then have "(s * 4096) div boundary < ?hi div boundary"
    using assms(3) by (simp add: div_less_iff_less_mult)
  also have "\<dots> \<le> (s * 4096 + frames * 4096 - 1) div boundary"
    using s(1) by (intro div_le_mono) simp
  finally show "\<not> fits p frames stop boundary s" using assms(3) by (simp add: fits_def)
qed

lemma contiguous_from_correct:
  assumes "0 < frames" and "stop \<le> 2 ^ 20" and "4096 dvd boundary" and "frames \<le> 2 ^ 20"
    and "\<And>s. s < start \<Longrightarrow> \<not> fits p frames stop boundary s" and "start \<le> stop"
  shows "(\<exists>s. contiguous_from p frames stop boundary start = Some (Some s)
            \<and> fits p frames stop boundary s)
       \<or> (contiguous_from p frames stop boundary start = Some None
            \<and> (\<forall>s. \<not> fits p frames stop boundary s))"
  using assms(5,6)
proof (induction "stop - start" arbitrary: start rule: less_induct)
  case less
  show ?case
  proof (cases "start + frames \<le> stop")
    case False
    moreover from this have "add32 start frames = start + frames"
      using less.prems(2) assms by (simp add: add32_exact)
    moreover have "\<not> fits p frames stop boundary s" for s
      using less.prems(1) [of s] False by (cases "s < start") (auto simp: fits_def)
    ultimately show ?thesis by (simp add: contiguous_from.simps [of p frames stop boundary start])
  next
    case True
    note ar = contiguous_step_arith [OF assms(1) True assms(2)]
    let ?lo = "start * 4096" and ?hi = "start * 4096 + frames * 4096 - 1"
    have unf: "contiguous_from p frames stop boundary start =
       (if boundary \<noteq> 0 \<and> ?lo div boundary \<noteq> ?hi div boundary
        then contiguous_from p frames stop boundary ((?hi div boundary) * boundary div 4096)
        else if free_run p start frames 0 = frames then Some (Some start)
        else contiguous_from p frames stop boundary (add32 start (free_run p start frames 0 + 1)))"
      using True by (subst contiguous_from.simps) (simp only: ar Let_def if_True)
    show ?thesis
    proof (cases "boundary \<noteq> 0 \<and> ?lo div boundary \<noteq> ?hi div boundary")
      case cross: True
      define n where "n = (?hi div boundary) * boundary div 4096"
      have n: "start < n" "n * 4096 \<le> ?hi" "\<And>s. start \<le> s \<Longrightarrow> s < n \<Longrightarrow> \<not> fits p frames stop boundary s"
        using next_boundary [OF assms(1,3)] cross unfolding n_def by blast+
      have "contiguous_from p frames stop boundary start = contiguous_from p frames stop boundary n"
        using cross unfolding unf n_def by (rule if_P)
      moreover have "n \<le> stop" using n(2) True assms(1) by simp
      moreover have "stop - n < stop - start" using n(1) \<open>n \<le> stop\<close> by simp
      moreover have "\<not> fits p frames stop boundary s" if "s < n" for s
        using n(3) less.prems(1) that by (cases "s < start") auto
      ultimately show ?thesis using less.hyps [of n] by simp
    next
      case False
      define run where "run = free_run p start frames 0"
      have run: "run \<le> frames" "\<And>j. j < run \<Longrightarrow> \<not> is_used p (start + j)"
          "run < frames \<Longrightarrow> is_used p (start + run)"
        using free_run_spec [of 0 frames p start] by (auto simp: run_def)
      show ?thesis
      proof (cases "run = frames")
        case eq: True
        then have "fits p frames stop boundary start"
          using True False run(2) by (auto simp: fits_def)
        moreover have "contiguous_from p frames stop boundary start = Some (Some start)"
          using eq unfolding unf if_not_P [OF False] run_def by (rule if_P)
        ultimately show ?thesis by blast
      next
        case ne: False
        define n where "n = start + run + 1"
        have n: "start < n" "n \<le> stop" using ne run(1) True by (auto simp: n_def)
        have a: "add32 start (run + 1) = n" using n assms by (simp add: n_def add32_exact)
        have "contiguous_from p frames stop boundary start = contiguous_from p frames stop boundary n"
          using ne unfolding a [symmetric] unf if_not_P [OF False] run_def by (rule if_not_P)
        moreover have "stop - n < stop - start" using n by simp
        moreover have "\<not> fits p frames stop boundary s" if "s < n" for s
        proof (cases "s < start")
          case True
          then show ?thesis using less.prems(1) by blast
        next
          case False
          then have "s + (start + run - s) = start + run" "start + run - s < frames"
            using that ne run(1) by (auto simp: n_def)
          then obtain j where j: "s + j = start + run" "j < frames" by blast
          then show ?thesis using run ne by (auto simp: fits_def)
        qed
        ultimately show ?thesis using less.hyps [of n] n by simp
      qed
    qed
  qed
qed

lemma pmm_alloc_contiguous_cases:
  assumes inv: "pmm_inv p" and bnd: "4096 dvd boundary" and stop: "stop = min (limit div 4096) (frame_count p)"
    and size: "frames < 2 ^ 32"
  shows "(\<exists>s p'. pmm_alloc_contiguous p frames limit boundary = Some (4096 * s, p') \<and> 0 < frames
            \<and> fits p frames stop boundary s \<and> 0 < s \<and> {s ..< s + frames} \<subseteq> free_set p
            \<and> pmm_inv p' \<and> free_set p' = free_set p - {s ..< s + frames} \<and> frame_count p' = frame_count p)
       \<or> (pmm_alloc_contiguous p frames limit boundary = Some (0, p)
            \<and> (frames = 0 \<or> (\<forall>s. \<not> fits p frames stop boundary s)))"
proof (cases "0 < frames \<and> (\<exists>s. fits p frames stop boundary s)")
  case False
  show ?thesis
  proof (cases "frames = 0")
    case True
    then show ?thesis by (simp add: pmm_alloc_contiguous_def)
  next
    case pos: False
    with False have none: "\<forall>s. \<not> fits p frames stop boundary s" by simp
    have le: "stop \<le> 2 ^ 20" using inv stop by (auto simp: pmm_inv_def pmm_shape_def)
    have "contiguous_from p frames stop boundary 0 = Some None"
    proof (cases "frames \<le> 2 ^ 20")
      case True
      then show ?thesis
        using contiguous_from_correct [of frames stop boundary 0 p] bnd none pos le by auto
    next
      case False
      then have "\<not> add32 0 frames \<le> stop" using le size by (simp add: add32_exact)
      then show ?thesis by (simp add: contiguous_from.simps [of p frames])
    qed
    with none pos stop show ?thesis by (simp add: pmm_alloc_contiguous_def Let_def)
  qed
next
  case True
  have shape: "pmm_shape p" using inv by (simp add: pmm_inv_def)
  have "stop \<le> 2 ^ 20" using shape stop by (auto simp: pmm_shape_def)
  moreover have "frames \<le> stop" using True by (auto simp: fits_def)
  ultimately obtain s where s: "contiguous_from p frames stop boundary 0 = Some (Some s)"
      "fits p frames stop boundary s"
    using contiguous_from_correct [of frames stop boundary 0 p] bnd True by auto
  let ?fs = "[s ..< s + frames]"
  define p1 where "p1 = fold (\<lambda>f q. mark_used q f) ?fs p"
  define p' where "p' = p1\<lparr>free_count := sub32 (free_count p1) frames\<rparr>"
  have sub: "{s ..< s + frames} \<subseteq> free_set p"
  proof
    fix f assume f: "f \<in> {s ..< s + frames}"
    then have "\<not> is_used p (s + (f - s))" using s(2) unfolding fits_def by (metis atLeastLessThan_iff less_diff_conv2 add.commute)
    then show "f \<in> free_set p" using f s(2) stop by (auto simp: fits_def free_set_def)
  qed
  have "s \<in> free_set p" using sub True by auto
  then have "0 < s" using inv by (cases s) (auto simp: pmm_inv_def)
  have used: "is_used p' g \<longleftrightarrow> g \<in> {s ..< s + frames} \<or> is_used p g" for g
  proof -
    have "\<forall>f \<in> set ?fs. f div 32 < length (bitmap p)"
      using shape_word [OF shape] sub free_set_bound by (metis set_upt subsetD)
    then have "is_used p1 g \<longleftrightarrow> g \<in> {s ..< s + frames} \<or> is_used p g"
      using fold_mark_used [of ?fs p g] by (simp add: p1_def)
    then show ?thesis by (simp add: p'_def is_used_def)
  qed
  have flds: "frame_count p' = frame_count p" "word_count p' = word_count p"
    "length (bitmap p') = length (bitmap p)" "free_count p' = sub32 (free_count p) frames"
    "search_hint p' = search_hint p"
    by (auto simp: p'_def p1_def)
  have fs: "free_set p' = free_set p - {s ..< s + frames}" by (auto simp: free_set_def used flds)
  have "card (free_set p') = card (free_set p) - frames"
    unfolding fs using sub by (subst card_Diff_subset) auto
  moreover have "frames \<le> card (free_set p)" using card_mono [OF free_set_finite sub] by simp
  ultimately have "free_count p' = card (free_set p')"
    using inv card_free_le [OF shape] by (simp add: flds pmm_inv_def sub32_exact)
  then have "pmm_inv p'" using inv by (auto simp: pmm_inv_def pmm_shape_def flds fs used)
  moreover have "s < 2 ^ 20" using free_set_bound [OF \<open>s \<in> free_set p\<close>] shape by (simp add: pmm_shape_def)
  then have "shl32 s 12 = 4096 * s" using shl32_exact [of s 12] by simp
  then have "pmm_alloc_contiguous p frames limit boundary = Some (4096 * s, p')"
    using True s(1) stop by (simp add: pmm_alloc_contiguous_def Let_def p'_def p1_def)
  ultimately show ?thesis using True s(2) \<open>0 < s\<close> sub fs flds(1) by blast
qed

section \<open>Initialisation\<close>

text \<open>A frame wholly inside a usable region, and a frame a reserved region touches.\<close>

definition frame_usable :: "mem_region list \<Rightarrow> nat \<Rightarrow> bool" where
  "frame_usable regions f \<longleftrightarrow>
     (\<exists>r \<in> set regions. mr_usable r \<and> mr_base r \<le> 4096 * f \<and> 4096 * f + 4096 \<le> region_end r)"

definition frame_reserved :: "mem_region list \<Rightarrow> nat \<Rightarrow> bool" where
  "frame_reserved regions f \<longleftrightarrow>
     (\<exists>r \<in> set regions. \<not> mr_usable r \<and> mr_base r < 4096 * f + 4096 \<and> 4096 * f < region_end r)"

lemma region_end_le: "region_end r \<le> 2 ^ 32"
  by (simp add: region_end_def Let_def)

lemma usable_top_acc: "acc \<le> usable_top rs acc"
proof (induction rs arbitrary: acc)
  case (Cons r rs)
  show ?case using Cons [of "region_end r"] Cons [of acc] by auto
qed simp

lemma usable_top_ge:
  "r \<in> set rs \<Longrightarrow> mr_usable r \<Longrightarrow> mr_base r < 2 ^ 32 \<Longrightarrow> region_end r \<le> usable_top rs acc"
proof (induction rs arbitrary: acc)
  case (Cons q rs)
  show ?case
  proof (cases "r = q")
    case True
    then show ?thesis
      using Cons.prems usable_top_acc [of "region_end q" rs] usable_top_acc [of acc rs] by simp
  next
    case False
    then show ?thesis using Cons by simp
  qed
qed simp

lemma usable_top_le: "acc \<le> 2 ^ 32 \<Longrightarrow> usable_top rs acc \<le> 2 ^ 32"
  by (induction rs arbitrary: acc) (auto simp: region_end_le simp del: power_numeral)

lemma frame_usable_bound:
  assumes "frame_usable regions f"
  shows "f < usable_top regions 0 div 4096"
proof -
  from assms obtain r where r: "r \<in> set regions" "mr_usable r" "mr_base r \<le> 4096 * f"
    "4096 * f + 4096 \<le> region_end r" by (auto simp: frame_usable_def)
  with region_end_le [of r] have "mr_base r < 2 ^ 32" by simp
  with usable_top_ge [OF r(1,2)] r(4) have "4096 * f + 4096 \<le> usable_top regions 0"
    using order_trans by blast
  then show ?thesis by simp
qed

lemma mark_usable_ok:
  assumes "pmm_shape p"
  shows "pmm_shape (mark_usable r p)" "frame_count (mark_usable r p) = frame_count p"
    "free_set (mark_usable r p) = free_set p \<union> {f. f < frame_count p \<and> frame_usable [r] f}"
proof -
  have *: "(mr_base r + 4095) div 4096 \<le> f \<longleftrightarrow> mr_base r \<le> 4096 * f"
    "f < region_end r div 4096 \<longleftrightarrow> 4096 * f + 4096 \<le> region_end r" for f by auto
  show "free_set (mark_usable r p) = free_set p \<union> {f. f < frame_count p \<and> frame_usable [r] f}"
  proof (cases "mr_usable r \<and> mr_base r < 2 ^ 32")
    case True
    then have "mark_usable r p = mark_free_range p ((mr_base r + 4095) div 4096) (region_end r div 4096)"
      by (simp add: mark_usable_def)
    then show ?thesis
      using mark_free_range_ok(2) [OF assms] True by (auto simp: frame_usable_def *)
  next
    case False
    moreover from this have "\<not> frame_usable [r] f" for f
      using region_end_le [of r] by (auto simp: frame_usable_def)
    ultimately show ?thesis by (auto simp: mark_usable_def)
  qed
qed (use assms mark_free_range_ok(1,3) [OF assms] in \<open>simp_all add: mark_usable_def\<close>)

lemma mark_reserved_ok:
  assumes "pmm_shape p"
  shows "pmm_shape (mark_reserved r p)" "frame_count (mark_reserved r p) = frame_count p"
    "free_set (mark_reserved r p) = free_set p - {f. frame_reserved [r] f}"
proof -
  have eq: "mr_base r div 4096 \<le> f \<longleftrightarrow> mr_base r < 4096 * f + 4096"
    "f < (region_end r + 4095) div 4096 \<longleftrightarrow> 4096 * f < region_end r" for f by auto
  show "free_set (mark_reserved r p) = free_set p - {f. frame_reserved [r] f}"
  proof (cases "\<not> mr_usable r \<and> mr_base r < 2 ^ 32")
    case True
    then have "mark_reserved r p = mark_used_range p (mr_base r div 4096) ((region_end r + 4095) div 4096)"
      by (simp add: mark_reserved_def)
    then show ?thesis
      using mark_used_range_ok(2) [OF assms] True by (auto simp: frame_reserved_def eq)
  next
    case False
    moreover from this have "\<not> frame_reserved [r] f" if "f \<in> free_set p" for f
      using free_set_bound [OF that] assms by (auto simp: frame_reserved_def pmm_shape_def)
    ultimately show ?thesis by (auto simp: mark_reserved_def)
  qed
qed (use assms mark_used_range_ok(1,3) [OF assms] in \<open>simp_all add: mark_reserved_def\<close>)

lemma fold_mark_usable:
  "pmm_shape p \<Longrightarrow> pmm_shape (fold mark_usable rs p) \<and> frame_count (fold mark_usable rs p) = frame_count p
   \<and> free_set (fold mark_usable rs p) = free_set p \<union> {f. f < frame_count p \<and> frame_usable rs f}"
proof (induction rs arbitrary: p)
  case Nil
  then show ?case by (simp add: frame_usable_def)
next
  case (Cons r rs)
  show ?case using Cons.IH [OF mark_usable_ok(1) [OF Cons.prems]] mark_usable_ok [OF Cons.prems]
    by (auto simp: frame_usable_def)
qed

lemma fold_mark_reserved:
  "pmm_shape p \<Longrightarrow> pmm_shape (fold mark_reserved rs p) \<and> frame_count (fold mark_reserved rs p) = frame_count p
   \<and> free_set (fold mark_reserved rs p) = free_set p - {f. frame_reserved rs f}"
proof (induction rs arbitrary: p)
  case Nil
  then show ?case by (simp add: frame_reserved_def)
next
  case (Cons r rs)
  show ?case using Cons.IH [OF mark_reserved_ok(1) [OF Cons.prems]] mark_reserved_ok [OF Cons.prems]
    by (auto simp: frame_reserved_def)
qed

text \<open>
  The placement loop ends when the reserved regions leave a gap: each ends at or below some
  \<open>m\<close> or begins far enough above it, all below the 1 GiB the kernel's half can address.
\<close>

definition placeable :: "mem_region list \<Rightarrow> nat \<Rightarrow> nat \<Rightarrow> bool" where
  "placeable regions bytes m \<longleftrightarrow> m + bytes + 8192 \<le> 2 ^ 30
     \<and> (\<forall>r \<in> set regions. \<not> mr_usable r \<longrightarrow> region_end r \<le> m \<or> m + bytes + 8192 \<le> mr_base r)"

definition placed :: "nat \<Rightarrow> nat \<Rightarrow> bool" where
  "placed m start \<longleftrightarrow> 0xC0000000 \<le> start \<and> start \<le> 0xC0000000 + m + 4095"

lemma V2P_exact: "0xC0000000 \<le> va \<Longrightarrow> va < 2 ^ 32 \<Longrightarrow> V2P va = va - 0xC0000000"
  by (simp add: V2P_def sub32_exact)

lemma P2V_exact: "pa < 2 ^ 30 \<Longrightarrow> P2V pa = 0xC0000000 + pa"
  by (simp add: P2V_def add32_exact)

lemma page_floor_bounds: "page_floor x \<le> x" "x < page_floor x + 4096"
  by (simp_all add: page_floor_def)

lemma bitmap_end_of_bounds:
  assumes "placed m start" and "m + bytes + 8192 \<le> 2 ^ 30"
  shows "start + bytes \<le> bitmap_end_of start bytes" "bitmap_end_of start bytes < 0xC0000000 + m + bytes + 8192"
    "bitmap_end_of start bytes mod 4096 = 0"
proof -
  have "bitmap_end_of start bytes = page_floor (start + bytes + 4095)"
    using assms by (simp add: bitmap_end_of_def placed_def add32_exact sub32_exact add.commute)
  then show "start + bytes \<le> bitmap_end_of start bytes"
      "bitmap_end_of start bytes < 0xC0000000 + m + bytes + 8192"
      "bitmap_end_of start bytes mod 4096 = 0"
    using page_floor_bounds [of "start + bytes + 4095"] assms
    by (simp_all add: placed_def) (simp add: page_floor_def)
qed

lemma place_scan_ok:
  assumes "placed m start" and "V2P e < m + bytes + 8192" and "m + bytes + 8192 \<le> 2 ^ 30"
    and "\<forall>r \<in> set rs. \<not> mr_usable r \<longrightarrow> region_end r \<le> m \<or> m + bytes + 8192 \<le> mr_base r"
    and "place_scan rs e start moved = (start', moved')"
  shows "placed m start' \<and> start \<le> start' \<and> (moved' \<longrightarrow> moved \<or> start < start')
     \<and> (\<not> moved' \<longrightarrow> \<not> moved \<and> start' = start
          \<and> (\<forall>r \<in> set rs. \<not> mr_usable r \<longrightarrow> V2P e \<le> mr_base r \<or> region_end r \<le> V2P start))"
  using assms(1,4,5)
proof (induction rs arbitrary: start moved)
  case Nil
  then show ?case by simp
next
  case (Cons r rs)
  have v: "V2P start = start - 0xC0000000"
    using Cons.prems(1) assms(3) by (simp add: placed_def V2P_exact)
  show ?case
  proof (cases "\<not> mr_usable r \<and> mr_base r < V2P e \<and> region_end r > V2P start")
    case True
    define n where "n = P2V (page_floor ((region_end r + 4095) mod 2 ^ 32))"
    have le: "region_end r \<le> m" using True Cons.prems(2) assms(2) by auto
    have "(region_end r + 4095) mod 2 ^ 32 = region_end r + 4095" using le assms(3) by simp
    then have n: "n = 0xC0000000 + page_floor (region_end r + 4095)"
      using le assms(3) page_floor_bounds(1) [of "region_end r + 4095"] by (simp add: n_def P2V_exact)
    have "start < n" "placed m n"
      using page_floor_bounds [of "region_end r + 4095"] le True Cons.prems(1) v
      by (auto simp: n placed_def)
    moreover have "place_scan rs e n True = (start', moved')"
      using Cons.prems(3) True by (simp add: n_def)
    ultimately show ?thesis
      using Cons.IH [of n True] Cons.prems(2) by fastforce
  next
    case False
    then have "place_scan rs e start moved = (start', moved')" using Cons.prems(3) by auto
    then show ?thesis using Cons.IH [OF Cons.prems(1)] Cons.prems(2) False by auto
  qed
qed

lemma place_bitmap_ok:
  assumes "placeable regions bytes m" and "placed m start"
  shows "\<exists>s. place_bitmap regions bytes start = Some (s, bitmap_end_of s bytes) \<and> placed m s \<and> start \<le> s
     \<and> (\<forall>r \<in> set regions. \<not> mr_usable r \<longrightarrow>
          V2P (bitmap_end_of s bytes) \<le> mr_base r \<or> region_end r \<le> V2P s)"
  using assms(2)
proof (induction "0xC0000000 + m + 4096 - start" arbitrary: start rule: less_induct)
  case less
  have pl: "m + bytes + 8192 \<le> 2 ^ 30"
    "\<forall>r \<in> set regions. \<not> mr_usable r \<longrightarrow> region_end r \<le> m \<or> m + bytes + 8192 \<le> mr_base r"
    using assms(1) by (auto simp: placeable_def)
  define e where "e = bitmap_end_of start bytes"
  note b = bitmap_end_of_bounds [OF less.prems pl(1), folded e_def]
  have "V2P e < m + bytes + 8192"
    using b pl(1) less.prems by (simp add: V2P_exact placed_def)
  moreover obtain s moved where s: "place_scan regions e start False = (s, moved)" by fastforce
  ultimately have ok: "placed m s" "start \<le> s" "moved \<longrightarrow> start < s"
      "\<not> moved \<longrightarrow> s = start \<and> (\<forall>r \<in> set regions. \<not> mr_usable r \<longrightarrow> V2P e \<le> mr_base r \<or> region_end r \<le> V2P start)"
    using place_scan_ok [OF less.prems _ pl s] by auto
  note unf = place_bitmap.simps [of regions bytes start, folded e_def, unfolded s Let_def prod.case]
  show ?case
  proof (cases moved)
    case True
    then have "0xC0000000 + m + 4096 - s < 0xC0000000 + m + 4096 - start"
      using ok(1,3) by (auto simp: placed_def)
    from less.hyps [OF this ok(1)] show ?thesis using True ok(2) unf by auto
  next
    case False
    then show ?thesis using ok unf e_def less.prems by simp
  qed
qed

lemma mark_region_fields [simp]:
  "bitmap_at (mark_usable r p) = bitmap_at p" "word_count (mark_usable r p) = word_count p"
  "bitmap_at (mark_reserved r p) = bitmap_at p" "word_count (mark_reserved r p) = word_count p"
  by (simp_all add: mark_usable_def mark_reserved_def mark_used_range_def mark_free_range_def)

lemma fold_mark_region_fields [simp]:
  "bitmap_at (fold mark_usable rs p) = bitmap_at p" "word_count (fold mark_usable rs p) = word_count p"
  "bitmap_at (fold mark_reserved rs p) = bitmap_at p" "word_count (fold mark_reserved rs p) = word_count p"
  by (induction rs arbitrary: p) simp_all

lemma pmm_init_ok:
  assumes m: "placeable regions (4 * ((usable_top regions 0 div 4096 + 31) div 32)) m"
    and k: "0xC0001000 \<le> kernel_end" "kernel_end \<le> 0xC0000000 + m"
  shows "(usable_top regions 0 = 0 \<and> pmm_init kernel_end regions p =
            Some (Panic ''pmm: boot loader reported no usable memory''))
    \<or> (\<exists>e. 0x01000000 < V2P e \<and> pmm_init kernel_end regions p =
            Some (Panic ''pmm: frame bitmap does not fit in the boot mapping''))
    \<or> (\<exists>q e. pmm_init kernel_end regions p = Some (Done q) \<and> pmm_inv q
        \<and> free_set q = {f. frame_usable regions f \<and> \<not> frame_reserved regions f \<and> V2P e \<le> 4096 * f}
        \<and> V2P kernel_end \<le> V2P (bitmap_at q) \<and> V2P (bitmap_at q) + 4 * word_count q \<le> V2P e \<and> V2P e \<le> 0x01000000
        \<and> (\<forall>r \<in> set regions. \<not> mr_usable r \<longrightarrow> V2P e \<le> mr_base r \<or> region_end r \<le> V2P (bitmap_at q)))"
proof -
  define frames where "frames = usable_top regions 0 div 4096"
  define words where "words = (frames + 31) div 32"
  have m': "placeable regions (words * 4) m" using m by (simp add: words_def frames_def mult.commute)
  have "placed m kernel_end" using k by (simp add: placed_def)
  from place_bitmap_ok [OF m' this] obtain s where
    s: "place_bitmap regions (words * 4) kernel_end = Some (s, bitmap_end_of s (words * 4))" "placed m s"
       "kernel_end \<le> s" "\<forall>r \<in> set regions. \<not> mr_usable r \<longrightarrow>
          V2P (bitmap_end_of s (words * 4)) \<le> mr_base r \<or> region_end r \<le> V2P s" by blast
  define e where "e = bitmap_end_of s (words * 4)"
  have small: "m + words * 4 + 8192 \<le> 2 ^ 30" using m' by (simp add: placeable_def)
  note b = bitmap_end_of_bounds [OF s(2) small, folded e_def]
  have v: "V2P e = e - 0xC0000000" "V2P s = s - 0xC0000000" "V2P kernel_end = kernel_end - 0xC0000000"
    using b small s(2) k by (auto simp: V2P_exact placed_def)
  define p0 where "p0 = p\<lparr>bitmap_at := s, bitmap := replicate words 0xFFFFFFFF,
                          frame_count := frames, word_count := words\<rparr>"
  define p2 where "p2 = fold mark_reserved regions (fold mark_usable regions p0)"
  define p4 where "p4 = mark_used_range (p2\<lparr>usable_count := count_free p2\<rparr>) 0 (V2P e div 4096)"
  define q where "q = p4\<lparr>free_count := count_free p4, search_hint := 0\<rparr>"
  have used0: "is_used p0 f" if "f < 32 * words" for f
  proof -
    have "f div 32 < words" using that by simp
    then have "bitmap p0 ! (f div 32) = - 1" by (simp add: p0_def)
    then show ?thesis by (simp add: is_used_bit)
  qed
  have fr: "frames \<le> 2 ^ 20" using usable_top_le [of 0 regions] by (simp add: frames_def)
  have shape0: "pmm_shape p0"
    using used0 fr by (auto simp: pmm_shape_def p0_def words_def)
  have free0: "free_set p0 = {}"
    using used0 by (auto simp: free_set_def p0_def words_def)
  have shape1: "pmm_shape (fold mark_usable regions p0)" "frame_count (fold mark_usable regions p0) = frames"
    "free_set (fold mark_usable regions p0) = {f. frame_usable regions f}"
    using fold_mark_usable [OF shape0, of regions] free0 frame_usable_bound
    by (auto simp: p0_def frames_def)
  have shape2: "pmm_shape p2" "free_set p2 = {f. frame_usable regions f \<and> \<not> frame_reserved regions f}"
    using fold_mark_reserved [OF shape1(1), of regions] shape1 by (auto simp: p2_def)
  have ext: "pmm_shape (x\<lparr>usable_count := n\<rparr>) = pmm_shape x" "free_set (x\<lparr>usable_count := n\<rparr>) = free_set x"
    for x :: "'a pmm_scheme" and n by (auto simp: pmm_shape_def free_set_def is_used_def)
  have shape4: "pmm_shape p4" "free_set p4 = free_set p2 - {0 ..< V2P e div 4096}"
    using mark_used_range_ok [of "p2\<lparr>usable_count := count_free p2\<rparr>" 0 "V2P e div 4096"] shape2(1)
    by (simp_all add: p4_def ext)
  obtain a where "e = 4096 * a" using b(3) by auto
  with v(1) have "V2P e = 4096 * (a - 0xC0000)" by linarith
  then have al: "V2P e div 4096 \<le> f \<longleftrightarrow> V2P e \<le> 4096 * f" for f by simp
  have fq: "free_set q = {f. frame_usable regions f \<and> \<not> frame_reserved regions f \<and> V2P e \<le> 4096 * f}"
    using shape4(2) shape2(2) al by (auto simp: free_set_def q_def is_used_def not_less)
  have "pmm_shape q" using shape4(1) by (simp add: pmm_shape_def q_def is_used_def)
  moreover have "free_set q = free_set p4" by (simp add: free_set_def q_def is_used_def)
  then have "free_count q = card (free_set q)" by (simp add: q_def count_free_card)
  moreover have "0 \<notin> free_set q" using fq v b k s(3) by simp
  ultimately have inv: "pmm_inv q" by (simp add: pmm_inv_def q_def)
  have flds: "bitmap_at q = s" "word_count q = words"
    by (simp_all add: q_def p4_def p2_def p0_def mark_used_range_def)
  show ?thesis
  proof (cases "usable_top regions 0 = 0")
    case True
    then show ?thesis by (simp add: pmm_init_def)
  next
    case False
    have eq: "pmm_init kernel_end regions p =
      (if V2P e > 0x01000000 then Some (Panic ''pmm: frame bitmap does not fit in the boot mapping'')
       else Some (Done q))"
      using False s(1) by (simp add: pmm_init_def Let_def frames_def [symmetric] words_def [symmetric]
        e_def [symmetric] p0_def [symmetric] p2_def [symmetric] p4_def [symmetric] q_def)
    show ?thesis
    proof (cases "V2P e > 0x01000000")
      case True
      then show ?thesis using eq by auto
    next
      case False
      moreover have "V2P s + 4 * words \<le> V2P e" "V2P kernel_end \<le> V2P s"
        using b(1) s(2,3) v by (auto simp: placed_def)
      ultimately have "pmm_init kernel_end regions p = Some (Done q)"
          "V2P kernel_end \<le> V2P (bitmap_at q)" "V2P (bitmap_at q) + 4 * word_count q \<le> V2P e"
          "V2P e \<le> 0x01000000"
        using eq flds by auto
      with inv fq s(4) [folded e_def, folded flds(1)] show ?thesis by blast
    qed
  qed
qed

section \<open>Properties\<close>

text \<open>The invariant as a finite check, and two maps it accepts.\<close>

lemma pmm_inv_exec:
  "pmm_inv p \<longleftrightarrow> frame_count p \<le> 2 ^ 20 \<and> word_count p = (frame_count p + 31) div 32
     \<and> length (bitmap p) = word_count p \<and> list_all (is_used p) [frame_count p ..< 32 * word_count p]
     \<and> free_count p = count_free p \<and> search_hint p \<le> word_count p
     \<and> list_all (is_used p) [0 ..< 32 * search_hint p] \<and> (frame_count p = 0 \<or> is_used p 0)"
  by (auto simp: pmm_inv_def pmm_shape_def list_all_iff count_free_card free_set_def)

definition pmm_small :: pmm where
  "pmm_small = \<lparr>bitmap_at = 0xC0100000, bitmap = [0xFFFFFFF1], frame_count = 4, word_count = 1,
     search_hint = 0, free_count = 3, usable_count = 4\<rparr>"

lemma pmm_small_inv: "pmm_inv pmm_small"
  by (simp add: pmm_inv_exec pmm_small_def is_used_def count_free_def upt_rec)

definition small_map :: "mem_region list" where
  "small_map = [\<lparr>mr_base = 0, mr_length = 0x9F000, mr_usable = True\<rparr>,
     \<lparr>mr_base = 0xF0000, mr_length = 0x10000, mr_usable = False\<rparr>,
     \<lparr>mr_base = 0x100000, mr_length = 0x100000, mr_usable = True\<rparr>,
     \<lparr>mr_base = 0x108000, mr_length = 0x1000, mr_usable = False\<rparr>]"

lemma small_map_top: "usable_top small_map 0 = 0x200000"
  by (simp add: small_map_def region_end_def)

text \<open>
  C1. For any sequence of requests of a client that frees only frames it holds, the
  allocator never panics, never hands out a frame that is free-listed or already held, only
  hands out page-aligned frames other than frame 0 inside the managed memory, and the free
  and held frames always add up to the frames free at the start.
\<close>

theorem pmm_conserves_frames:
  assumes "pmm_inv p"
  shows "\<exists>p' held. frame_run pmm_alloc_frame pmm_free_frame p [] ops = Done (p', held)
     \<and> pmm_inv p' \<and> distinct held
     \<and> (\<forall>phys \<in> set held. phys mod 4096 = 0 \<and> 0 < phys div 4096 \<and> phys div 4096 < frame_count p
          \<and> phys div 4096 \<notin> free_set p')
     \<and> free_count p' + length held = free_count p"
proof -
  have "held_ok (free_set p) (frame_count p) []" by (simp add: held_ok_def)
  from frames.run_conserves [OF assms this, of ops] obtain p' held where
    r: "frame_run pmm_alloc_frame pmm_free_frame p [] ops = Done (p', held)" "pmm_inv p'"
       "held_ok (free_set p') (frame_count p) held"
       "card (free_set p') + length held = card (free_set p)" by auto
  have "free_count p' + length held = free_count p"
    using assms r(2,4) by (simp add: pmm_inv_def)
  moreover have "distinct held" using r(3) by (simp add: held_ok_def)
  moreover have "\<forall>phys \<in> set held. phys mod 4096 = 0 \<and> 0 < phys div 4096
      \<and> phys div 4096 < frame_count p \<and> phys div 4096 \<notin> free_set p'"
    using r(3) by (auto simp: held_ok_def)
  ultimately show ?thesis using r(1,2) by blast
qed

theorem pmm_conserves_frames_witness:
  "pmm_inv pmm_small \<and> (\<exists>p' held.
     frame_run pmm_alloc_frame pmm_free_frame pmm_small [] [AllocFrame, AllocFrame, FreeFrame 4096]
       = Done (p', held) \<and> free_count p' + length held = 3)"
  using pmm_conserves_frames [where ops = "[AllocFrame, AllocFrame, FreeFrame 4096]", OF pmm_small_inv]
    pmm_small_inv by (auto simp: pmm_small_def)

text \<open>
  C31. A contiguous request always comes back when its boundary is a multiple of the page
  size. If some run of the wanted length lies below the limit, is free and does not cross
  the boundary, such a run is returned, marked used and subtracted from the free count;
  otherwise the answer is 0 and nothing changes.
\<close>

theorem pmm_alloc_contiguous_spec:
  assumes "pmm_inv p" and "4096 dvd boundary" and "0 < frames" and "frames < 2 ^ 32"
    and "stop = min (limit div 4096) (frame_count p)"
  shows "\<exists>phys p'. pmm_alloc_contiguous p frames limit boundary = Some (phys, p') \<and> pmm_inv p'
     \<and> (if \<exists>s. fits p frames stop boundary s
        then \<exists>s. phys = 4096 * s \<and> 0 < s \<and> fits p frames stop boundary s
               \<and> {s ..< s + frames} \<subseteq> free_set p \<and> free_set p' = free_set p - {s ..< s + frames}
        else phys = 0 \<and> p' = p)"
  using pmm_alloc_contiguous_cases [OF assms(1,2,5,4)] assms(1,3) by fastforce

theorem pmm_alloc_contiguous_spec_witness:
  "\<exists>phys p'. pmm_alloc_contiguous pmm_small 2 0x1000000 0x2000 = Some (phys, p') \<and> pmm_inv p'
     \<and> phys = 0x2000"
proof -
  have fit: "fits pmm_small 2 4 0x2000 s \<longleftrightarrow> s = 2" for s
  proof
    assume f: "fits pmm_small 2 4 0x2000 s"
    then have "s = 0 \<or> s = 1 \<or> s = 2" by (auto simp: fits_def)
    moreover have "is_used pmm_small 0" by (simp add: pmm_small_def is_used_def)
    ultimately show "s = 2" using f by (auto simp: fits_def)
  next
    assume "s = 2"
    then show "fits pmm_small 2 4 0x2000 s"
      by (simp add: fits_def pmm_small_def is_used_def less_Suc_eq numeral_2_eq_2)
  qed
  have "(4 :: nat) = min (0x1000000 div 4096) (frame_count pmm_small)" by (simp add: pmm_small_def)
  then show ?thesis
    using pmm_alloc_contiguous_spec [where p = pmm_small and boundary = "0x2000" and frames = 2 and stop = 4 and limit = "0x1000000"]
      pmm_small_inv by (auto simp: fit)
qed



text \<open>
  With a boundary that is not a multiple of the page size the next boundary lies in the frame the
  search is at, and the search stays there: a run of one frame with a boundary of 6144 bytes is
  never answered once frame 0 is in use.
\<close>

lemma contiguous_returns:
  assumes "contiguous_from p frames stop boundary start = Some y"
  shows "\<not> (frames = 1 \<and> boundary = 6144 \<and> start = 1 \<and> 2 \<le> stop)"
proof (rule contiguous_from.raw_induct [where P = "\<lambda>p frames stop boundary start y.
    \<not> (frames = 1 \<and> boundary = 6144 \<and> start = 1 \<and> 2 \<le> stop)", OF _ assms])
  fix f :: "'a pmm_scheme \<Rightarrow> nat \<Rightarrow> nat \<Rightarrow> nat \<Rightarrow> nat \<Rightarrow> nat option option" and p frames stop boundary start y
  assume f: "\<And>frames stop boundary start b y. f frames stop boundary start b = Some y \<Longrightarrow>
      \<not> (stop = 1 \<and> start = 6144 \<and> b = 1 \<and> 2 \<le> boundary)"
    and body: "(if add32 start frames \<le> stop
      then let lo = shl32 start 12; hi = sub32 (add32 lo (shl32 frames 12)) 1
           in if boundary \<noteq> 0 \<and> lo div boundary \<noteq> hi div boundary
              then f p frames stop boundary (hi div boundary * boundary div 4096)
              else let run = free_run p start frames 0
                   in if run = frames then Some (Some start) else f p frames stop boundary (add32 start (run + 1))
      else Some None) = Some y"
  show "\<not> (frames = 1 \<and> boundary = 6144 \<and> start = 1 \<and> 2 \<le> stop)"
  proof
    assume *: "frames = 1 \<and> boundary = 6144 \<and> start = 1 \<and> 2 \<le> stop"
    with body have "f p 1 stop 6144 1 = Some y" by (simp add: add32_def sub32_def shl32_def Let_def)
    with f * show False by blast
  qed
qed

theorem contiguous_never_returns: "pmm_alloc_contiguous pmm_small 1 0x1000000 6144 = None"
proof -
  have "contiguous_from pmm_small 1 4 6144 0 = contiguous_from pmm_small 1 4 6144 1"
    by (subst contiguous_from.simps) (simp add: add32_def sub32_def shl32_def pmm_small_def free_run.simps is_used_def)
  then show ?thesis using contiguous_returns [of pmm_small 1 4 6144 1]
    by (cases "contiguous_from pmm_small 1 4 6144 1") (auto simp: pmm_alloc_contiguous_def pmm_small_def)
qed

end
