(* ===== verification/Vmm.thy ===== *)
theory Vmm
  imports Pmm
begin

text \<open>
  Two-level i386 paging of \<open>zkt/arch/i386/paging.c\<close>. The state extends the frame allocator
  with the contents of the frames that hold page directories and tables and with the list
  of address spaces. The hardware's page walk is part of the model: the code reaches the
  tables only through the recursive directory entry, so every read and write of
  \<open>page_directory\<close>, \<open>page_table(i)\<close> and \<open>kernel_page_tables\<close> is a walk from \<open>cr3\<close>, and an
  access the walk cannot resolve is the kernel's page-fault panic. The directories of the
  other address spaces (\<open>as->pd\<close>) are reached through pages of \<open>kpage.c\<close> that map them and
  are written directly. The TLB is flushed after every change and not modelled.
\<close>

section \<open>Model\<close>

record address_space =
  as_at :: nat
  pd_phys :: nat
  as_pd :: nat

record vmm = pmm +
  pages :: "nat \<Rightarrow> nat \<Rightarrow> u32"
  kernel_space :: address_space
  all_spaces :: "address_space list"
  active :: address_space

definition pd_frame :: "address_space \<Rightarrow> nat" where
  "pd_frame as = pd_phys as div 4096"

subsection \<open>The page walk\<close>

definition present :: "u32 \<Rightarrow> bool" where
  "present e \<longleftrightarrow> bit e 0"

definition entry_frame :: "u32 \<Rightarrow> nat" where
  "entry_frame e = unat (drop_bit 12 e)"

definition pd_index_of :: "u32 \<Rightarrow> nat" where
  "pd_index_of virt = unat (drop_bit 22 virt)"

definition pt_index_of :: "u32 \<Rightarrow> nat" where
  "pt_index_of virt = unat (drop_bit 12 virt AND 0x3FF)"

text \<open>The frame that backs a virtual address, and the word of it the address names.\<close>

definition mmu :: "'a vmm_scheme \<Rightarrow> u32 \<Rightarrow> nat option" where
  "mmu s virt =
     (let pde = pages s (pd_frame (active s)) (pd_index_of virt)
      in if \<not> present pde then None
         else let pte = pages s (entry_frame pde) (pt_index_of virt)
              in if \<not> present pte then None else Some (entry_frame pte))"

definition word_of :: "u32 \<Rightarrow> nat" where
  "word_of virt = unat (virt AND 0xFFF) div 4"

definition vread :: "'a vmm_scheme \<Rightarrow> u32 \<Rightarrow> u32 run" where
  "vread s virt = (case mmu s virt of None \<Rightarrow> rpanic ''Page fault''
                   | Some f \<Rightarrow> rret (pages s f (word_of virt)))"

definition vwrite :: "'a vmm_scheme \<Rightarrow> u32 \<Rightarrow> u32 \<Rightarrow> 'a vmm_scheme run" where
  "vwrite s virt v = (case mmu s virt of None \<Rightarrow> rpanic ''Page fault''
     | Some f \<Rightarrow> rret (s\<lparr>pages := (pages s)(f := (pages s f)(word_of virt := v))\<rparr>))"

text \<open>\<open>memset(page, 0, PAGE_SIZE)\<close> of a page-aligned address.\<close>

definition vzero :: "'a vmm_scheme \<Rightarrow> u32 \<Rightarrow> 'a vmm_scheme run" where
  "vzero s virt = (case mmu s virt of None \<Rightarrow> rpanic ''Page fault''
     | Some f \<Rightarrow> rret (s\<lparr>pages := (pages s)(f := (\<lambda>_. 0))\<rparr>))"

subsection \<open>Addresses of the tables\<close>

text \<open>\<open>&page_directory[i]\<close>, \<open>&page_table(pdi)[pti]\<close> and the page of \<open>kernel_page_tables\<close>.\<close>

definition page_directory :: "nat \<Rightarrow> u32" where
  "page_directory i = 0xFFFFF000 + 4 * of_nat i"

definition page_table :: "nat \<Rightarrow> nat \<Rightarrow> u32" where
  "page_table pdi pti = 0xFFC00000 + of_nat pdi * 4096 + 4 * of_nat pti"

definition kernel_page_tables :: "nat \<Rightarrow> u32" where
  "kernel_page_tables pdi = 0xFF800000 + of_nat pdi * 4096"

definition VMM_WRITABLE :: u32 where "VMM_WRITABLE = 1"
definition VMM_USER :: u32 where "VMM_USER = 2"
definition VMM_UNCACHED :: u32 where "VMM_UNCACHED = 4"

definition flag_if :: "bool \<Rightarrow> u32 \<Rightarrow> u32" where
  "flag_if b w = (if b then w else 0)"

subsection \<open>Mapping\<close>

text \<open>\<open>for (as = all_spaces; as; as = as->next) as->pd[pdi] = pde;\<close>\<close>

definition set_all_pds :: "nat \<Rightarrow> u32 \<Rightarrow> 'a vmm_scheme \<Rightarrow> 'a vmm_scheme" where
  "set_all_pds pdi pde s = fold (\<lambda>as t. t\<lparr>pages := (pages t)(pd_frame as := (pages t (pd_frame as))(pdi := pde))\<rparr>)
     (all_spaces s) s"

definition lift_pmm_free :: "'a vmm_scheme \<Rightarrow> nat \<Rightarrow> 'a vmm_scheme run" where
  "lift_pmm_free s phys = Some (pmm_free_frame s phys)"

text \<open>The last part of \<open>map_page_locked\<close>: the page table is there, its entry is written.\<close>

definition set_pte :: "'a vmm_scheme \<Rightarrow> u32 \<Rightarrow> u32 \<Rightarrow> u32 \<Rightarrow> (int \<times> 'a vmm_scheme) run" where
  "set_pte s virt phys flags =
     (let pdi = pd_index_of virt; pti = pt_index_of virt
      in rbind (vread s (page_table pdi pti)) (\<lambda>e.
         if present e then rret (- 1, s)
         else rbind (vwrite s (page_table pdi pti)
                (phys OR 1 OR flag_if (flags AND VMM_WRITABLE \<noteq> 0) 2
                 OR flag_if (flags AND VMM_USER \<noteq> 0) 4
                 OR flag_if (flags AND VMM_UNCACHED \<noteq> 0) 0x18)) (\<lambda>s'. rret (0, s'))))"

text \<open>
  \<open>map_page_locked\<close>, which is all of \<open>vmm_map_page\<close> but the interrupt flag. It calls
  itself to map a new kernel page table, which need not end if directory entry 1022 is
  missing: \<open>None\<close>.
\<close>

partial_function (option) vmm_map_page ::
    "'a vmm_scheme \<Rightarrow> u32 \<Rightarrow> u32 \<Rightarrow> u32 \<Rightarrow> (int \<times> 'a vmm_scheme) run" where
  "vmm_map_page s virt phys flags =
     (let pdi = pd_index_of virt; user = (flags AND VMM_USER \<noteq> 0)
      in if (virt OR phys) AND 0xFFF \<noteq> 0 \<or> pdi = 1023 \<or> user \<noteq> (virt < 0xC0000000)
         then rret (- 1, s)
         else rbind (vread s (page_directory pdi)) (\<lambda>pde0.
           if present pde0 then set_pte s virt phys flags
           else (case pmm_alloc_frame s of (table, s1) \<Rightarrow>
             if table = 0 then rret (- 1, s1)
             else let pde = of_nat table OR 1 OR 2 OR flag_if user 4
                  in if pdi \<ge> 768
                     then rbind (vmm_map_page s1 (kernel_page_tables pdi) (of_nat table) VMM_WRITABLE)
                            (\<lambda>(rc, s2).
                          if rc \<noteq> 0 then rbind (lift_pmm_free s2 table) (\<lambda>s3. rret (- 1, s3))
                          else rbind (vzero s2 (kernel_page_tables pdi)) (\<lambda>s3.
                                 set_pte (set_all_pds pdi pde s3) virt phys flags))
                     else rbind (vwrite s1 (page_directory pdi) pde) (\<lambda>s2.
                            rbind (vzero s2 (page_table pdi 0)) (\<lambda>s3.
                              set_pte s3 virt phys flags)))))"

subsection \<open>Lookup and removal\<close>

text \<open>\<open>pte_of\<close>: the address of the present entry of \<open>virt\<close>, 0 if there is none.\<close>

definition pte_of :: "'a vmm_scheme \<Rightarrow> u32 \<Rightarrow> u32 run" where
  "pte_of s virt =
     rbind (vread s (page_directory (pd_index_of virt))) (\<lambda>pde.
       if \<not> present pde then rret 0
       else rbind (vread s (page_table (pd_index_of virt) (pt_index_of virt))) (\<lambda>pte.
              rret (if present pte then page_table (pd_index_of virt) (pt_index_of virt) else 0)))"

definition vmm_unmap_page :: "'a vmm_scheme \<Rightarrow> u32 \<Rightarrow> (u32 option \<times> 'a vmm_scheme) run" where
  "vmm_unmap_page s virt =
     rbind (pte_of s virt) (\<lambda>pte.
       if pte \<noteq> 0 \<and> pd_index_of virt \<noteq> 1023
       then rbind (vread s pte) (\<lambda>e. rbind (vwrite s pte 0) (\<lambda>s'. rret (Some (e AND 0xFFFFF000), s')))
       else rret (None, s))"

definition vmm_set_writable :: "'a vmm_scheme \<Rightarrow> u32 \<Rightarrow> bool \<Rightarrow> (int \<times> 'a vmm_scheme) run" where
  "vmm_set_writable s virt writable =
     rbind (pte_of s virt) (\<lambda>pte.
       if pte \<noteq> 0 \<and> pd_index_of virt \<noteq> 1023
       then rbind (vread s pte) (\<lambda>e.
              rbind (vwrite s pte (if writable then e OR 2 else e AND NOT 2)) (\<lambda>s'. rret (0, s')))
       else rret (- 1, s))"

definition vmm_translate :: "'a vmm_scheme \<Rightarrow> u32 \<Rightarrow> u32 option run" where
  "vmm_translate s virt =
     rbind (pte_of s virt) (\<lambda>pte.
       if pte \<noteq> 0
       then rbind (vread s pte) (\<lambda>e. rret (Some ((e AND 0xFFFFF000) OR (virt AND 0xFFF))))
       else rret None)"

subsection \<open>Address spaces\<close>

text \<open>\<open>target\<close> is \<open>None\<close> for \<open>NULL\<close>, the kernel's own space.\<close>

definition vmm_as_activate :: "'a vmm_scheme \<Rightarrow> address_space option \<Rightarrow> 'a vmm_scheme" where
  "vmm_as_activate s as =
     (let target = case as of Some a \<Rightarrow> a | None \<Rightarrow> kernel_space s
      in if as_at target \<noteq> as_at (active s) then s\<lparr>active := target\<rparr> else s)"

text \<open>The inner loop of \<open>vmm_as_clear_user\<close>, over the entries of one page table.\<close>

fun clear_table :: "nat \<Rightarrow> nat list \<Rightarrow> 'a vmm_scheme \<Rightarrow> 'a vmm_scheme run" where
  "clear_table pdi [] s = rret s"
| "clear_table pdi (pti # ptis) s =
     rbind (vread s (page_table pdi pti)) (\<lambda>e.
       if present e
       then rbind (lift_pmm_free s (unat (e AND 0xFFFFF000))) (\<lambda>s1.
              rbind (vwrite s1 (page_table pdi pti) 0) (clear_table pdi ptis))
       else clear_table pdi ptis s)"

fun clear_user_from :: "nat list \<Rightarrow> 'a vmm_scheme \<Rightarrow> 'a vmm_scheme run" where
  "clear_user_from [] s = rret s"
| "clear_user_from (pdi # pdis) s =
     rbind (vread s (page_directory pdi)) (\<lambda>pde.
       if \<not> present pde then clear_user_from pdis s
       else rbind (clear_table pdi [0 ..< 1024] s) (\<lambda>s1.
              rbind (vread s1 (page_directory pdi)) (\<lambda>pde1.
                rbind (vwrite s1 (page_directory pdi) 0) (\<lambda>s2.
                  rbind (lift_pmm_free s2 (unat (pde1 AND 0xFFFFF000))) (clear_user_from pdis)))))"

definition vmm_as_clear_user :: "'a vmm_scheme \<Rightarrow> 'a vmm_scheme run" where
  "vmm_as_clear_user s = clear_user_from [0 ..< 768] s"

subsection \<open>Checking user memory\<close>

text \<open>The loop of \<open>vmm_user_range_ok\<close> over the pages from \<open>page\<close> to the end of the range.\<close>

function user_pages_ok :: "'a vmm_scheme \<Rightarrow> u32 \<Rightarrow> nat \<Rightarrow> nat \<Rightarrow> bool run" where
  "user_pages_ok s need page stop =
     (if page < stop
      then let virt = of_nat page :: u32; pdi = pd_index_of virt
           in rbind (vread s (page_directory pdi)) (\<lambda>pde.
                if pde AND 5 \<noteq> 5 then rret False
                else rbind (vread s (page_table pdi (pt_index_of virt))) (\<lambda>pte.
                  if pte AND need \<noteq> need then rret False
                  else user_pages_ok s need (page + 4096) stop))
      else rret True)"
  by pat_completeness auto
termination
  by (relation "measure (\<lambda>(s, need, page, stop). stop - page)") auto

definition vmm_user_range_ok :: "'a vmm_scheme \<Rightarrow> nat \<Rightarrow> nat \<Rightarrow> bool \<Rightarrow> bool run" where
  "vmm_user_range_ok s addr len write =
     (if len = 0 then rret (addr \<le> 0xC0000000)
      else if addr \<ge> 0xC0000000 \<or> len > 0xC0000000 - addr then rret False
      else user_pages_ok s (1 OR 4 OR flag_if write 2) (page_floor addr) (addr + len))"

subsection \<open>Initialisation\<close>

text \<open>
  \<open>vmm_init\<close>: the boot directory, at physical address \<open>boot_pd\<close>, becomes the kernel's; its
  last two entries are set and the guard page below the boot stack is unmapped. The list
  and the active space are the file's initial values.
\<close>

definition vmm_init :: "'a vmm_scheme \<Rightarrow> nat \<Rightarrow> nat \<Rightarrow> u32 \<Rightarrow> 'a vmm_scheme run" where
  "vmm_init s kernel_space_at boot_page_directory kernel_stack_guard =
     (let ks = \<lparr>as_at = kernel_space_at, pd_phys = V2P boot_page_directory, as_pd = boot_page_directory\<rparr>;
          f = pd_frame ks;
          e = of_nat (pd_phys ks) OR 1 OR 2;
          s1 = s\<lparr>kernel_space := ks, all_spaces := [ks], active := ks,
                 pages := (pages s)(f := (pages s f)(1023 := e, 1022 := e))\<rparr>
      in rbind (vmm_unmap_page s1 kernel_stack_guard) (\<lambda>(phys, s2). rret s2))"

section \<open>Virtual addresses as indices\<close>

lemma unat_drop_bit_div: "unat (drop_bit n w) = unat w div 2 ^ n"
  by (rule trans [OF unat_drop_bit_eq drop_bit_eq_div])

lemma pd_index_of_div: "pd_index_of virt = unat virt div 4194304"
  using unat_drop_bit_div [of 22 virt] by (simp add: pd_index_of_def)

lemma pt_index_of_div: "pt_index_of virt = unat virt div 4096 mod 1024"
proof -
  have "pt_index_of virt = unat (drop_bit 12 virt) mod 2 ^ 10"
    using unat_and_pow2_minus_1 [of "drop_bit 12 virt" 10] by (simp add: pt_index_of_def)
  then show ?thesis by (simp only: unat_drop_bit_div) simp
qed

lemma word_of_div: "word_of virt = unat virt mod 4096 div 4"
  using unat_and_pow2_minus_1 [of virt 12] by (simp add: word_of_def)

lemma unat_less_2_32: "unat (w :: u32) < 2 ^ 32"
  using unsigned_less [of w, where 'a = nat] by simp

lemma index_bounds [simp]: "pd_index_of virt < 1024" "pt_index_of virt < 1024"
  using unat_less_2_32 [of virt] by (simp_all add: pd_index_of_div pt_index_of_div div_less_iff_less_mult)

lemma unat_of_nat32: "n < 2 ^ 32 \<Longrightarrow> unat (of_nat n :: u32) = n"
  by (simp add: unat_of_nat)

text \<open>An address written as its two indices and its offset.\<close>

lemma index_of_parts:
  assumes "i < 1024" and "j < 1024" and "r < 4096" and "unat virt = i * 4194304 + j * 4096 + r"
  shows "pd_index_of virt = i" "pt_index_of virt = j" "unat virt mod 4096 = r"
proof -
  have "unat virt = j * 4096 + r + i * 4194304" using assms(4) by simp
  moreover have "(j * 4096 + r) div 4194304 = 0" using assms by simp
  ultimately show "pd_index_of virt = i" by (simp add: pd_index_of_div)
  have eq: "unat virt = r + (j + i * 1024) * 4096" using assms(4) by simp
  then show "unat virt mod 4096 = r" using assms(3) by (simp only: mod_mult_self1 mod_less)
  have "unat virt div 4096 = j + i * 1024" using assms(3) unfolding eq by simp
  then show "pt_index_of virt = j" using assms(2) by (simp add: pt_index_of_div)
qed

lemma page_directory_index:
  assumes "i < 1024"
  shows "pd_index_of (page_directory i) = 1023" "pt_index_of (page_directory i) = 1023"
    "word_of (page_directory i) = i"
proof -
  have "page_directory i = of_nat (0xFFFFF000 + 4 * i)" by (simp add: page_directory_def)
  then have u: "unat (page_directory i) = 1023 * 4194304 + 1023 * 4096 + 4 * i"
    using assms unat_of_nat32 [of "0xFFFFF000 + 4 * i"] by simp
  show "pd_index_of (page_directory i) = 1023" "pt_index_of (page_directory i) = 1023"
    "word_of (page_directory i) = i"
    using index_of_parts [OF _ _ _ u] assms by (simp_all add: word_of_div)
qed

lemma page_table_index:
  assumes "i < 1024" and "j < 1024"
  shows "pd_index_of (page_table i j) = 1023" "pt_index_of (page_table i j) = i"
    "word_of (page_table i j) = j"
proof -
  have "page_table i j = of_nat (0xFFC00000 + i * 4096 + 4 * j)" by (simp add: page_table_def)
  then have u: "unat (page_table i j) = 1023 * 4194304 + i * 4096 + 4 * j"
    using assms unat_of_nat32 [of "0xFFC00000 + i * 4096 + 4 * j"] by simp
  show "pd_index_of (page_table i j) = 1023" "pt_index_of (page_table i j) = i"
    "word_of (page_table i j) = j"
    using index_of_parts [OF _ _ _ u] assms by (simp_all add: word_of_div)
qed

lemma kernel_page_tables_index:
  assumes "i < 1024"
  shows "pd_index_of (kernel_page_tables i) = 1022" "pt_index_of (kernel_page_tables i) = i"
    "kernel_page_tables i AND 0xFFF = 0" "\<not> kernel_page_tables i < 0xC0000000"
proof -
  have "kernel_page_tables i = of_nat (0xFF800000 + i * 4096)" by (simp add: kernel_page_tables_def)
  then have u: "unat (kernel_page_tables i) = 1022 * 4194304 + i * 4096 + 0"
    using assms unat_of_nat32 [of "0xFF800000 + i * 4096"] by simp
  show "pd_index_of (kernel_page_tables i) = 1022" "pt_index_of (kernel_page_tables i) = i"
    using index_of_parts [OF _ _ _ u] assms by simp_all
  have "unat (kernel_page_tables i AND 0xFFF) = 0"
    using unat_and_pow2_minus_1 [of "kernel_page_tables i" 12] index_of_parts(3) [OF _ _ _ u] assms by simp
  then show "kernel_page_tables i AND 0xFFF = 0" by (simp add: unat_eq_zero)
  show "\<not> kernel_page_tables i < 0xC0000000" by (simp add: word_less_nat_alt u)
qed

lemma entry_frame_or:
  assumes "f < 2 ^ 20" and "unat w < 4096"
  shows "entry_frame (of_nat (4096 * f) OR w) = f"
proof -
  have "drop_bit 12 w = 0"
    using assms(2) by (simp only: unat_eq_zero [symmetric] unat_drop_bit_div) simp
  then have "entry_frame (of_nat (4096 * f) OR w) = unat (drop_bit 12 (of_nat (4096 * f) :: u32))"
    by (simp add: entry_frame_def)
  also have "\<dots> = (4096 * f) div 4096"
    using assms(1) unat_of_nat32 [of "4096 * f"] by (simp only: unat_drop_bit_div) simp
  finally show ?thesis by simp
qed

section \<open>The recursive mapping\<close>

text \<open>The directory maps itself at its last entry and the kernel's directory just below.\<close>

definition pd_of :: "'a vmm_scheme \<Rightarrow> address_space \<Rightarrow> nat \<Rightarrow> u32" where
  "pd_of s as = pages s (pd_frame as)"

definition self_entry :: "nat \<Rightarrow> u32" where
  "self_entry f = of_nat (4096 * f) OR 3"

lemma self_entry_simps [simp]:
  "present (self_entry f)" "f < 2 ^ 20 \<Longrightarrow> entry_frame (self_entry f) = f"
  using entry_frame_or [of f 3] by (simp_all add: self_entry_def present_def bit_or_iff)

definition recursive_ok :: "'a vmm_scheme \<Rightarrow> bool" where
  "recursive_ok s \<longleftrightarrow> pd_frame (active s) < 2 ^ 20 \<and> pd_frame (kernel_space s) < 2 ^ 20
     \<and> pd_of s (active s) 1023 = self_entry (pd_frame (active s))
     \<and> pd_of s (active s) 1022 = self_entry (pd_frame (kernel_space s))"

definition upd_page :: "'a vmm_scheme \<Rightarrow> nat \<Rightarrow> nat \<Rightarrow> u32 \<Rightarrow> 'a vmm_scheme" where
  "upd_page s f i v = s\<lparr>pages := (pages s)(f := (pages s f)(i := v))\<rparr>"

lemma mmu_page_directory:
  "recursive_ok s \<Longrightarrow> i < 1024 \<Longrightarrow> mmu s (page_directory i) = Some (pd_frame (active s))"
  by (simp add: mmu_def page_directory_index recursive_ok_def pd_of_def)

lemma mmu_page_table:
  "recursive_ok s \<Longrightarrow> i < 1024 \<Longrightarrow> j < 1024 \<Longrightarrow> mmu s (page_table i j) =
     (if present (pd_of s (active s) i) then Some (entry_frame (pd_of s (active s) i)) else None)"
  by (simp add: mmu_def page_table_index recursive_ok_def pd_of_def)

lemma mmu_kernel_page_tables:
  "recursive_ok s \<Longrightarrow> i < 1024 \<Longrightarrow> mmu s (kernel_page_tables i) =
     (if present (pd_of s (kernel_space s) i) then Some (entry_frame (pd_of s (kernel_space s) i)) else None)"
  by (simp add: mmu_def kernel_page_tables_index recursive_ok_def pd_of_def)

lemma read_directory [simp]:
  "recursive_ok s \<Longrightarrow> i < 1024 \<Longrightarrow> vread s (page_directory i) = rret (pd_of s (active s) i)"
  by (simp add: vread_def mmu_page_directory page_directory_index pd_of_def)

lemma write_directory [simp]:
  "recursive_ok s \<Longrightarrow> i < 1024 \<Longrightarrow> vwrite s (page_directory i) v = rret (upd_page s (pd_frame (active s)) i v)"
  by (simp add: vwrite_def mmu_page_directory page_directory_index upd_page_def)

lemma read_table [simp]:
  "recursive_ok s \<Longrightarrow> i < 1024 \<Longrightarrow> j < 1024 \<Longrightarrow> present (pd_of s (active s) i) \<Longrightarrow>
   vread s (page_table i j) = rret (pages s (entry_frame (pd_of s (active s) i)) j)"
  by (simp add: vread_def mmu_page_table page_table_index)

lemma write_table [simp]:
  "recursive_ok s \<Longrightarrow> i < 1024 \<Longrightarrow> j < 1024 \<Longrightarrow> present (pd_of s (active s) i) \<Longrightarrow>
   vwrite s (page_table i j) v = rret (upd_page s (entry_frame (pd_of s (active s) i)) j v)"
  by (simp add: vwrite_def mmu_page_table page_table_index upd_page_def)

definition mk_pte :: "u32 \<Rightarrow> u32 \<Rightarrow> u32" where
  "mk_pte phys flags = phys OR 1 OR flag_if (flags AND VMM_WRITABLE \<noteq> 0) 2
     OR flag_if (flags AND VMM_USER \<noteq> 0) 4 OR flag_if (flags AND VMM_UNCACHED \<noteq> 0) 0x18"

lemma present_mk_pte [simp]: "present (mk_pte phys flags)"
  by (simp add: present_def mk_pte_def bit_or_iff)

lemma set_pte_eq:
  assumes "recursive_ok s" and "present (pd_of s (active s) (pd_index_of virt))"
  shows "set_pte s virt phys flags =
    (let t = entry_frame (pd_of s (active s) (pd_index_of virt))
     in if present (pages s t (pt_index_of virt)) then rret (- 1, s)
        else rret (0, upd_page s t (pt_index_of virt) (mk_pte phys flags)))"
  using assms by (simp add: set_pte_def Let_def mk_pte_def)

lemma upd_page_fields [simp]:
  "kernel_space (upd_page s f i v) = kernel_space s" "all_spaces (upd_page s f i v) = all_spaces s"
  "active (upd_page s f i v) = active s"
  "bitmap (upd_page s f i v) = bitmap s" "frame_count (upd_page s f i v) = frame_count s"
  "word_count (upd_page s f i v) = word_count s" "free_count (upd_page s f i v) = free_count s"
  "search_hint (upd_page s f i v) = search_hint s"
  "vmm.more (upd_page s f i v) = vmm.more s"
  "pages (upd_page s f i v) g = (if g = f then (pages s f)(i := v) else pages s g)"
  by (simp_all add: upd_page_def)

lemma pages_upd_pmm [simp]:
  "free_set (s\<lparr>pages := p\<rparr>) = free_set s" "pmm_inv (s\<lparr>pages := p\<rparr>) \<longleftrightarrow> pmm_inv s"
  by (auto simp: free_set_def pmm_inv_def pmm_shape_def is_used_def)

lemma upd_page_pmm [simp]:
  "free_set (upd_page s f i v) = free_set s" "pmm_inv (upd_page s f i v) \<longleftrightarrow> pmm_inv s"
  by (auto simp: free_set_def pmm_inv_def pmm_shape_def is_used_def)

section \<open>Invariant\<close>

text \<open>
  Every directory maps itself and the kernel's tables; the kernel's half is the same in all
  of them; every table is a frame of its own that the allocator counts as used, and no two
  user halves share one.
\<close>

definition table_of :: "'a vmm_scheme \<Rightarrow> address_space \<Rightarrow> nat \<Rightarrow> nat" where
  "table_of s as i = entry_frame (pd_of s as i)"

definition space_ok :: "'a vmm_scheme \<Rightarrow> address_space \<Rightarrow> bool" where
  "space_ok s a \<longleftrightarrow> 0 < pd_frame a \<and> pd_frame a < frame_count s \<and> pd_frame a \<notin> free_set s
     \<and> pd_of s a 1023 = self_entry (pd_frame a)
     \<and> pd_of s a 1022 = self_entry (pd_frame (kernel_space s))
     \<and> (\<forall>i. 768 \<le> i \<and> i < 1022 \<longrightarrow> pd_of s a i = pd_of s (kernel_space s) i)"

definition table_ok :: "'a vmm_scheme \<Rightarrow> address_space \<Rightarrow> nat \<Rightarrow> bool" where
  "table_ok s a i \<longleftrightarrow> 0 < table_of s a i \<and> table_of s a i < frame_count s
     \<and> table_of s a i \<notin> free_set s \<and> table_of s a i \<notin> pd_frame ` set (all_spaces s)"

definition has_table :: "'a vmm_scheme \<Rightarrow> address_space \<Rightarrow> nat \<Rightarrow> bool" where
  "has_table s a i \<longleftrightarrow> a \<in> set (all_spaces s) \<and> i < 1022 \<and> present (pd_of s a i)"

definition vmm_inv :: "'a vmm_scheme \<Rightarrow> bool" where
  "vmm_inv s \<longleftrightarrow> pmm_inv s
     \<and> kernel_space s \<in> set (all_spaces s) \<and> active s \<in> set (all_spaces s)
     \<and> inj_on pd_frame (set (all_spaces s))
     \<and> (\<forall>a \<in> set (all_spaces s). space_ok s a)
     \<and> (\<forall>a i. has_table s a i \<longrightarrow> table_ok s a i)
     \<and> (\<forall>a i b j. has_table s a i \<and> has_table s b j \<and> table_of s a i = table_of s b j
          \<longrightarrow> i = j \<and> (i < 768 \<longrightarrow> a = b))"

text \<open>The entry an address space has for an address, if both levels are present.\<close>

definition lookup :: "'a vmm_scheme \<Rightarrow> address_space \<Rightarrow> nat \<Rightarrow> nat \<Rightarrow> u32 option" where
  "lookup s as i j =
     (if present (pd_of s as i) \<and> present (pages s (table_of s as i) j)
      then Some (pages s (table_of s as i) j) else None)"

lemma vmm_invD:
  assumes "vmm_inv s"
  shows "pmm_inv s" "kernel_space s \<in> set (all_spaces s)" "active s \<in> set (all_spaces s)"
    "inj_on pd_frame (set (all_spaces s))" "\<And>a. a \<in> set (all_spaces s) \<Longrightarrow> space_ok s a"
    "\<And>a i. has_table s a i \<Longrightarrow> table_ok s a i"
    "\<And>a i b j. has_table s a i \<Longrightarrow> has_table s b j \<Longrightarrow> table_of s a i = table_of s b j \<Longrightarrow> i = j"
    "\<And>a i b j. has_table s a i \<Longrightarrow> has_table s b j \<Longrightarrow> table_of s a i = table_of s b j \<Longrightarrow> i < 768 \<Longrightarrow> a = b"
  using assms unfolding vmm_inv_def by blast+

lemma pmm_inv_frames: "pmm_inv s \<Longrightarrow> f < frame_count s \<Longrightarrow> f < 2 ^ 20"
  by (simp add: pmm_inv_def pmm_shape_def)

lemma vmm_inv_recursive: "vmm_inv s \<Longrightarrow> recursive_ok s"
  using vmm_invD(1,2,3,5) [of s] pmm_inv_frames [of s]
  by (simp add: recursive_ok_def space_ok_def)

lemma table_of_cong: "pd_of t b = pd_of s b \<Longrightarrow> table_of t b k = table_of s b k"
  by (simp add: table_of_def)

lemma kernel_half_shared:
  assumes "vmm_inv s" and "a \<in> set (all_spaces s)" and "b \<in> set (all_spaces s)"
    and "768 \<le> i" and "i < 1022"
  shows "pd_of s a i = pd_of s b i"
  using vmm_invD(5) [OF assms(1,2)] vmm_invD(5) [OF assms(1,3)] assms(4,5) by (auto simp: space_ok_def)

subsection \<open>Writing an entry of a table\<close>

lemma upd_table_keeps:
  assumes "vmm_inv s" and "has_table s a i" and "b \<in> set (all_spaces s)"
  shows "pd_of (upd_page s (table_of s a i) j v) b = pd_of s b"
proof -
  have "table_of s a i \<noteq> pd_frame b"
    using vmm_invD(6) [OF assms(1,2)] assms(3) by (auto simp: table_ok_def)
  then show ?thesis by (simp add: pd_of_def)
qed

lemma vmm_inv_cong:
  assumes inv: "vmm_inv s" and pm: "pmm_inv t" "frame_count t = frame_count s" "free_set t \<subseteq> free_set s"
    and sp: "kernel_space t = kernel_space s" "all_spaces t = all_spaces s" "active t = active s"
    and pd: "\<And>a. a \<in> set (all_spaces s) \<Longrightarrow> pd_of t a = pd_of s a"
  shows "vmm_inv t"
proof -
  have h: "has_table t a i \<longleftrightarrow> has_table s a i" for a i
    using pd [of a] by (auto simp: has_table_def sp)
  have tb: "table_of t a i = table_of s a i" if "has_table s a i" for a i
    using that pd by (intro table_of_cong) (simp add: has_table_def)
  have "space_ok t a" if "a \<in> set (all_spaces s)" for a
    using vmm_invD(5) [OF inv that] pd [OF that] pd [OF vmm_invD(2) [OF inv]] pm(3)
    by (auto simp: space_ok_def pm(2) sp)
  moreover have "table_ok t a i" if "has_table s a i" for a i
    using vmm_invD(6) [OF inv that] tb [OF that] pm(3) by (auto simp: table_ok_def pm(2) sp)
  moreover have "i = j \<and> (i < 768 \<longrightarrow> a = b)"
    if "has_table s a i" "has_table s b j" "table_of t a i = table_of t b j" for a i b j
    using vmm_invD(7,8) [OF inv that(1,2)] that tb by simp
  ultimately show ?thesis
    using vmm_invD(2,3,4) [OF inv] pm(1) unfolding vmm_inv_def h sp by blast
qed

lemma upd_table_inv:
  assumes "vmm_inv s" and "has_table s a i"
  shows "vmm_inv (upd_page s (table_of s a i) j v)"
  using vmm_invD(1) [OF assms(1)] upd_table_keeps [OF assms]
  by (intro vmm_inv_cong [OF assms(1)]) simp_all

lemma upd_table_lookup:
  assumes inv: "vmm_inv s" and t: "has_table s a i" and b: "b \<in> set (all_spaces s)" and k: "k < 1022"
  shows "lookup (upd_page s (table_of s a i) j v) b k l =
    (if k = i \<and> l = j \<and> (a = b \<or> 768 \<le> i) then if present v then Some v else None
     else lookup s b k l)"
proof -
  let ?s = "upd_page s (table_of s a i) j v"
  note pd = upd_table_keeps [OF inv t b]
  have tb: "table_of ?s b k = table_of s b k" by (rule table_of_cong [OF pd])
  have same: "table_of s b i = table_of s a i \<and> present (pd_of s b i)" if "768 \<le> i"
    using kernel_half_shared [OF inv b, of a i] that t by (simp add: has_table_def table_of_def)
  show ?thesis
  proof (cases "present (pd_of s b k)")
    case True
    then have h: "has_table s b k" using b k by (simp add: has_table_def)
    show ?thesis
      using vmm_invD(7,8) [OF inv h t] same True unfolding lookup_def tb pd
      by (cases "table_of s b k = table_of s a i") auto
  next
    case False
    then show ?thesis using t same by (auto simp: lookup_def pd has_table_def)
  qed
qed

subsection \<open>Adding a table\<close>

text \<open>A zeroed frame becomes table \<open>i\<close> of the spaces in \<open>S\<close>.\<close>

definition table_added :: "'a vmm_scheme \<Rightarrow> nat \<Rightarrow> nat \<Rightarrow> u32 \<Rightarrow> address_space set \<Rightarrow> 'a vmm_scheme \<Rightarrow> bool" where
  "table_added s f i pde S t \<longleftrightarrow> pmm_inv t \<and> frame_count t = frame_count s \<and> free_set t = free_set s - {f}
     \<and> kernel_space t = kernel_space s \<and> all_spaces t = all_spaces s \<and> active t = active s
     \<and> pages t = (\<lambda>g. if g = f then (\<lambda>_. 0)
                      else if g \<in> pd_frame ` S then (pages s g)(i := pde) else pages s g)"

lemma space_frame_used: "vmm_inv s \<Longrightarrow> a \<in> set (all_spaces s) \<Longrightarrow> pd_frame a \<notin> free_set s"
  using vmm_invD(5) [of s a] by (simp add: space_ok_def)

lemma table_added_pd:
  assumes inv: "vmm_inv s" and f: "f \<in> free_set s" and S: "S \<subseteq> set (all_spaces s)"
    and add: "table_added s f i pde S t" and a: "a \<in> set (all_spaces s)"
  shows "pd_of t a = (if a \<in> S then (pd_of s a)(i := pde) else pd_of s a)"
proof -
  have "pd_frame a \<noteq> f" using space_frame_used [OF inv a] f by auto
  moreover have "pd_frame a \<in> pd_frame ` S \<longleftrightarrow> a \<in> S"
    using vmm_invD(4) [OF inv] S a by (auto simp: inj_on_def)
  ultimately show ?thesis using add by (simp add: table_added_def pd_of_def)
qed

lemma table_added_inv:
  assumes inv: "vmm_inv s" and f: "f \<in> free_set s" and i: "i < 1022"
    and S: "S = (if i < 768 then {active s} else set (all_spaces s))"
    and new: "\<not> present (pd_of s (active s) i)" and pde: "present pde" "entry_frame pde = f"
    and add: "table_added s f i pde S t"
  shows "vmm_inv t" "has_table t (active s) i" "table_of t (active s) i = f"
    "\<And>a k l. a \<in> set (all_spaces s) \<Longrightarrow> k < 1022 \<Longrightarrow> lookup t a k l = lookup s a k l"
    "\<And>a k. has_table t a k \<Longrightarrow> has_table s a k \<and> table_of t a k = table_of s a k \<or> table_of t a k = f"
proof -
  note D = vmm_invD [OF inv]
  have sub: "S \<subseteq> set (all_spaces s)" using S D(3) by (auto split: if_splits)
  note pd = table_added_pd [OF inv f sub add]
  have ad: "pmm_inv t" "frame_count t = frame_count s" "free_set t = free_set s - {f}"
      "kernel_space t = kernel_space s" "all_spaces t = all_spaces s" "active t = active s"
    using add by (auto simp: table_added_def)
  have actS: "active s \<in> S" using S D(3) by auto
  have newS: "\<not> present (pd_of s a i)" if "a \<in> S" for a
    using that S new kernel_half_shared [OF inv D(3), of a i] i by (auto split: if_splits)
  have h: "has_table t a k \<longleftrightarrow> has_table s a k \<or> (a \<in> S \<and> k = i)" for a k
    using pd [of a] newS [of a] sub i pde by (auto simp: has_table_def ad split: if_splits)
  have old: "table_of t a k = table_of s a k" if "has_table s a k" for a k
    using that pd [of a] newS [of a] by (auto simp: has_table_def table_of_def)
  have neu: "table_of t a i = f" if "a \<in> S" for a
    using pd [of a] that sub pde by (auto simp: table_of_def)
  have oldf: "table_of s a k \<noteq> f" if "has_table s a k" for a k
    using D(6) [OF that] f by (auto simp: table_ok_def)
  have fpd: "f \<notin> pd_frame ` set (all_spaces s)" using space_frame_used [OF inv] f by auto
  have f0: "0 < f" "f < frame_count s"
    using f D(1) free_set_bound by (cases f, auto simp: pmm_inv_def)
  have "space_ok t a" if "a \<in> set (all_spaces s)" for a
  proof -
    have k: "pd_of t a j = pd_of t (kernel_space s) j" if "768 \<le> j" "j < 1022" for j
      using kernel_half_shared [OF inv \<open>a \<in> set (all_spaces s)\<close> D(2) that] pd [of a] pd [OF D(2)]
        \<open>a \<in> set (all_spaces s)\<close> D(2) S i that by auto
    show ?thesis
      using D(5) [OF that] pd [OF that] i f k unfolding space_ok_def ad by auto
  qed
  moreover have "table_ok t a k" if "has_table t a k" for a k
    using that D(6) [of a k] old neu oldf fpd f0 unfolding table_ok_def ad h by auto
  moreover have "j = k \<and> (j < 768 \<longrightarrow> a = b)"
    if ht: "has_table t a j" "has_table t b k" "table_of t a j = table_of t b k" for a j b k
  proof -
    consider "has_table s a j" "has_table s b k" | "a \<in> S" "j = i" "b \<in> S" "k = i"
      | "has_table s a j" "b \<in> S" "k = i" | "a \<in> S" "j = i" "has_table s b k"
      using ht(1,2) unfolding h by blast
    then show ?thesis
    proof cases
      case 1
      then show ?thesis using D(7,8) [OF 1] ht(3) old by simp
    next
      case 2
      then show ?thesis using S by (auto split: if_splits)
    next
      case 3
      then show ?thesis using ht(3) old neu oldf by metis
    next
      case 4
      then show ?thesis using ht(3) old neu oldf by metis
    qed
  qed
  ultimately show "vmm_inv t"
    using D(2,3,4) ad(1) unfolding vmm_inv_def ad(4,5,6) by blast
  show "has_table t (active s) i" "table_of t (active s) i = f"
    using h actS neu by auto
  show "has_table s a k \<and> table_of t a k = table_of s a k \<or> table_of t a k = f" if "has_table t a k" for a k
    using that old neu unfolding h by blast
  show "lookup t a k l = lookup s a k l" if a: "a \<in> set (all_spaces s)" and k: "k < 1022" for a k l
  proof (cases "has_table s a k")
    case True
    have ne: "table_of s a k \<noteq> f" "table_of s a k \<notin> pd_frame ` S"
      using oldf [OF True] D(6) [OF True] sub by (auto simp: table_ok_def)
    have "pages t (table_of s a k) = pages s (table_of s a k)"
      using add ne by (simp add: table_added_def)
    moreover have "present (pd_of t a k)" using True h by (auto simp: has_table_def)
    ultimately show ?thesis using True old [OF True] by (simp add: lookup_def has_table_def)
  next
    case False
    then have "\<not> present (pd_of s a k)" using a k by (simp add: has_table_def)
    moreover have "lookup t a k l = None"
    proof (cases "a \<in> S \<and> k = i")
      case True
      then have "pages t (table_of t a k) = (\<lambda>_. 0)" using neu add by (simp add: table_added_def)
      then show ?thesis by (simp add: lookup_def present_def)
    next
      case noti: False
      then have "\<not> has_table t a k" using False h by blast
      then show ?thesis using a k by (simp add: lookup_def has_table_def ad)
    qed
    ultimately show ?thesis by (simp add: lookup_def)
  qed
qed

subsection \<open>Mapping a page\<close>

lemma pmm_alloc_frame_vmm:
  fixes s :: "'a vmm_scheme"
  assumes "pmm_alloc_frame s = (p, t)"
  shows "pages t = pages s" "kernel_space t = kernel_space s" "all_spaces t = all_spaces s"
    "active t = active s" "vmm.more t = vmm.more s"
  using assms by (auto simp: pmm_alloc_frame_def Let_def mark_used_def split: if_splits)

lemma pmm_alloc_frame_cases:
  assumes inv: "pmm_inv s"
  obtains (none) t where "pmm_alloc_frame s = (0, t)" "free_set s = {}" "pmm_inv t" "free_set t = {}"
      "frame_count t = frame_count s"
  | (some) f t where "pmm_alloc_frame s = (4096 * f, t)" "f \<in> free_set s" "0 < f" "f < 2 ^ 20" "pmm_inv t"
      "free_set t = free_set s - {f}" "frame_count t = frame_count s"
proof (cases "free_set s = {}")
  case True
  then show thesis using frames.alloc_none [OF inv] none by blast
next
  case False
  from frames.alloc_some [OF inv False] obtain f t where f: "pmm_alloc_frame s = (4096 * f, t)"
      "f \<in> free_set s" "0 < f" "f < frame_count s" "pmm_inv t" "free_set t = free_set s - {f}"
      "frame_count t = frame_count s" by blast
  then show thesis using some pmm_inv_frames [OF inv] by blast
qed

lemma recursive_ok_cong:
  assumes "recursive_ok s" and "active t = active s" and "kernel_space t = kernel_space s"
    and "pd_of t (active s) 1023 = pd_of s (active s) 1023" and "pd_of t (active s) 1022 = pd_of s (active s) 1022"
  shows "recursive_ok t"
  using assms by (simp add: recursive_ok_def)

text \<open>The entry of a new table.\<close>

lemma new_pde:
  assumes "f < 2 ^ 20"
  shows "present (of_nat (4096 * f) OR 1 OR 2 OR flag_if u 4)"
    "entry_frame (of_nat (4096 * f) OR 1 OR 2 OR flag_if u 4) = f"
proof -
  show "present (of_nat (4096 * f) OR 1 OR 2 OR flag_if u 4)"
    by (simp add: present_def bit_or_iff)
  have "unat (1 OR 2 OR flag_if u 4) < 4096" by (simp add: flag_if_def)
  then show "entry_frame (of_nat (4096 * f) OR 1 OR 2 OR flag_if u 4) = f"
    using entry_frame_or [OF assms] by simp
qed

lemma aligned_4096:
  assumes "f < 2 ^ 20"
  shows "of_nat (4096 * f) AND (0xFFF :: u32) = 0"
proof -
  have "unat (of_nat (4096 * f) AND (0xFFF :: u32)) = 0"
    using unat_and_pow2_minus_1 [of "of_nat (4096 * f) :: u32" 12] unat_of_nat32 [of "4096 * f"] assms by simp
  then show ?thesis by (simp only: unat_eq_zero)
qed

lemma map_kernel_table:
  assumes rec: "recursive_ok s" and i: "i < 1022" and f: "f < 2 ^ 20"
    and new: "\<not> present (pd_of s (kernel_space s) i)"
  shows "vmm_map_page s (kernel_page_tables i) (of_nat (4096 * f)) VMM_WRITABLE
     = rret (0, upd_page s (pd_frame (kernel_space s)) i (of_nat (4096 * f) OR 1 OR 2))"
proof -
  have i': "i < 1024" using i by simp
  note idx = kernel_page_tables_index [OF i']
  have r: "pd_of s (active s) 1022 = self_entry (pd_frame (kernel_space s))"
     "pd_frame (kernel_space s) < 2 ^ 20" using rec by (auto simp: recursive_ok_def)
  have "(kernel_page_tables i OR of_nat (4096 * f)) AND 0xFFF = 0"
    using idx(3) aligned_4096 [OF f] by (simp only: bit.conj_disj_distrib2 or.right_neutral)
  moreover have "VMM_WRITABLE AND VMM_USER = 0" by (simp add: VMM_WRITABLE_def VMM_USER_def)
  ultimately have "vmm_map_page s (kernel_page_tables i) (of_nat (4096 * f)) VMM_WRITABLE
      = set_pte s (kernel_page_tables i) (of_nat (4096 * f)) VMM_WRITABLE"
    using idx rec r by (subst vmm_map_page.simps) (simp add: Let_def)
  also have "\<dots> = rret (0, upd_page s (pd_frame (kernel_space s)) i (mk_pte (of_nat (4096 * f)) VMM_WRITABLE))"
    using rec r idx new by (simp add: set_pte_eq Let_def pd_of_def)
  also have "mk_pte (of_nat (4096 * f)) VMM_WRITABLE = of_nat (4096 * f) OR 1 OR 2"
    by (simp add: mk_pte_def flag_if_def VMM_WRITABLE_def VMM_USER_def VMM_UNCACHED_def)
  finally show ?thesis .
qed

lemma set_all_pds_pages:
  "pages (set_all_pds i pde s) g =
     (if g \<in> pd_frame ` set (all_spaces s) then (pages s g)(i := pde) else pages s g)"
proof -
  have "pages (fold (\<lambda>as t. t\<lparr>pages := (pages t)(pd_frame as := (pages t (pd_frame as))(i := pde))\<rparr>) xs s) g =
     (if g \<in> pd_frame ` set xs then (pages s g)(i := pde) else pages s g)" for xs
    by (induction xs arbitrary: s) auto
  then show ?thesis by (simp add: set_all_pds_def)
qed

lemma set_all_pds_fields [simp]:
  "kernel_space (set_all_pds i pde s) = kernel_space s" "all_spaces (set_all_pds i pde s) = all_spaces s"
  "active (set_all_pds i pde s) = active s" "frame_count (set_all_pds i pde s) = frame_count s"
  "free_set (set_all_pds i pde s) = free_set s" "pmm_inv (set_all_pds i pde s) = pmm_inv s"
  "vmm.more (set_all_pds i pde s) = vmm.more s"
proof -
  define t where "t = set_all_pds i pde s"
  have "bitmap t = bitmap s \<and> frame_count t = frame_count s \<and> word_count t = word_count s \<and>
    search_hint t = search_hint s \<and> free_count t = free_count s \<and> kernel_space t = kernel_space s \<and>
    all_spaces t = all_spaces s \<and> active t = active s \<and> vmm.more t = vmm.more s"
  proof -
    have "bitmap (fold g xs s) = bitmap s \<and> frame_count (fold g xs s) = frame_count s
      \<and> word_count (fold g xs s) = word_count s \<and> search_hint (fold g xs s) = search_hint s
      \<and> free_count (fold g xs s) = free_count s \<and> kernel_space (fold g xs s) = kernel_space s
      \<and> all_spaces (fold g xs s) = all_spaces s \<and> active (fold g xs s) = active s
      \<and> vmm.more (fold g xs s) = vmm.more s"
      if "g = (\<lambda>as t. t\<lparr>pages := (pages t)(pd_frame as := (pages t (pd_frame as))(i := pde))\<rparr>)" for g xs
      unfolding that by (induction xs arbitrary: s) simp_all
    then show ?thesis by (simp add: t_def set_all_pds_def)
  qed
  then show "kernel_space (set_all_pds i pde s) = kernel_space s" "all_spaces (set_all_pds i pde s) = all_spaces s"
    "active (set_all_pds i pde s) = active s" "frame_count (set_all_pds i pde s) = frame_count s"
    "free_set (set_all_pds i pde s) = free_set s" "pmm_inv (set_all_pds i pde s) = pmm_inv s"
    "vmm.more (set_all_pds i pde s) = vmm.more s"
    unfolding t_def [symmetric] by (auto simp: free_set_def is_used_def pmm_inv_def pmm_shape_def)
qed

text \<open>What mapping leaves alone besides the tables and the free frames.\<close>

definition same_spaces :: "'a vmm_scheme \<Rightarrow> 'a vmm_scheme \<Rightarrow> bool" where
  "same_spaces s t \<longleftrightarrow> kernel_space t = kernel_space s \<and> all_spaces t = all_spaces s
     \<and> active t = active s \<and> frame_count t = frame_count s \<and> vmm.more t = vmm.more s"

text \<open>
  With the directory entry missing, mapping ends in writing the page-table entry into a
  state where the new table has been added.
\<close>

lemma map_adds_table:
  assumes inv: "vmm_inv s" and i: "pd_index_of virt < 1022"
    and al: "(virt OR phys) AND 0xFFF = 0" and user: "(flags AND VMM_USER \<noteq> 0) = (virt < 0xC0000000)"
    and new: "\<not> present (pd_of s (active s) (pd_index_of virt))"
    and alloc: "pmm_alloc_frame s = (4096 * f, s1)" and f: "f \<in> free_set s" "0 < f" "f < 2 ^ 20"
    and s1: "pmm_inv s1" "free_set s1 = free_set s - {f}" "frame_count s1 = frame_count s"
    and kernel: "768 \<le> pd_index_of virt \<longleftrightarrow> \<not> virt < 0xC0000000"
  defines "i \<equiv> pd_index_of virt"
    and "pde \<equiv> of_nat (4096 * f) OR 1 OR 2 OR flag_if (flags AND VMM_USER \<noteq> 0) 4"
  shows "\<exists>t. vmm_map_page s virt phys flags = set_pte t virt phys flags \<and> same_spaces s t
     \<and> table_added s f i pde (if i < 768 then {active s} else set (all_spaces s)) t"
proof -
  note D = vmm_invD [OF inv] and rec = vmm_inv_recursive [OF inv]
  note sv = pmm_alloc_frame_vmm [OF alloc]
  have i': "i < 1024" "i < 1022" "i \<noteq> 1023" using i by (auto simp: i_def)
  have pd1: "pd_of s1 = pd_of s" by (simp add: pd_of_def sv fun_eq_iff)
  have rec1: "recursive_ok s1" using recursive_ok_cong [OF rec, of s1] by (simp add: sv pd1)
  have fpd: "pd_frame a \<noteq> f" if "a \<in> set (all_spaces s)" for a
    using space_frame_used [OF inv that] f(1) by auto
  have start: "vmm_map_page s virt phys flags =
      (if i \<ge> 768
       then rbind (vmm_map_page s1 (kernel_page_tables i) (of_nat (4096 * f)) VMM_WRITABLE) (\<lambda>(rc, s2).
              if rc \<noteq> 0 then rbind (lift_pmm_free s2 (4096 * f)) (\<lambda>s3. rret (- 1, s3))
              else rbind (vzero s2 (kernel_page_tables i)) (\<lambda>s3.
                     set_pte (set_all_pds i pde s3) virt phys flags))
       else rbind (vwrite s1 (page_directory i) pde) (\<lambda>s2.
              rbind (vzero s2 (page_table i 0)) (\<lambda>s3. set_pte s3 virt phys flags)))"
    using al user new rec i' f(2) alloc
    by (subst vmm_map_page.simps) (simp add: Let_def i_def [symmetric] pde_def cong: if_cong)
  show ?thesis
  proof (cases "i < 768")
    case True
    define s2 where "s2 = upd_page s1 (pd_frame (active s)) i pde"
    define t where "t = s2\<lparr>pages := (pages s2)(f := (\<lambda>_. 0))\<rparr>"
    have rec2: "recursive_ok s2"
      using i' by (intro recursive_ok_cong [OF rec1]) (simp_all add: s2_def sv pd_of_def)
    have pres: "present pde" "entry_frame pde = f" using new_pde [OF f(3)] by (simp_all add: pde_def)
    have "pd_of s2 (active s2) i = pde" by (simp add: s2_def sv pd_of_def)
    then have "mmu s2 (page_table i 0) = Some f"
      using mmu_page_table [OF rec2 i'(1), of 0] pres by simp
    then have z: "vzero s2 (page_table i 0) = rret t" by (simp add: vzero_def t_def)
    have "vwrite s1 (page_directory i) pde = rret s2"
      using write_directory [OF rec1 i'(1)] by (simp add: s2_def sv)
    then have "vmm_map_page s virt phys flags = set_pte t virt phys flags"
      using start True z by simp
    moreover have "same_spaces s t" by (simp add: same_spaces_def t_def s2_def sv s1)
    moreover have "pmm_inv t" "free_set t = free_set s - {f}"
      using s1 by (simp_all add: t_def s2_def)
    then have "table_added s f i pde {active s} t"
      using s1(3) by (auto simp: table_added_def t_def s2_def sv fun_eq_iff)
    ultimately show ?thesis using True by auto
  next
    case False
    define K where "K = pd_frame (kernel_space s)"
    define s2 where "s2 = upd_page s1 K i (of_nat (4096 * f) OR 1 OR 2)"
    define s3 where "s3 = s2\<lparr>pages := (pages s2)(f := (\<lambda>_. 0))\<rparr>"
    define t where "t = set_all_pds i pde s3"
    have newK: "\<not> present (pd_of s1 (kernel_space s1) i)"
      using kernel_half_shared [OF inv D(2,3), of i] False i' new by (simp add: sv pd1 i_def)
    have m: "vmm_map_page s1 (kernel_page_tables i) (of_nat (4096 * f)) VMM_WRITABLE = rret (0, s2)"
      using map_kernel_table [OF rec1 i'(2) f(3) newK] by (simp add: s2_def K_def sv)
    have rec2: "recursive_ok s2"
      using i' by (intro recursive_ok_cong [OF rec1]) (simp_all add: s2_def sv pd_of_def)
    have ent: "pd_of s2 (kernel_space s2) i = of_nat (4096 * f) OR 1 OR 2"
      by (simp add: s2_def sv pd_of_def K_def)
    have "mmu s2 (kernel_page_tables i) = Some f"
      using mmu_kernel_page_tables [OF rec2 i'(1)] new_pde [OF f(3), of False] ent by (simp add: flag_if_def)
    then have z: "vzero s2 (kernel_page_tables i) = rret s3" by (simp add: vzero_def s3_def)
    have "vmm_map_page s virt phys flags = set_pte t virt phys flags"
      using start False m z by (simp add: t_def)
    moreover have "same_spaces s t" by (simp add: same_spaces_def t_def s3_def s2_def sv s1)
    moreover have "pmm_inv t" "free_set t = free_set s - {f}"
      using s1 by (simp_all add: t_def s3_def s2_def)
    moreover have "pages t g = (if g = f then (\<lambda>_. 0)
        else if g \<in> pd_frame ` set (all_spaces s) then (pages s g)(i := pde) else pages s g)" for g
      using fpd D(2) by (auto simp: t_def set_all_pds_pages s3_def s2_def sv K_def)
    ultimately have "table_added s f i pde (set (all_spaces s)) t"
      by (auto simp: table_added_def same_spaces_def)
    then show ?thesis
      using \<open>vmm_map_page s virt phys flags = set_pte t virt phys flags\<close> \<open>same_spaces s t\<close> False by auto
  qed
qed

lemma kernel_index: "768 \<le> pd_index_of virt \<longleftrightarrow> \<not> virt < 0xC0000000"
  by (auto simp: pd_index_of_div word_less_nat_alt less_eq_div_iff_mult_less_eq)

lemma set_pte_cases:
  assumes inv: "vmm_inv s" and t: "has_table s (active s) (pd_index_of virt)"
  shows "set_pte s virt phys flags =
      (if lookup s (active s) (pd_index_of virt) (pt_index_of virt) \<noteq> None then rret (- 1, s)
       else rret (0, upd_page s (table_of s (active s) (pd_index_of virt)) (pt_index_of virt) (mk_pte phys flags)))"
  using set_pte_eq [OF vmm_inv_recursive [OF inv], of virt phys flags] t
  by (simp add: has_table_def lookup_def table_of_def Let_def)

lemma vmm_map_page_cases:
  fixes s :: "'a vmm_scheme"
  assumes inv: "vmm_inv s" and idx: "pd_index_of virt < 1022"
    and al: "(virt OR phys) AND 0xFFF = 0" and user: "(flags AND VMM_USER \<noteq> 0) = (virt < 0xC0000000)"
  obtains (mapped) "lookup s (active s) (pd_index_of virt) (pt_index_of virt) \<noteq> None"
      "vmm_map_page s virt phys flags = rret (- 1, s)"
  | (no_memory) t where "lookup s (active s) (pd_index_of virt) (pt_index_of virt) = None"
      "vmm_map_page s virt phys flags = rret (- 1, t)" "free_set s = {}" "free_set t = {}"
      "vmm_inv t" "same_spaces s t" "pages t = pages s"
  | (ok) t where "lookup s (active s) (pd_index_of virt) (pt_index_of virt) = None"
      "vmm_map_page s virt phys flags = rret (0, t)" "vmm_inv t" "same_spaces s t"
      "free_set t \<subseteq> free_set s" "card (free_set s - free_set t) \<le> 1"
      "\<And>a k l. a \<in> set (all_spaces s) \<Longrightarrow> k < 1022 \<Longrightarrow> lookup t a k l =
         (if k = pd_index_of virt \<and> l = pt_index_of virt \<and> (active s = a \<or> 768 \<le> k)
          then Some (mk_pte phys flags) else lookup s a k l)"
      "\<And>a k. has_table t a k \<Longrightarrow> has_table s a k \<and> table_of t a k = table_of s a k \<or> table_of t a k \<in> free_set s"
proof -
  let ?i = "pd_index_of virt" and ?j = "pt_index_of virt"
  note D = vmm_invD [OF inv] and rec = vmm_inv_recursive [OF inv]
  show thesis
  proof (cases "present (pd_of s (active s) ?i)")
    case True
    then have t: "has_table s (active s) ?i" using D(3) idx by (simp add: has_table_def)
    have eq: "vmm_map_page s virt phys flags = set_pte s virt phys flags"
      using rec idx al user True by (subst vmm_map_page.simps) (simp add: Let_def)
    show thesis
    proof (cases "lookup s (active s) ?i ?j = None")
      case False
      then show thesis using mapped eq set_pte_cases [OF inv t] by simp
    next
      case none: True
      let ?t = "upd_page s (table_of s (active s) ?i) ?j (mk_pte phys flags)"
      show thesis
      proof (rule ok [OF none])
        show "vmm_map_page s virt phys flags = rret (0, ?t)" using eq set_pte_cases [OF inv t] none by simp
        show "vmm_inv ?t" by (rule upd_table_inv [OF inv t])
        show "same_spaces s ?t" by (simp add: same_spaces_def)
        show "free_set ?t \<subseteq> free_set s" "card (free_set s - free_set ?t) \<le> 1" by simp_all
        show "lookup ?t a k l = (if k = ?i \<and> l = ?j \<and> (active s = a \<or> 768 \<le> k)
          then Some (mk_pte phys flags) else lookup s a k l)"
          if "a \<in> set (all_spaces s)" "k < 1022" for a k l
          using upd_table_lookup [OF inv t that] by auto
        show "has_table s a k \<and> table_of ?t a k = table_of s a k \<or> table_of ?t a k \<in> free_set s"
          if "has_table ?t a k" for a k
          using that upd_table_keeps [OF inv t, of a] by (auto simp: has_table_def table_of_def)
      qed
    qed
  next
    case False
    have none: "lookup s (active s) ?i ?j = None" using False by (simp add: lookup_def)
    show thesis
    proof (rule pmm_alloc_frame_cases [OF D(1)])
      fix t
      assume al0: "pmm_alloc_frame s = (0, t)" "free_set s = {}" "pmm_inv t" "free_set t = {}"
        "frame_count t = frame_count s"
      note sv = pmm_alloc_frame_vmm [OF al0(1)]
      have "vmm_map_page s virt phys flags = rret (- 1, t)"
        using rec idx al user False al0(1) by (subst vmm_map_page.simps) (simp add: Let_def)
      moreover have "vmm_inv t"
        using al0 sv by (intro vmm_inv_cong [OF inv]) (simp_all add: pd_of_def)
      moreover have "same_spaces s t" using sv al0(5) by (simp add: same_spaces_def)
      ultimately show thesis
        using no_memory [OF none] al0(2,4) sv(1) by blast
    next
      fix f s1
      assume some: "pmm_alloc_frame s = (4096 * f, s1)" "f \<in> free_set s" "0 < f" "f < 2 ^ 20"
        "pmm_inv s1" "free_set s1 = free_set s - {f}" "frame_count s1 = frame_count s"
      define pde where "pde = of_nat (4096 * f) OR 1 OR 2 OR flag_if (flags AND VMM_USER \<noteq> 0) 4"
      let ?S = "if ?i < 768 then {active s} else set (all_spaces s)"
      obtain t0 where t0: "vmm_map_page s virt phys flags = set_pte t0 virt phys flags" "same_spaces s t0"
          "table_added s f ?i pde ?S t0"
        using map_adds_table [OF inv idx al user False some(1,2,3,4,5,6,7) kernel_index]
        unfolding pde_def by auto
      note pde = new_pde [OF some(4), of "flags AND VMM_USER \<noteq> 0", folded pde_def]
      note A = table_added_inv [OF inv some(2) idx refl False pde t0(3)]
      have act: "active t0 = active s" "all_spaces t0 = all_spaces s"
        using t0(2) by (simp_all add: same_spaces_def)
      have h: "has_table t0 (active t0) ?i" using A(2) act by simp
      have n0: "lookup t0 (active t0) ?i ?j = None" using A(4) [OF D(3) idx] none act by simp
      let ?t = "upd_page t0 (table_of t0 (active t0) ?i) ?j (mk_pte phys flags)"
      have free: "free_set t0 = free_set s - {f}" using t0(3) by (simp add: table_added_def)
      show thesis
      proof (rule ok [OF none])
        show "vmm_map_page s virt phys flags = rret (0, ?t)"
          using t0(1) set_pte_cases [OF A(1) h] n0 by simp
        show "vmm_inv ?t" by (rule upd_table_inv [OF A(1) h])
        show "same_spaces s ?t" using t0(2) by (simp add: same_spaces_def)
        show "free_set ?t \<subseteq> free_set s" using free by auto
        have "free_set s - free_set ?t = {f}" using free some(2) by auto
        then show "card (free_set s - free_set ?t) \<le> 1" by simp
        show "lookup ?t a k l = (if k = ?i \<and> l = ?j \<and> (active s = a \<or> 768 \<le> k)
          then Some (mk_pte phys flags) else lookup s a k l)"
          if "a \<in> set (all_spaces s)" "k < 1022" for a k l
          using upd_table_lookup [OF A(1) h, of a k] A(4) [OF that] that act by auto
        show "has_table s a k \<and> table_of ?t a k = table_of s a k \<or> table_of ?t a k \<in> free_set s"
          if "has_table ?t a k" for a k
        proof -
          have "pd_of ?t a = pd_of t0 a"
            using upd_table_keeps [OF A(1) h, of a] that by (simp add: has_table_def)
          then have "has_table t0 a k" "table_of ?t a k = table_of t0 a k"
            using that table_of_cong [of ?t a t0 k] by (auto simp: has_table_def)
          then show ?thesis using A(5) some(2) by auto
        qed
      qed
    qed
  qed
qed

subsection \<open>Lookup and removal\<close>

definition lookup_va :: "'a vmm_scheme \<Rightarrow> u32 \<Rightarrow> u32 option" where
  "lookup_va s virt = lookup s (active s) (pd_index_of virt) (pt_index_of virt)"

lemma page_table_nonzero:
  assumes "i < 1024" and "j < 1024"
  shows "page_table i j \<noteq> 0"
proof
  assume "page_table i j = 0"
  then have "pd_index_of (page_table i j) = 0" by (simp add: pd_index_of_div)
  then show False using page_table_index(1) [OF assms] by simp
qed

lemma pte_of_eq:
  assumes "vmm_inv s"
  shows "pte_of s virt = rret (if lookup_va s virt = None then 0
           else page_table (pd_index_of virt) (pt_index_of virt))"
  using vmm_inv_recursive [OF assms]
  by (simp add: pte_of_def lookup_va_def lookup_def table_of_def)

lemma lookup_va_read:
  assumes "vmm_inv s" and "lookup_va s virt = Some e"
  shows "vread s (page_table (pd_index_of virt) (pt_index_of virt)) = rret e"
    and "present (pd_of s (active s) (pd_index_of virt))"
  using assms vmm_inv_recursive [OF assms(1)]
  by (auto simp: lookup_va_def lookup_def table_of_def split: if_splits)

lemma vmm_translate_eq:
  assumes "vmm_inv s"
  shows "vmm_translate s virt = rret (map_option (\<lambda>e. (e AND 0xFFFFF000) OR (virt AND 0xFFF)) (lookup_va s virt))"
  using lookup_va_read(1) [OF assms, of virt] page_table_nonzero [of "pd_index_of virt" "pt_index_of virt"]
  by (cases "lookup_va s virt") (simp_all add: vmm_translate_def pte_of_eq [OF assms])

lemma vmm_unmap_page_eq:
  assumes "vmm_inv s" and "pd_index_of virt < 1022"
  shows "vmm_unmap_page s virt = (case lookup_va s virt of
     None \<Rightarrow> rret (None, s)
   | Some e \<Rightarrow> rret (Some (e AND 0xFFFFF000),
       upd_page s (table_of s (active s) (pd_index_of virt)) (pt_index_of virt) 0))"
  using lookup_va_read [OF assms(1), of virt] page_table_nonzero [of "pd_index_of virt" "pt_index_of virt"]
    assms(2) vmm_inv_recursive [OF assms(1)]
  by (cases "lookup_va s virt") (simp_all add: vmm_unmap_page_def pte_of_eq [OF assms(1)] table_of_def)

lemma vmm_set_writable_eq:
  assumes "vmm_inv s" and "pd_index_of virt < 1022"
  shows "vmm_set_writable s virt w = (case lookup_va s virt of
     None \<Rightarrow> rret (- 1, s)
   | Some e \<Rightarrow> rret (0, upd_page s (table_of s (active s) (pd_index_of virt)) (pt_index_of virt)
       (if w then e OR 2 else e AND NOT 2)))"
  using lookup_va_read [OF assms(1), of virt] page_table_nonzero [of "pd_index_of virt" "pt_index_of virt"]
    assms(2) vmm_inv_recursive [OF assms(1)]
  by (cases "lookup_va s virt") (simp_all add: vmm_set_writable_def pte_of_eq [OF assms(1)] table_of_def)

lemma lookup_va_table:
  assumes "vmm_inv s" and "pd_index_of virt < 1022" and "lookup_va s virt \<noteq> None"
  shows "has_table s (active s) (pd_index_of virt)"
  using assms vmm_invD(3) by (auto simp: lookup_va_def lookup_def has_table_def split: if_splits)

lemma upd_lookup_va:
  assumes "vmm_inv s" and "pd_index_of virt < 1022" and "lookup_va s virt \<noteq> None"
    and "t = upd_page s (table_of s (active s) (pd_index_of virt)) (pt_index_of virt) v"
  shows "vmm_inv t" "same_spaces s t" "free_set t = free_set s"
    "\<And>a k l. a \<in> set (all_spaces s) \<Longrightarrow> k < 1022 \<Longrightarrow> lookup t a k l =
       (if k = pd_index_of virt \<and> l = pt_index_of virt \<and> (active s = a \<or> 768 \<le> k)
        then if present v then Some v else None else lookup s a k l)"
  using upd_table_inv [OF assms(1) lookup_va_table [OF assms(1,2,3)]]
    upd_table_lookup [OF assms(1) lookup_va_table [OF assms(1,2,3)]] assms(4)
  by (auto simp: same_spaces_def)

lemma mk_pte_frame:
  assumes "phys AND 0xFFF = 0"
  shows "mk_pte phys flags AND 0xFFFFF000 = phys" "entry_frame (mk_pte phys flags) = unat phys div 4096"
proof -
  define w where "w = (1 :: u32) OR flag_if (flags AND VMM_WRITABLE \<noteq> 0) 2
     OR flag_if (flags AND VMM_USER \<noteq> 0) 4 OR flag_if (flags AND VMM_UNCACHED \<noteq> 0) 0x18"
  have w: "w AND 0xFFFFF000 = 0" "drop_bit 12 w = 0"
    by (simp_all add: w_def flag_if_def)
  have pte: "mk_pte phys flags = phys OR w" by (simp add: mk_pte_def w_def)
  have "(0xFFFFF000 OR 0xFFF :: u32) = - 1" by simp
  then have "phys = phys AND (0xFFFFF000 OR 0xFFF)" by (simp only: and.right_neutral)
  also have "\<dots> = (phys AND 0xFFFFF000) OR (phys AND 0xFFF)" by (simp only: bit.conj_disj_distrib)
  finally have "phys AND 0xFFFFF000 = phys" using assms by simp
  then show "mk_pte phys flags AND 0xFFFFF000 = phys"
    unfolding pte bit.conj_disj_distrib2 w by simp
  show "entry_frame (mk_pte phys flags) = unat phys div 4096"
    unfolding pte entry_frame_def drop_bit_or w using unat_drop_bit_div [of 12 phys] by simp
qed

section \<open>Checking user memory\<close>

definition user_page_ok :: "'a vmm_scheme \<Rightarrow> u32 \<Rightarrow> u32 \<Rightarrow> bool" where
  "user_page_ok s need virt \<longleftrightarrow> pd_of s (active s) (pd_index_of virt) AND 5 = 5
     \<and> pages s (table_of s (active s) (pd_index_of virt)) (pt_index_of virt) AND need = need"

declare user_pages_ok.simps [simp del]

lemma and_bit: "w AND n = n \<Longrightarrow> bit n i \<Longrightarrow> bit (w :: u32) i"
  by (metis bit_and_iff)

lemma user_pages_ok_eq:
  "recursive_ok s \<Longrightarrow> user_pages_ok s need page stop =
    rret (\<forall>k. page + 4096 * k < stop \<longrightarrow> user_page_ok s need (of_nat (page + 4096 * k)))"
proof (induction s need page stop rule: user_pages_ok.induct)
  case (1 s need page stop)
  note rec = "1.prems"
  let ?v = "of_nat page :: u32"
  have split: "(\<forall>k. page + 4096 * k < stop \<longrightarrow> user_page_ok s need (of_nat (page + 4096 * k))) \<longleftrightarrow>
      user_page_ok s need ?v \<and>
      (\<forall>k. page + 4096 + 4096 * k < stop \<longrightarrow> user_page_ok s need (of_nat (page + 4096 + 4096 * k)))"
    if lt: "page < stop"
  proof -
    have "(\<forall>k. P k) \<longleftrightarrow> P 0 \<and> (\<forall>k. P (Suc k))" for P :: "nat \<Rightarrow> bool" by (metis not0_implies_Suc)
    from this [of "\<lambda>k. page + 4096 * k < stop \<longrightarrow> user_page_ok s need (of_nat (page + 4096 * k))"]
    show ?thesis using lt by (simp add: add.assoc)
  qed
  show ?case
  proof (cases "page < stop")
    case False
    then show ?thesis by (simp add: user_pages_ok.simps)
  next
    case lt: True
    note unf = user_pages_ok.simps [of s need page stop]
    show ?thesis
    proof (cases "user_page_ok s need ?v")
      case True
      then have p: "present (pd_of s (active s) (pd_index_of ?v))"
        using and_bit [of "pd_of s (active s) (pd_index_of ?v)" 5 0]
        by (simp add: user_page_ok_def present_def)
      have "user_pages_ok s need page stop = user_pages_ok s need (page + 4096) stop"
        using lt True rec p by (simp add: unf user_page_ok_def table_of_def)
      also have "\<dots> = rret (\<forall>k. page + 4096 + 4096 * k < stop \<longrightarrow>
          user_page_ok s need (of_nat (page + 4096 + 4096 * k)))"
        using True rec p lt by (intro "1.IH" [OF lt refl refl]) (auto simp: user_page_ok_def table_of_def)
      finally show ?thesis using split [OF lt] True by simp
    next
      case False
      have "user_pages_ok s need page stop = rret False"
      proof (cases "pd_of s (active s) (pd_index_of ?v) AND 5 = 5")
        case five: True
        then have "present (pd_of s (active s) (pd_index_of ?v))"
          using and_bit [of "pd_of s (active s) (pd_index_of ?v)" 5 0] by (simp add: present_def)
        then show ?thesis using lt False five rec by (simp add: unf user_page_ok_def table_of_def)
      next
        case five: False
        then show ?thesis using lt rec by (simp add: unf)
      qed
      then show ?thesis using split [OF lt] False by simp
    qed
  qed
qed

text \<open>The check of a range, as a statement about every byte of it.\<close>

lemma vmm_user_range_ok_bytes:
  assumes inv: "vmm_inv s" and ok: "vmm_user_range_ok s addr len write = rret True"
    and b: "addr \<le> b" "b < addr + len"
  shows "b < 0xC0000000 \<and> (\<exists>e. lookup_va s (of_nat b) = Some e \<and> bit e 2 \<and> (write \<longrightarrow> bit e 1))"
proof -
  have len: "len \<noteq> 0" using b by simp
  then have hi: "addr < 0xC0000000" "addr + len \<le> 0xC0000000"
    using ok by (auto simp: vmm_user_range_ok_def split: if_splits)
  let ?need = "1 OR 4 OR flag_if write 2 :: u32"
  have pages: "user_page_ok s ?need (of_nat (page_floor addr + 4096 * k))"
    if "page_floor addr + 4096 * k < addr + len" for k
    using ok len hi that user_pages_ok_eq [OF vmm_inv_recursive [OF inv]]
    by (simp add: vmm_user_range_ok_def split: if_splits)
  define k where "k = b div 4096 - addr div 4096"
  have "addr div 4096 \<le> b div 4096" using b(1) by (rule div_le_mono)
  then have "page_floor addr + 4096 * k = page_floor b" by (simp add: page_floor_def k_def)
  moreover from this have "page_floor addr + 4096 * k < addr + len"
    using b(2) page_floor_bounds(1) [of b] by simp
  ultimately have ok: "user_page_ok s ?need (of_nat (page_floor b))" using pages by metis
  have lt: "b < 2 ^ 32" using b hi by simp
  have fl: "page_floor b < 2 ^ 32" using page_floor_bounds(1) [of b] lt by simp
  have idx: "pd_index_of (of_nat (page_floor b)) = pd_index_of (of_nat b)"
      "pt_index_of (of_nat (page_floor b)) = pt_index_of (of_nat b)"
    unfolding pd_index_of_div pt_index_of_div unat_of_nat32 [OF lt] unat_of_nat32 [OF fl]
    by (simp_all add: page_floor_def div_mult2_eq [of _ 4096 1024, simplified])
  have pde: "present (pd_of s (active s) (pd_index_of (of_nat b)))"
    using ok and_bit [of "pd_of s (active s) (pd_index_of (of_nat b))" 5 0]
    unfolding user_page_ok_def idx present_def by simp
  let ?e = "pages s (table_of s (active s) (pd_index_of (of_nat b))) (pt_index_of (of_nat b))"
  have need: "?e AND ?need = ?need" using ok unfolding user_page_ok_def idx by simp
  have e: "bit ?e 0" "bit ?e 2" "write \<longrightarrow> bit ?e 1"
    using and_bit [OF need, of 0] and_bit [OF need, of 2] and_bit [OF need, of 1]
    by (simp_all add: bit_or_iff flag_if_def)
  then show ?thesis
    using b hi pde by (simp add: lookup_va_def lookup_def present_def)
qed

section \<open>Properties\<close>

text \<open>A machine of eight frames: frame 1 is the kernel's directory, frames 2 to 7 are free.\<close>

definition vmm_small :: vmm where
  "vmm_small = \<lparr>bitmap_at = 0xC0100000, bitmap = [0xFFFFFF03], frame_count = 8, word_count = 1,
     search_hint = 0, free_count = 6, usable_count = 7,
     pages = (\<lambda>f i. if f = 1 \<and> (i = 1022 \<or> i = 1023) then self_entry 1 else 0),
     kernel_space = \<lparr>as_at = 0xC0200000, pd_phys = 4096, as_pd = 0xC0001000\<rparr>,
     all_spaces = [\<lparr>as_at = 0xC0200000, pd_phys = 4096, as_pd = 0xC0001000\<rparr>],
     active = \<lparr>as_at = 0xC0200000, pd_phys = 4096, as_pd = 0xC0001000\<rparr>\<rparr>"

lemma vmm_small_inv: "vmm_inv vmm_small"
proof -
  have p: "pmm_inv vmm_small"
    by (simp add: pmm_inv_exec vmm_small_def is_used_def count_free_def upt_rec)
  have "\<not> has_table vmm_small a i" for a i
    by (auto simp: has_table_def vmm_small_def pd_of_def pd_frame_def present_def)
  moreover have "1 \<notin> free_set vmm_small" by (simp add: free_set_def vmm_small_def is_used_def)
  then have "space_ok vmm_small \<lparr>as_at = 0xC0200000, pd_phys = 4096, as_pd = 0xC0001000\<rparr>"
    by (simp add: space_ok_def vmm_small_def pd_of_def pd_frame_def)
  ultimately show ?thesis using p by (simp add: vmm_inv_def) (simp add: vmm_small_def)
qed



text \<open>
  C25. After a page was mapped, translating any address of it gives the physical address
  with the same offset, and unmapping it gives the frame back and leaves every address
  space as it was before the mapping.
\<close>

theorem vmm_map_unmap_roundtrip:
  assumes "vmm_inv s" and "pd_index_of virt < 1022" and "virt AND 0xFFF = 0" and "phys AND 0xFFF = 0"
    and "(flags AND VMM_USER \<noteq> 0) = (virt < 0xC0000000)"
    and "vmm_map_page s virt phys flags = rret (0, t)" and "drop_bit 12 v = drop_bit 12 virt"
  shows "vmm_translate t v = rret (Some (phys OR (v AND 0xFFF)))
     \<and> (\<exists>u. vmm_unmap_page t virt = rret (Some phys, u) \<and> vmm_inv u \<and> free_set u = free_set t
          \<and> (\<forall>a \<in> set (all_spaces s). \<forall>k < 1022. \<forall>l. lookup u a k l = lookup s a k l))"
proof -
  have al: "(virt OR phys) AND 0xFFF = 0" using assms(3,4) by (simp add: bit.conj_disj_distrib2)
  show ?thesis
  proof (rule vmm_map_page_cases [OF assms(1,2) al assms(5)], goal_cases)
    case 1
    then show ?case using assms(6) by simp
  next
    case (2 t')
    then show ?case using assms(6) by simp
  next
    case (3 t')
    have t: "t' = t" using 3(2) assms(6) by simp
    note M = 3(3,4,7) [unfolded t]
    have act: "active t = active s" "all_spaces t = all_spaces s" using M(2) by (auto simp: same_spaces_def)
    have look: "lookup_va t virt = Some (mk_pte phys flags)"
      using M(3) [of "active s" "pd_index_of virt"] vmm_invD(3) [OF assms(1)] assms(2)
      by (simp add: lookup_va_def act)
    have "drop_bit 22 v = drop_bit 10 (drop_bit 12 v)" "drop_bit 22 virt = drop_bit 10 (drop_bit 12 virt)"
      by (simp_all add: drop_bit_drop_bit)
    then have "lookup_va t v = lookup_va t virt"
      using assms(7) by (simp only: lookup_va_def pd_index_of_def pt_index_of_def)
    then have "vmm_translate t v = rret (Some (phys OR (v AND 0xFFF)))"
      using vmm_translate_eq [OF M(1), of v] look mk_pte_frame(1) [OF assms(4)] by simp
    moreover define u where "u = upd_page t (table_of t (active t) (pd_index_of virt)) (pt_index_of virt) 0"
    have "vmm_unmap_page t virt = rret (Some phys, u)"
      using vmm_unmap_page_eq [OF M(1) assms(2)] look mk_pte_frame(1) [OF assms(4)] by (simp add: u_def)
    moreover note U = upd_lookup_va [OF M(1) assms(2) _ u_def]
    have "lookup u a k l = lookup s a k l" if "a \<in> set (all_spaces s)" "k < 1022" for a k l
      using U(4) [of a k l] M(3) [OF that, of l] 3(1) look that kernel_half_shared [OF assms(1) that(1) vmm_invD(3) [OF assms(1)], of k]
      by (auto simp: act present_def lookup_def table_of_def split: if_splits)
    ultimately show ?case using U(1,3) look by blast
  qed
qed

theorem vmm_map_unmap_roundtrip_witness:
  "\<exists>t. vmm_map_page vmm_small 0xD0000000 0x5000 VMM_WRITABLE = rret (0, t)
     \<and> vmm_translate t 0xD0000123 = rret (Some 0x5123)"
proof -
  have i: "pd_index_of 0xD0000000 < 1022" by (simp add: pd_index_of_def)
  have u: "(VMM_WRITABLE AND VMM_USER \<noteq> 0) = ((0xD0000000 :: u32) < 0xC0000000)"
    by (simp add: VMM_WRITABLE_def VMM_USER_def)
  have "lookup_va vmm_small 0xD0000000 = None"
    by (simp add: lookup_va_def lookup_def pd_of_def vmm_small_def present_def pd_index_of_def)
  moreover have "5 \<in> free_set vmm_small" by (simp add: free_set_def vmm_small_def is_used_def)
  ultimately obtain t where t: "vmm_map_page vmm_small 0xD0000000 0x5000 VMM_WRITABLE = rret (0, t)"
    by (rule_tac vmm_map_page_cases [OF vmm_small_inv i _ u, of "0x5000"]) (auto simp: lookup_va_def)
  have "vmm_translate t 0xD0000123 = rret (Some (0x5000 OR (0xD0000123 AND 0xFFF)))"
    using vmm_map_unmap_roundtrip [OF vmm_small_inv i _ _ u t, of "0xD0000123"] by simp
  with t show ?thesis by auto
qed



text \<open>The same machine with one user page, mapped at 0x1000 through table frame 2.\<close>

definition vmm_user :: vmm where
  "vmm_user = vmm_small\<lparr>bitmap := [0xFFFFFF0F], free_count := 4,
     pages := (\<lambda>f i. if f = 1 \<and> (i = 1022 \<or> i = 1023) then self_entry 1
                     else if f = 1 \<and> i = 0 then 0x2007 else if f = 2 \<and> i = 1 then 0x3007 else 0)\<rparr>"

lemma vmm_user_inv: "vmm_inv vmm_user"
proof -
  let ?a = "\<lparr>as_at = 0xC0200000, pd_phys = 4096, as_pd = 0xC0001000\<rparr> :: address_space"
  have p: "pmm_inv vmm_user"
    by (simp add: pmm_inv_exec vmm_user_def vmm_small_def is_used_def count_free_def upt_rec)
  have free: "1 \<notin> free_set vmm_user" "2 \<notin> free_set vmm_user"
    by (simp_all add: free_set_def vmm_user_def vmm_small_def is_used_def)
  have t: "has_table vmm_user a i \<longleftrightarrow> a = ?a \<and> i = 0" for a i
    by (auto simp: has_table_def vmm_user_def vmm_small_def pd_of_def pd_frame_def present_def)
  have "table_ok vmm_user ?a 0"
    using free by (simp add: table_ok_def table_of_def pd_of_def pd_frame_def entry_frame_def
      vmm_user_def vmm_small_def)
  moreover have "space_ok vmm_user ?a"
    using free(1) by (simp add: space_ok_def vmm_user_def vmm_small_def pd_of_def pd_frame_def)
  ultimately show ?thesis using p t by (simp add: vmm_inv_def) (simp add: vmm_user_def vmm_small_def)
qed


end
