(* ===== verification/Kernel_Pages.thy ===== *)
theory Kernel_Pages
  imports Vmm
begin

text \<open>
  Pages of the kernel's dynamic regions (heap, thread stacks, single pages), backed by frames
  on demand. \<open>heap.c\<close>, \<open>kstack.c\<close> and \<open>kpage.c\<close> all allocate a frame, map it and give the
  frame back if the mapping fails; that step is \<open>back_page\<close> here. The contract of backing
  and unbacking a page is the locale \<open>page_backing\<close>, which the clients use.
\<close>

section \<open>Model\<close>

definition back_page :: "'a vmm_scheme \<Rightarrow> nat \<Rightarrow> (bool \<times> 'a vmm_scheme) run" where
  "back_page s va =
     (case pmm_alloc_frame s of (frame, s1) \<Rightarrow>
        if frame = 0 then rret (False, s1)
        else rbind (vmm_map_page s1 (of_nat va) (of_nat frame) VMM_WRITABLE) (\<lambda>(rc, s2).
               if rc = 0 then rret (True, s2)
               else rbind (lift_pmm_free s2 frame) (\<lambda>s3. rret (False, s3))))"

text \<open>Unmapping a page and freeing its frame; nothing if it was not mapped.\<close>

definition unback_page :: "'a vmm_scheme \<Rightarrow> nat \<Rightarrow> (bool \<times> 'a vmm_scheme) run" where
  "unback_page s va =
     rbind (vmm_unmap_page s (of_nat va)) (\<lambda>(phys, s1).
       case phys of None \<Rightarrow> rret (False, s1)
       | Some f \<Rightarrow> rbind (lift_pmm_free s1 (unat f)) (\<lambda>s2. rret (True, s2)))"

section \<open>The kernel's view\<close>

definition kview :: "'a vmm_scheme \<Rightarrow> nat \<Rightarrow> nat option" where
  "kview s p = map_option entry_frame (lookup s (kernel_space s) (p div 1024) (p mod 1024))"

text \<open>The page numbers of the dynamic regions; the last third holds single pages, which
  may be page directories.\<close>

definition dynamic :: "nat set" where
  "dynamic = {0xD0000 ..< 0xE3000}"

definition owned :: "'a vmm_scheme \<Rightarrow> bool" where
  "owned s \<longleftrightarrow>
     (\<forall>p \<in> dynamic. \<forall>f. kview s p = Some f \<longrightarrow> 0 < f \<and> f < frame_count s \<and> f \<notin> free_set s
        \<and> (\<forall>a i. has_table s a i \<longrightarrow> table_of s a i \<noteq> f)
        \<and> (p < 0xE2000 \<longrightarrow> f \<notin> pd_frame ` set (all_spaces s)))
     \<and> (\<forall>p \<in> dynamic. \<forall>q \<in> dynamic. \<forall>f. kview s p = Some f \<and> kview s q = Some f \<longrightarrow> p = q)"

definition kvm_inv :: "'a vmm_scheme \<Rightarrow> bool" where
  "kvm_inv s \<longleftrightarrow> vmm_inv s \<and> owned s"

lemma ownedD:
  assumes "kvm_inv s" and "p \<in> dynamic" and "kview s p = Some f"
  shows "0 < f" "f < frame_count s" "f \<notin> free_set s" "\<And>a i. has_table s a i \<Longrightarrow> table_of s a i \<noteq> f"
    "p < 0xE2000 \<Longrightarrow> f \<notin> pd_frame ` set (all_spaces s)"
    "\<And>q. q \<in> dynamic \<Longrightarrow> kview s q = Some f \<Longrightarrow> q = p"
  using assms unfolding kvm_inv_def owned_def by blast+

lemma lookup_kernel_shared:
  assumes "vmm_inv s" and "a \<in> set (all_spaces s)" and "768 \<le> i" and "i < 1022"
  shows "lookup s a i j = lookup s (kernel_space s) i j"
  using kernel_half_shared [OF assms(1,2) vmm_invD(2) [OF assms(1)] assms(3,4)]
  by (simp add: lookup_def table_of_def)

lemma page_index:
  assumes "p \<in> dynamic" and "virt = of_nat (4096 * p)"
  shows "pd_index_of virt = p div 1024" "pt_index_of virt = p mod 1024"
    "768 \<le> p div 1024" "p div 1024 < 1022" "virt AND 0xFFF = 0" "\<not> virt < 0xC0000000" "p < 2 ^ 20"
proof -
  show p: "p < 2 ^ 20" using assms(1) by (simp add: dynamic_def)
  then have u: "unat virt = 4096 * p" using assms(2) unat_of_nat32 [of "4096 * p"] by simp
  show "pd_index_of virt = p div 1024" "pt_index_of virt = p mod 1024"
    unfolding pd_index_of_div pt_index_of_div u using div_mult2_eq [of "4096 * p" 4096 1024] by simp_all
  show "768 \<le> p div 1024" "p div 1024 < 1022" using assms(1) by (auto simp: dynamic_def)
  show "virt AND 0xFFF = 0" using aligned_4096 [OF p] assms(2) by simp
  show "\<not> virt < 0xC0000000" using assms(1) by (simp add: word_less_nat_alt u dynamic_def)
qed

lemma pmm_free_frame_vmm:
  fixes s :: "'a vmm_scheme"
  assumes "pmm_free_frame s phys = Done t"
  shows "pages t = pages s" "kernel_space t = kernel_space s" "all_spaces t = all_spaces s"
    "active t = active s" "vmm.more t = vmm.more s"
  using assms by (auto simp: pmm_free_frame_def Let_def mark_free_def split: if_splits)

text \<open>Everything the views read is in the tables.\<close>

lemma view_cong:
  assumes "pages t = pages s" and "kernel_space t = kernel_space s" and "all_spaces t = all_spaces s"
  shows "lookup t = lookup s" "kview t = kview s" "has_table t = has_table s" "table_of t = table_of s"
    "pd_of t = pd_of s"
proof -
  show pd: "pd_of t = pd_of s" by (simp add: pd_of_def assms fun_eq_iff)
  show tb: "table_of t = table_of s" by (simp add: table_of_def pd fun_eq_iff)
  show "has_table t = has_table s" by (simp add: has_table_def pd assms fun_eq_iff)
  show l: "lookup t = lookup s" by (simp add: lookup_def pd tb assms fun_eq_iff)
  show "kview t = kview s" by (simp add: kview_def l assms fun_eq_iff)
qed

text \<open>A frame that is neither a table nor a directory can be freed.\<close>

lemma vmm_inv_free:
  assumes inv: "vmm_inv s" and f: "0 < f" "f < frame_count s" "f \<notin> free_set s"
    and tab: "\<And>a i. has_table s a i \<Longrightarrow> table_of s a i \<noteq> f" and pd: "f \<notin> pd_frame ` set (all_spaces s)"
  obtains t where "lift_pmm_free s (4096 * f) = rret t" "vmm_inv t" "same_spaces s t" "pages t = pages s"
    "free_set t = insert f (free_set s)"
proof -
  note D = vmm_invD [OF inv]
  from frames.release_ok [OF D(1) f] obtain t where t: "pmm_free_frame s (4096 * f) = Done t" "pmm_inv t"
    "free_set t = insert f (free_set s)" "frame_count t = frame_count s" by auto
  note sv = pmm_free_frame_vmm [OF t(1)]
  note vw = view_cong [OF sv(1,2,3)]
  have "space_ok t a" if "a \<in> set (all_spaces s)" for a
    using D(5) [OF that] pd that by (auto simp: space_ok_def vw sv t)
  moreover have "table_ok t a i" if "has_table s a i" for a i
    using D(6) [OF that] tab [OF that] by (auto simp: table_ok_def vw sv t)
  ultimately have "vmm_inv t"
    using D(2,3,4,7,8) t(2) unfolding vmm_inv_def vw sv by blast
  then show thesis
    using that [of t] t sv by (simp add: lift_pmm_free_def rret_def same_spaces_def)
qed

section \<open>Backing a page\<close>

lemma vmm_inv_alloc:
  fixes s :: "'a vmm_scheme"
  assumes "vmm_inv s" and "pmm_alloc_frame s = (p, t)" and "pmm_inv t" and "free_set t \<subseteq> free_set s"
    and "frame_count t = frame_count s"
  shows "vmm_inv t" "same_spaces s t"
  using vmm_inv_cong [OF assms(1,3,5,4)] pmm_alloc_frame_vmm [OF assms(2)] assms(5)
  by (simp_all add: pd_of_def same_spaces_def)

lemma kview_map:
  assumes inv: "vmm_inv s" and p: "p \<in> dynamic" and same: "same_spaces s t"
    and look: "\<And>a k l. a \<in> set (all_spaces s) \<Longrightarrow> k < 1022 \<Longrightarrow> lookup t a k l =
       (if k = p div 1024 \<and> l = p mod 1024 \<and> (active s = a \<or> 768 \<le> k) then e else lookup s a k l)"
    and q: "q \<in> dynamic"
  shows "kview t q = (if q = p then map_option entry_frame e else kview s q)"
proof -
  have "q = p \<longleftrightarrow> q div 1024 = p div 1024 \<and> q mod 1024 = p mod 1024" by (metis div_mult_mod_eq)
  moreover have "768 \<le> q div 1024" "q div 1024 < 1022" using page_index(3,4) [OF q refl] by auto
  moreover have "kernel_space t = kernel_space s" using same by (simp add: same_spaces_def)
  ultimately show ?thesis
    using look [OF vmm_invD(2) [OF inv], of "q div 1024" "q mod 1024"] by (auto simp: kview_def)
qed

lemma back_page_ok:
  fixes s :: "'a vmm_scheme"
  assumes inv: "kvm_inv s" and p: "p \<in> dynamic" and new: "kview s p = None"
  shows "\<exists>b t. back_page s (4096 * p) = rret (b, t) \<and> kvm_inv t \<and> same_spaces s t \<and> free_set t \<subseteq> free_set s
     \<and> (if b then \<exists>f \<in> free_set s - free_set t. \<forall>q \<in> dynamic. kview t q = (if q = p then Some f else kview s q)
        else free_set t = free_set s \<and> (\<forall>q \<in> dynamic. kview t q = kview s q))"
proof -
  have vi: "vmm_inv s" using inv by (simp add: kvm_inv_def)
  note D = vmm_invD [OF vi]
  show ?thesis
  proof (rule pmm_alloc_frame_cases [OF D(1)])
    fix t
    assume a: "pmm_alloc_frame s = (0, t)" "free_set s = {}" "pmm_inv t" "free_set t = {}"
      "frame_count t = frame_count s"
    have "vmm_inv t" "same_spaces s t" using vmm_inv_alloc [OF vi a(1,3) _ a(5)] a by simp_all
    moreover have "owned t"
      using inv a view_cong [OF pmm_alloc_frame_vmm(1,2,3) [OF a(1)]] pmm_alloc_frame_vmm(3) [OF a(1)]
      by (simp add: kvm_inv_def owned_def)
    moreover have "kview t = kview s" using view_cong [OF pmm_alloc_frame_vmm(1,2,3) [OF a(1)]] by simp
    ultimately show ?thesis
      using a by (intro exI [of _ False] exI [of _ t]) (simp add: back_page_def kvm_inv_def)
  next
    fix f s1
    assume a: "pmm_alloc_frame s = (4096 * f, s1)" "f \<in> free_set s" "0 < f" "f < 2 ^ 20"
      "pmm_inv s1" "free_set s1 = free_set s - {f}" "frame_count s1 = frame_count s"
    note sv = pmm_alloc_frame_vmm [OF a(1)]
    note vw = view_cong [OF sv(1,2,3)]
    have v1: "vmm_inv s1" "same_spaces s s1" using vmm_inv_alloc [OF vi a(1,5) _ a(7)] a(6) by auto
    have fb: "f < frame_count s" using free_set_bound a(2) by auto
    let ?v = "of_nat (4096 * p) :: u32" and ?ph = "of_nat (4096 * f) :: u32"
    note ix = page_index [OF p refl]
    have al: "(?v OR ?ph) AND 0xFFF = 0"
      using ix(5) aligned_4096 [OF a(4)] by (simp only: bit.conj_disj_distrib2 or.right_neutral)
    have us: "(VMM_WRITABLE AND VMM_USER \<noteq> 0) = (?v < 0xC0000000)"
      using ix(6) by (simp add: VMM_WRITABLE_def VMM_USER_def)
    have i: "pd_index_of ?v < 1022" using ix(1,4) by simp
    have "active s1 \<in> set (all_spaces s1)" using vmm_invD(3) [OF v1(1)] .
    then have none: "lookup s1 (active s1) (pd_index_of ?v) (pt_index_of ?v) = None"
      using lookup_kernel_shared [OF v1(1), of "active s1"] ix new vw(1) sv(2) by (auto simp: kview_def)
    have pt: "f \<notin> pd_frame ` set (all_spaces s)" using space_frame_used [OF vi] a(2) by auto
    have tb: "table_of s b k \<noteq> f" if "has_table s b k" for b k
      using D(6) [OF that] a(2) by (auto simp: table_ok_def)
    have start: "back_page s (4096 * p) = rbind (vmm_map_page s1 ?v ?ph VMM_WRITABLE) (\<lambda>(rc, s2).
         if rc = 0 then rret (True, s2)
         else rbind (lift_pmm_free s2 (4096 * f)) (\<lambda>s3. rret (False, s3)))"
      using a(1,3) by (simp add: back_page_def)
    show ?thesis
    proof (rule vmm_map_page_cases [OF v1(1) i al us], goal_cases)
      case 1
      then show ?case using none by simp
    next
      case (2 s2)
      note m = 2
      have e: "free_set s = {f}" using m(3) a(2,6) by auto
      have vw2: "kview s2 = kview s" "has_table s2 = has_table s" "table_of s2 = table_of s"
        using view_cong [OF m(7)] m(6) v1(2) vw by (simp_all add: same_spaces_def)
      have f2: "f < frame_count s2" "f \<notin> free_set s2" "f \<notin> pd_frame ` set (all_spaces s2)"
        using fb m(4,6) v1(2) pt by (simp_all add: same_spaces_def)
      obtain t where t: "lift_pmm_free s2 (4096 * f) = rret t" "vmm_inv t" "same_spaces s2 t"
          "pages t = pages s2" "free_set t = insert f (free_set s2)"
        using vmm_inv_free [OF m(5) a(3) f2(1,2) _ f2(3)] tb vw2 by metis
      have same: "same_spaces s t" using v1(2) m(6) t(3) by (simp add: same_spaces_def)
      have vwt: "kview t = kview s" "has_table t = has_table s" "table_of t = table_of s"
        using view_cong [OF t(4)] t(3) vw2 by (simp_all add: same_spaces_def)
      have ft: "free_set t = free_set s" using t(5) m(4) e by simp
      have "owned t"
        using inv same ft by (simp add: kvm_inv_def owned_def vwt same_spaces_def)
      then show ?case
        using start m(2) t(1,2) same vwt ft
        by (intro exI [of _ False] exI [of _ t]) (simp add: kvm_inv_def)
    next
      case (3 t)
      note m = 3
      have same: "same_spaces s t" using v1(2) m(4) by (simp add: same_spaces_def)
      have kv: "kview t q = (if q = p then Some f else kview s q)" if "q \<in> dynamic" for q
        using kview_map [OF v1(1) p m(4) _ that, of "Some (mk_pte ?ph VMM_WRITABLE)"] m(7) ix(1,2) vw(2)
          mk_pte_frame(2) [OF aligned_4096 [OF a(4)]] unat_of_nat32 [of "4096 * f"] a(4) by simp
      have fr: "free_set t \<subseteq> free_set s - {f}" using m(5) a(6) by simp
      have tabs: "has_table s b k \<and> table_of t b k = table_of s b k \<or> table_of t b k \<in> free_set s - {f}"
        if "has_table t b k" for b k using m(8) [OF that] a(6) vw by simp
      have old: "g \<noteq> f \<and> g \<notin> free_set t" if "q \<in> dynamic" "kview s q = Some g" for q g
        using ownedD(3) [OF inv that] a(2) fr by auto
      have "owned t"
        unfolding owned_def
      proof (intro conjI ballI allI impI)
        fix q g
        assume q: "q \<in> dynamic" "kview t q = Some g"
        have c: "q = p \<and> g = f \<or> q \<noteq> p \<and> kview s q = Some g" using kv [OF q(1)] q(2) by (auto split: if_splits)
        have sp: "frame_count t = frame_count s" "all_spaces t = all_spaces s" using same by (auto simp: same_spaces_def)
        show "0 < g" using c a(3) ownedD(1) [OF inv q(1)] by auto
        show "g < frame_count t" using c fb ownedD(2) [OF inv q(1)] sp by auto
        show "g \<notin> free_set t" using c fr ownedD(3) [OF inv q(1)] by auto
        show "g \<notin> pd_frame ` set (all_spaces t)" if "q < 0xE2000"
          using c pt ownedD(5) [OF inv q(1) _ that] sp by auto
        show "table_of t b k \<noteq> g" if "has_table t b k" for b k
          using c tabs [OF that] tb [of b k] ownedD(3) [OF inv q(1)] ownedD(4) [OF inv q(1), of g b k] by auto
      next
        fix q r g
        assume q: "q \<in> dynamic" "r \<in> dynamic" "kview t q = Some g \<and> kview t r = Some g"
        have c: "x = p \<and> g = f \<or> x \<noteq> p \<and> kview s x = Some g \<and> g \<noteq> f" if "x = q \<or> x = r" for x
          using kv [of x] old [of x g] q that by (cases "x = p") auto
        show "q = r"
          using c [of q] c [of r] ownedD(6) [OF inv q(2), of g q] q(1) by blast
      qed
      moreover have "f \<in> free_set s - free_set t" using a(2) fr by auto
      moreover have "free_set t \<subseteq> free_set s" using fr by auto
      ultimately show ?case
        using start m(2,3) same kv
        by (intro exI [of _ True] exI [of _ t]) (auto simp: kvm_inv_def)
    qed
  qed
qed

section \<open>Unbacking a page\<close>

lemma entry_phys: "unat (e AND 0xFFFFF000) = 4096 * entry_frame e"
proof -
  have "(0xFFFFF000 :: u32) = NOT (mask 12)" by (simp add: mask_eq_exp_minus_1)
  moreover have "e AND NOT (mask 12) = push_bit 12 (drop_bit 12 e)"
    by (rule bit_eqI) (auto simp: bit_simps)
  ultimately have "unat (e AND 0xFFFFF000) = take_bit 32 (push_bit 12 (unat (drop_bit 12 e)))"
    by (simp only: unsigned_push_bit_eq) simp
  moreover have "unat (drop_bit 12 e) < 2 ^ 20"
    using unat_less_2_32 [of e] unat_drop_bit_div [of 12 e] by (simp add: div_less_iff_less_mult)
  ultimately show ?thesis by (simp add: entry_frame_def take_bit_eq_mod push_bit_eq_mult)
qed

lemma unback_page_none:
  assumes inv: "kvm_inv s" and p: "p \<in> dynamic" and none: "kview s p = None"
  shows "unback_page s (4096 * p) = rret (False, s)"
proof -
  have vi: "vmm_inv s" using inv by (simp add: kvm_inv_def)
  note ix = page_index [OF p refl]
  have "lookup_va s (of_nat (4096 * p)) = None"
    using lookup_kernel_shared [OF vi vmm_invD(3) [OF vi] ix(3,4)] none ix(1,2)
    by (simp add: lookup_va_def kview_def)
  then show ?thesis
    using vmm_unmap_page_eq [OF vi, of "of_nat (4096 * p)"] ix(1,4) by (simp add: unback_page_def)
qed

lemma unback_page_ok:
  assumes inv: "kvm_inv s" and p: "p \<in> dynamic" and some: "kview s p = Some f"
    and pd: "f \<notin> pd_frame ` set (all_spaces s)"
  shows "\<exists>t. unback_page s (4096 * p) = rret (True, t) \<and> kvm_inv t \<and> same_spaces s t
     \<and> free_set t = insert f (free_set s) \<and> (\<forall>q \<in> dynamic. kview t q = (if q = p then None else kview s q))"
proof -
  have vi: "vmm_inv s" using inv by (simp add: kvm_inv_def)
  let ?v = "of_nat (4096 * p) :: u32"
  note ix = page_index [OF p refl]
  have i: "pd_index_of ?v < 1022" using ix(1,4) by simp
  obtain e where e: "lookup_va s ?v = Some e" "entry_frame e = f"
    using lookup_kernel_shared [OF vi vmm_invD(3) [OF vi] ix(3,4)] some ix(1,2)
    by (auto simp: lookup_va_def kview_def)
  define s1 where "s1 = upd_page s (table_of s (active s) (pd_index_of ?v)) (pt_index_of ?v) 0"
  have un: "vmm_unmap_page s ?v = rret (Some (e AND 0xFFFFF000), s1)"
    using vmm_unmap_page_eq [OF vi i] e(1) by (simp add: s1_def)
  have lne: "lookup_va s ?v \<noteq> None" using e by simp
  note U = upd_lookup_va [OF vi i lne s1_def]
  have sp: "frame_count s1 = frame_count s" "all_spaces s1 = all_spaces s" using U(2) by (auto simp: same_spaces_def)
  have pd1: "pd_of s1 a = pd_of s a" if "a \<in> set (all_spaces s)" for a
    using upd_table_keeps [OF vi lookup_va_table [OF vi i lne] that] by (simp add: s1_def)
  have tabs: "has_table s a k \<and> table_of s1 a k = table_of s a k" if "has_table s1 a k" for a k
    using that pd1 [of a] by (auto simp: has_table_def sp table_of_def)
  have kv1: "kview s1 q = (if q = p then None else kview s q)" if "q \<in> dynamic" for q
  proof -
    have np: "\<not> present 0" by (simp add: present_def)
    have "lookup s1 a k l = (if k = p div 1024 \<and> l = p mod 1024 \<and> (active s = a \<or> 768 \<le> k)
        then None else lookup s a k l)" if "a \<in> set (all_spaces s)" "k < 1022" for a k l
      using U(4) [OF that] ix(1,2) np by auto
    from kview_map [OF vi p U(2) this that] show ?thesis by simp
  qed
  have f1: "f < frame_count s1" "f \<notin> free_set s1" "f \<notin> pd_frame ` set (all_spaces s1)"
    using ownedD(2,3) [OF inv p some] pd U(3) sp by simp_all
  have tb1: "table_of s1 a k \<noteq> f" if "has_table s1 a k" for a k
    using tabs [OF that] ownedD(4) [OF inv p some, of a k] by auto
  obtain t where t: "lift_pmm_free s1 (4096 * f) = rret t" "vmm_inv t" "same_spaces s1 t"
      "pages t = pages s1" "free_set t = insert f (free_set s1)"
    using vmm_inv_free [OF U(1) ownedD(1) [OF inv p some] f1(1,2) tb1 f1(3)] by blast
  have same: "same_spaces s t" using U(2) t(3) by (simp add: same_spaces_def)
  have vw: "kview t = kview s1" "has_table t = has_table s1" "table_of t = table_of s1"
    using view_cong [OF t(4)] t(3) by (simp_all add: same_spaces_def)
  have "owned t"
    unfolding owned_def
  proof (intro conjI ballI allI impI)
    fix q g
    assume q: "q \<in> dynamic" "kview t q = Some g"
    have c: "q \<noteq> p" "kview s q = Some g" using kv1 [OF q(1)] q(2) vw by (auto split: if_splits)
    then have gf: "g \<noteq> f" using ownedD(6) [OF inv p some q(1)] by auto
    note o = ownedD [OF inv q(1) c(2)]
    show "0 < g" "g < frame_count t" "g \<notin> free_set t"
      using o same t(5) U(3) gf by (auto simp: same_spaces_def)
    show "g \<notin> pd_frame ` set (all_spaces t)" if "q < 0xE2000" using o(5) [OF that] same by (simp add: same_spaces_def)
    show "table_of t b k \<noteq> g" if "has_table t b k" for b k
      using tabs [of b k] that o(4) [of b k] by (auto simp: vw)
  next
    fix q r g
    assume q: "q \<in> dynamic" "r \<in> dynamic" "kview t q = Some g \<and> kview t r = Some g"
    have "kview s q = Some g" "kview s r = Some g"
      using kv1 [OF q(1)] kv1 [OF q(2)] q(3) vw by (auto split: if_splits)
    then show "q = r" using ownedD(6) [OF inv q(2)] q(1) by blast
  qed
  moreover have "unback_page s (4096 * p) = rret (True, t)"
    using un t(1) entry_phys [of e] e(2) by (simp add: unback_page_def)
  ultimately show ?thesis using t(2,5) same U(3) kv1 vw by (auto simp: kvm_inv_def)
qed

section \<open>The contract\<close>

text \<open>
  What backing a page promises the regions that use it, and the two loops the regions are
  built from: back the pages at a list of addresses one after the other until one fails,
  with the addresses done so far, last first; and unback a list of addresses. \<open>strict\<close> says
  that the caller uses the frame address without checking that there was one, which is
  undefined (\<open>None\<close>) if there was not.
\<close>

fun back_pages :: "('s \<Rightarrow> nat \<Rightarrow> (bool \<times> 's) run) \<Rightarrow> nat list \<Rightarrow> nat list \<Rightarrow> 's \<Rightarrow> (bool \<times> nat list \<times> 's) run" where
  "back_pages back [] mapped s = rret (True, mapped, s)"
| "back_pages back (va # vas) mapped s =
     rbind (back s va) (\<lambda>(ok, t).
       if ok then back_pages back vas (va # mapped) t else rret (False, mapped, t))"

fun unback_pages :: "bool \<Rightarrow> ('s \<Rightarrow> nat \<Rightarrow> (bool \<times> 's) run) \<Rightarrow> nat list \<Rightarrow> 's \<Rightarrow> 's run" where
  "unback_pages strict unback [] s = rret s"
| "unback_pages strict unback (va # vas) s =
     rbind (unback s va) (\<lambda>(ok, t). if strict \<and> \<not> ok then None else unback_pages strict unback vas t)"

text \<open>Addresses of a list of page numbers.\<close>

definition page_addrs :: "nat list \<Rightarrow> nat list" where
  "page_addrs ps = map (\<lambda>p. 4096 * p) ps"

lemma page_addrs_simps [simp]:
  "page_addrs [] = []" "page_addrs (p # ps) = 4096 * p # page_addrs ps"
  "page_addrs (ps @ qs) = page_addrs ps @ page_addrs qs" "rev (page_addrs ps) = page_addrs (rev ps)"
  by (simp_all add: page_addrs_def rev_map)

locale page_backing =
  fixes inv :: "'s \<Rightarrow> bool"
    and same :: "'s \<Rightarrow> 's \<Rightarrow> bool"
    and free :: "'s \<Rightarrow> nat set"
    and view :: "'s \<Rightarrow> nat \<Rightarrow> nat option"
    and region :: "nat set"
    and priv :: "nat set"
    and acquire :: "'s \<Rightarrow> nat \<Rightarrow> (bool \<times> 's) run"
    and release :: "'s \<Rightarrow> nat \<Rightarrow> (bool \<times> 's) run"
  assumes same_refl: "same s s"
    and priv_region: "priv \<subseteq> region"
    and same_trans: "same s t \<Longrightarrow> same t u \<Longrightarrow> same s u"
    and back_law: "inv s \<Longrightarrow> p \<in> region \<Longrightarrow> view s p = None \<Longrightarrow>
      \<exists>b t. acquire s (4096 * p) = rret (b, t) \<and> inv t \<and> same s t \<and> free t \<subseteq> free s
        \<and> (if b then \<exists>f \<in> free s - free t. \<forall>q \<in> region. view t q = (if q = p then Some f else view s q)
           else free t = free s \<and> (\<forall>q \<in> region. view t q = view s q))"
    and unback_law: "inv s \<Longrightarrow> p \<in> priv \<Longrightarrow> view s p = Some f \<Longrightarrow>
      \<exists>t. release s (4096 * p) = rret (True, t) \<and> inv t \<and> same s t \<and> free t = insert f (free s)
        \<and> (\<forall>q \<in> region. view t q = (if q = p then None else view s q))"
begin

lemma back_pages_ok:
  assumes "inv s" and "set ps \<subseteq> region" and "distinct ps" and "\<forall>p \<in> set ps. view s p = None"
  shows "\<exists>b done t. back_pages acquire (page_addrs ps) mapped s = rret (b, page_addrs (rev done) @ mapped, t) \<and> inv t \<and> same s t
     \<and> free t \<subseteq> free s \<and> (\<exists>rest. ps = done @ rest \<and> (b \<longleftrightarrow> rest = []))
     \<and> (\<forall>q \<in> region. if q \<in> set done then \<exists>f \<in> free s - free t. view t q = Some f else view t q = view s q)"
  using assms
proof (induction ps arbitrary: s mapped)
  case Nil
  then show ?case by (intro exI [of _ True] exI [of _ "[]"] exI [of _ s]) (simp add: same_refl)
next
  case (Cons p ps)
  have "p \<in> region" "view s p = None" using Cons.prems by auto
  from back_law [OF Cons.prems(1) this] obtain b t where
    t: "acquire s (4096 * p) = rret (b, t)" "inv t" "same s t" "free t \<subseteq> free s"
    and r: "if b then \<exists>f \<in> free s - free t. \<forall>q \<in> region. view t q = (if q = p then Some f else view s q)
           else free t = free s \<and> (\<forall>q \<in> region. view t q = view s q)" by blast
  show ?case
  proof (cases b)
    case False
    then show ?thesis using t r
      by (intro exI [of _ False] exI [of _ "[]"] exI [of _ t]) simp
  next
    case True
    with r obtain f where f: "f \<in> free s - free t" "\<And>q. q \<in> region \<Longrightarrow> view t q = (if q = p then Some f else view s q)"
      by auto
    have "\<forall>q \<in> set ps. view t q = None" using f(2) Cons.prems by auto
    with Cons.IH [OF t(2), of "4096 * p # mapped"] Cons.prems obtain b' ds u where
      u: "back_pages acquire (page_addrs ps) (4096 * p # mapped) t = rret (b', page_addrs (rev ds) @ 4096 * p # mapped, u)" "inv u" "same t u" "free u \<subseteq> free t"
        "\<exists>rest. ps = ds @ rest \<and> (b' \<longleftrightarrow> rest = [])"
      and v: "\<forall>q \<in> region. if q \<in> set ds then \<exists>f \<in> free t - free u. view u q = Some f else view u q = view t q" by auto
    have "p \<notin> set ds" using u(5) Cons.prems(3) by auto
    have "\<forall>q \<in> region. if q \<in> set (p # ds) then \<exists>f \<in> free s - free u. view u q = Some f else view u q = view s q"
    proof
      fix q assume q: "q \<in> region"
      show "if q \<in> set (p # ds) then \<exists>f \<in> free s - free u. view u q = Some f else view u q = view s q"
        using v [rule_format, OF q] f(1) f(2) [OF q] u(4) t(4) \<open>p \<notin> set ds\<close>
        by (cases "q \<in> set ds"; cases "q = p") auto
    qed
    moreover have "back_pages acquire (page_addrs (p # ps)) mapped s = rret (b', page_addrs (rev (p # ds)) @ mapped, u)"
      using t(1) True u(1) by simp
    moreover have "\<exists>rest. p # ps = (p # ds) @ rest \<and> (b' \<longleftrightarrow> rest = [])" using u(5) by auto
    moreover have "free u \<subseteq> free s" using u(4) t(4) by blast
    ultimately show ?thesis using u(2) same_trans [OF t(3) u(3)] by blast
  qed
qed

lemma unback_pages_ok:
  assumes "inv s" and "set ps \<subseteq> priv" and "distinct ps" and "\<forall>p \<in> set ps. view s p \<noteq> None"
  shows "\<exists>t. unback_pages strict release (page_addrs ps) s = rret t \<and> inv t \<and> same s t
     \<and> free t = free s \<union> {f. \<exists>p \<in> set ps. view s p = Some f}
     \<and> (\<forall>q \<in> region. view t q = (if q \<in> set ps then None else view s q))"
  using assms
proof (induction ps arbitrary: s)
  case Nil
  then show ?case by (simp add: same_refl)
next
  case (Cons p ps)
  obtain f where f: "view s p = Some f" using Cons.prems(4) by auto
  with unback_law [OF Cons.prems(1) _ f] Cons.prems(2) obtain t where
    t: "release s (4096 * p) = rret (True, t)" "inv t" "same s t" "free t = insert f (free s)"
      "\<forall>q \<in> region. view t q = (if q = p then None else view s q)" by auto
  have vt: "view t q = view s q" if "q \<in> set ps" for q
    using t(5) Cons.prems(2,3) that priv_region by auto
  with Cons.IH [OF t(2)] Cons.prems obtain u where
    u: "unback_pages strict release (page_addrs ps) t = rret u" "inv u" "same t u"
      "free u = free t \<union> {f. \<exists>p \<in> set ps. view t p = Some f}"
      "\<forall>q \<in> region. view u q = (if q \<in> set ps then None else view t q)" by auto
  have "free u = free s \<union> {f. \<exists>p \<in> set (p # ps). view s p = Some f}"
    using u(4) t(4) vt f by auto
  then show ?case using u t same_trans [OF t(3) u(3)] by auto
qed

end

text \<open>The heap and the thread stacks, where no page is a page directory.\<close>

definition private_pages :: "nat set" where
  "private_pages = {0xD0000 ..< 0xE2000}"

interpretation kpages: page_backing kvm_inv same_spaces free_set kview dynamic private_pages back_page unback_page
proof unfold_locales
  fix s t u :: "'a vmm_scheme" and p f
  show "same_spaces s s" by (simp add: same_spaces_def)
  show "same_spaces s t \<Longrightarrow> same_spaces t u \<Longrightarrow> same_spaces s u" by (simp add: same_spaces_def)
  show sub: "private_pages \<subseteq> dynamic" by (auto simp: dynamic_def private_pages_def)
  assume inv: "kvm_inv s"
  show "\<exists>b t. back_page s (4096 * p) = rret (b, t) \<and> kvm_inv t \<and> same_spaces s t \<and> free_set t \<subseteq> free_set s
      \<and> (if b then \<exists>f \<in> free_set s - free_set t. \<forall>q \<in> dynamic. kview t q = (if q = p then Some f else kview s q)
         else free_set t = free_set s \<and> (\<forall>q \<in> dynamic. kview t q = kview s q))"
    if "p \<in> dynamic" "kview s p = None" by (rule back_page_ok [OF inv that])
  show "\<exists>t. unback_page s (4096 * p) = rret (True, t) \<and> kvm_inv t \<and> same_spaces s t
      \<and> free_set t = insert f (free_set s) \<and> (\<forall>q \<in> dynamic. kview t q = (if q = p then None else kview s q))"
    if p: "p \<in> private_pages" and some: "kview s p = Some f"
  proof -
    have "f \<notin> pd_frame ` set (all_spaces s)"
      using ownedD(5) [OF inv subsetD [OF sub p] some] p by (simp add: private_pages_def)
    from unback_page_ok [OF inv subsetD [OF sub p] some this] show ?thesis .
  qed
qed

end
