(* ===== verification/Heap.thy ===== *)
theory Heap
  imports Kernel_Pages
begin

text \<open>
  The kernel heap of \<open>zkt/mm/heap.c\<close>: first fit over a linked list of blocks that tile the
  mapped part of the heap region. The state extends the page tables with the block headers,
  as a store from addresses to headers, and with the file's static variables. A loop over a
  list that is not well formed may not end, which is \<open>None\<close>.
\<close>

section \<open>Model\<close>

record block =
  magic :: u32
  bsize :: nat
  next_block :: nat

record heap = vmm +
  blk :: "nat \<Rightarrow> block"
  heap_head :: nat
  heap_end :: nat
  used_bytes :: nat

definition MAGIC_USED :: u32 where "MAGIC_USED = 0x5A4B5455"
definition MAGIC_FREE :: u32 where "MAGIC_FREE = 0x5A4B5446"

definition heap_init :: "'a heap_scheme \<Rightarrow> 'a heap_scheme" where
  "heap_init s = s\<lparr>heap_head := 0, heap_end := 0xD0000000\<rparr>"

definition upd_blk :: "'a heap_scheme \<Rightarrow> nat \<Rightarrow> (block \<Rightarrow> block) \<Rightarrow> 'a heap_scheme" where
  "upd_blk s b f = s\<lparr>blk := (blk s)(b := f (blk s b))\<rparr>"

subsection \<open>Growing\<close>

text \<open>\<open>while (last && last->next) last = last->next;\<close>\<close>

partial_function (option) last_block :: "(nat \<Rightarrow> block) \<Rightarrow> nat \<Rightarrow> nat option" where
  "last_block m b = (if b \<noteq> 0 \<and> next_block (m b) \<noteq> 0 then last_block m (next_block (m b)) else Some b)"

definition grow_bytes :: "nat \<Rightarrow> nat" where
  "grow_bytes sz = page_floor (sub32 (add32 (add32 16 sz) 4096) 1)"

text \<open>The second half of \<open>heap_grow\<close>: the new pages join the list as free space.\<close>

definition append_space :: "'a heap_scheme \<Rightarrow> nat \<Rightarrow> (int \<times> 'a heap_scheme) run" where
  "append_space s bytes =
     (case last_block (blk s) (heap_head s) of
        None \<Rightarrow> None
      | Some l \<Rightarrow>
          let s1 = (if l \<noteq> 0 \<and> magic (blk s l) = MAGIC_FREE
                    then upd_blk s l (\<lambda>b. b\<lparr>bsize := add32 (bsize b) bytes\<rparr>)
                    else let b = heap_end s;
                             s2 = upd_blk s b (\<lambda>_. \<lparr>magic = MAGIC_FREE, bsize = sub32 bytes 16, next_block = 0\<rparr>)
                         in if l \<noteq> 0 then upd_blk s2 l (\<lambda>x. x\<lparr>next_block := b\<rparr>) else s2\<lparr>heap_head := b\<rparr>)
          in rret (0, s1\<lparr>heap_end := add32 (heap_end s1) bytes\<rparr>))"

definition heap_grow :: "'a heap_scheme \<Rightarrow> nat \<Rightarrow> (int \<times> 'a heap_scheme) run" where
  "heap_grow s sz =
     (let bytes = grow_bytes sz
      in if bytes > sub32 (add32 0xD0000000 0x10000000) (heap_end s) then rret (- 1, s)
         else rbind (back_pages back_page (map (\<lambda>k. add32 (heap_end s) (4096 * k)) [0 ..< bytes div 4096]) [] s)
                (\<lambda>(ok, mapped, s1).
                  if ok then append_space s1 bytes
                  else rbind (unback_pages True unback_page mapped s1) (\<lambda>s2. rret (- 1, s2))))"

subsection \<open>Allocation\<close>

text \<open>What \<open>take_first_fit\<close> does with the block it chose.\<close>

definition take_block :: "'a heap_scheme \<Rightarrow> nat \<Rightarrow> nat \<Rightarrow> nat \<times> 'a heap_scheme" where
  "take_block s sz b =
     (let s1 = (if bsize (blk s b) \<ge> add32 (add32 sz 16) 16
                then let rest = add32 (add32 b 16) sz;
                         s2 = upd_blk s rest (\<lambda>_. \<lparr>magic = MAGIC_FREE,
                                bsize = sub32 (sub32 (bsize (blk s b)) sz) 16,
                                next_block = next_block (blk s b)\<rparr>)
                     in upd_blk s2 b (\<lambda>x. x\<lparr>next_block := rest, bsize := sz\<rparr>)
                else s);
          s3 = upd_blk s1 b (\<lambda>x. x\<lparr>magic := MAGIC_USED\<rparr>)
      in (add32 b 16, s3\<lparr>used_bytes := add32 (used_bytes s3) (bsize (blk s3 b))\<rparr>))"

partial_function (option) first_fit_from :: "'a heap_scheme \<Rightarrow> nat \<Rightarrow> nat \<Rightarrow> (nat \<times> 'a heap_scheme) run" where
  "first_fit_from s sz b =
     (if b = 0 then rret (0, s)
      else if magic (blk s b) \<noteq> MAGIC_FREE \<or> bsize (blk s b) < sz
      then first_fit_from s sz (next_block (blk s b))
      else rret (take_block s sz b))"

definition take_first_fit :: "'a heap_scheme \<Rightarrow> nat \<Rightarrow> (nat \<times> 'a heap_scheme) run" where
  "take_first_fit s sz = first_fit_from s sz (heap_head s)"

definition round16 :: "nat \<Rightarrow> nat" where
  "round16 sz = add32 sz 15 div 16 * 16"

definition kmalloc :: "'a heap_scheme \<Rightarrow> nat \<Rightarrow> (nat \<times> 'a heap_scheme) run" where
  "kmalloc s sz =
     (if sz = 0 \<or> sz > 0x10000000 then rret (0, s)
      else let n = round16 sz
           in rbind (take_first_fit s n) (\<lambda>(p, s1).
                if p \<noteq> 0 then rret (p, s1)
                else rbind (heap_grow s1 n) (\<lambda>(rc, s2).
                       if rc = 0 then take_first_fit s2 n else rret (0, s2))))"

subsection \<open>Freeing\<close>

text \<open>The loop at the end of \<open>kfree\<close> that joins neighbouring free blocks.\<close>

partial_function (option) coalesce_from :: "'a heap_scheme \<Rightarrow> nat \<Rightarrow> 'a heap_scheme run" where
  "coalesce_from s c =
     (if c = 0 then rret s
      else let n = next_block (blk s c)
           in if magic (blk s c) = MAGIC_FREE \<and> n \<noteq> 0 \<and> magic (blk s n) = MAGIC_FREE
              then coalesce_from (upd_blk s c (\<lambda>b. b\<lparr>bsize := add32 (bsize b) (add32 16 (bsize (blk s n))),
                                                  next_block := next_block (blk s n)\<rparr>)) c
              else coalesce_from s n)"

definition kfree :: "'a heap_scheme \<Rightarrow> nat \<Rightarrow> 'a heap_scheme run" where
  "kfree s p =
     (if p = 0 then rret s
      else if p < 0xD0000010 \<or> p \<ge> heap_end s \<or> p mod 16 \<noteq> 0
      then rpanic ''kfree: pointer is not from kmalloc''
      else let b = p - 16
           in if magic (blk s b) = MAGIC_FREE then rpanic ''kfree: double free''
              else if magic (blk s b) \<noteq> MAGIC_USED
              then rpanic ''kfree: heap corruption or pointer not from kmalloc''
              else let s1 = upd_blk s b (\<lambda>x. x\<lparr>magic := MAGIC_FREE\<rparr>);
                       s2 = s1\<lparr>used_bytes := sub32 (used_bytes s1) (bsize (blk s1 b))\<rparr>
                   in coalesce_from s2 (heap_head s2))"

subsection \<open>Queries\<close>

definition heap_used :: "'a heap_scheme \<Rightarrow> nat" where
  "heap_used s = used_bytes s"

definition heap_mapped_bytes :: "'a heap_scheme \<Rightarrow> nat" where
  "heap_mapped_bytes s = sub32 (heap_end s) 0xD0000000"

text \<open>The loop of \<open>heap_check\<close>: the address expected next, or failure.\<close>

partial_function (option) check_from :: "(nat \<Rightarrow> block) \<Rightarrow> nat \<Rightarrow> nat \<Rightarrow> nat option option" where
  "check_from m b expected =
     (if b = 0 then Some (Some expected)
      else if b \<noteq> expected \<or> magic (m b) \<noteq> MAGIC_USED \<and> magic (m b) \<noteq> MAGIC_FREE
        \<or> bsize (m b) mod 16 \<noteq> 0
        \<or> magic (m b) = MAGIC_FREE \<and> next_block (m b) \<noteq> 0 \<and> magic (m (next_block (m b))) = MAGIC_FREE
      then Some None
      else check_from m (next_block (m b)) (add32 (add32 b 16) (bsize (m b))))"

definition heap_check :: "'a heap_scheme \<Rightarrow> int option" where
  "heap_check s =
     (case check_from (blk s) (heap_head s) 0xD0000000 of
        None \<Rightarrow> None
      | Some None \<Rightarrow> Some (- 1)
      | Some (Some expected) \<Rightarrow> Some (if expected \<noteq> heap_end s then - 1 else 0))"

section \<open>Chains of blocks\<close>

text \<open>
  A run of blocks from address \<open>a\<close> to \<open>e\<close>, each with its use and payload size, that tile
  the bytes between; the last one's \<open>next\<close> is \<open>nx\<close>.
\<close>

type_synonym seg = "bool \<times> nat"

definition header :: "block \<Rightarrow> bool \<Rightarrow> nat \<Rightarrow> nat \<Rightarrow> bool" where
  "header b u n nx \<longleftrightarrow> magic b = (if u then MAGIC_USED else MAGIC_FREE) \<and> bsize b = n
     \<and> next_block b = nx \<and> 0 < n \<and> n mod 16 = 0"

fun chain :: "(nat \<Rightarrow> block) \<Rightarrow> nat \<Rightarrow> seg list \<Rightarrow> nat \<Rightarrow> nat \<Rightarrow> bool" where
  "chain m a [] e nx \<longleftrightarrow> a = e"
| "chain m a ((u, n) # xs) e nx \<longleftrightarrow>
     header (m a) u n (if xs = [] then nx else a + 16 + n) \<and> chain m (a + 16 + n) xs e nx"

fun seg_len :: "seg list \<Rightarrow> nat" where
  "seg_len [] = 0"
| "seg_len ((u, n) # xs) = 16 + n + seg_len xs"

fun seg_used :: "seg list \<Rightarrow> nat" where
  "seg_used [] = 0"
| "seg_used ((u, n) # xs) = (if u then n else 0) + seg_used xs"

fun live :: "nat \<Rightarrow> seg list \<Rightarrow> (nat \<times> nat) set" where
  "live a [] = {}"
| "live a ((u, n) # xs) = (if u then {(a + 16, n)} else {}) \<union> live (a + 16 + n) xs"

definition noadj :: "seg list \<Rightarrow> bool" where
  "noadj xs \<longleftrightarrow> successively (\<lambda>x y. fst x \<or> fst y) xs"

lemma noadj_simps [simp]:
  "noadj []" "noadj [x]" "noadj (x # y # xs) \<longleftrightarrow> (fst x \<or> fst y) \<and> noadj (y # xs)"
  by (simp_all add: noadj_def)

lemma noadj_append:
  "noadj (xs @ ys) \<longleftrightarrow> noadj xs \<and> noadj ys \<and> (xs = [] \<or> ys = [] \<or> fst (last xs) \<or> fst (hd ys))"
  by (simp add: noadj_def successively_append_iff)

lemma noadj_tl: "noadj (x # xs) \<Longrightarrow> noadj xs"
  by (cases xs) auto

lemma magic_distinct [simp]: "MAGIC_USED \<noteq> MAGIC_FREE" "MAGIC_FREE \<noteq> MAGIC_USED"
  by (simp_all add: MAGIC_USED_def MAGIC_FREE_def)

lemma seg_len_append [simp]: "seg_len (xs @ ys) = seg_len xs + seg_len ys"
  by (induction xs rule: seg_len.induct) auto

lemma seg_used_append [simp]: "seg_used (xs @ ys) = seg_used xs + seg_used ys"
  by (induction xs rule: seg_used.induct) auto

lemma seg_used_le: "seg_used xs \<le> seg_len xs"
  by (induction xs rule: seg_used.induct) auto

lemma live_append [simp]: "live a (xs @ ys) = live a xs \<union> live (a + seg_len xs) ys"
  by (induction a xs rule: live.induct) (auto simp: add.assoc)

lemma chain_end: "chain m a xs e nx \<Longrightarrow> e = a + seg_len xs"
  by (induction m a xs e nx rule: chain.induct) auto

lemma chain_align: "chain m a xs e nx \<Longrightarrow> seg_len xs mod 16 = 0"
  by (induction m a xs e nx rule: chain.induct) (auto simp: header_def mod_add_eq)

lemma chain_cong:
  "chain m a xs e nx \<Longrightarrow> (\<And>b. a \<le> b \<Longrightarrow> b < e \<Longrightarrow> m' b = m b) \<Longrightarrow> chain m' a xs e nx"
proof (induction m a xs e nx rule: chain.induct)
  case (2 m a u n xs e nx)
  then have "e = a + seg_len ((u, n) # xs)" using chain_end by blast
  then show ?case using 2 by (auto simp: add.assoc)
qed simp

lemma chain_append:
  "xs \<noteq> [] \<Longrightarrow> chain m a (ys @ xs) e nx \<longleftrightarrow>
     chain m a ys (a + seg_len ys) (a + seg_len ys) \<and> chain m (a + seg_len ys) xs e nx"
proof (induction ys arbitrary: a)
  case (Cons y ys)
  obtain u n where "y = (u, n)" by fastforce
  then show ?case
    using Cons.IH [OF Cons.prems, of "a + 16 + n"] Cons.prems by (cases "ys = []") (auto simp: add.assoc)
qed simp

text \<open>The parts around one block.\<close>

lemma chain_split:
  assumes "chain m a (ys @ (u, n) # zs) e 0" and "b = a + seg_len ys"
  shows "chain m a ys b b" "header (m b) u n (if zs = [] then 0 else b + 16 + n)" "chain m (b + 16 + n) zs e 0"
    "b + 16 + n \<le> e"
proof -
  show c: "chain m a ys b b" "header (m b) u n (if zs = [] then 0 else b + 16 + n)" "chain m (b + 16 + n) zs e 0"
    using assms chain_append [of "(u, n) # zs" m a ys e 0] by auto
  show "b + 16 + n \<le> e" using chain_end [OF c(3)] by simp
qed

lemma chain_join:
  assumes "chain m a ys b b" and "header (m b) u n (if zs = [] then 0 else b + 16 + n)" and "chain m (b + 16 + n) zs e 0"
  shows "chain m a (ys @ (u, n) # zs) e 0"
  using assms chain_append [of "(u, n) # zs" m a ys e 0] chain_end [OF assms(1)] by auto

lemma live_split:
  "(p, n) \<in> live a xs \<Longrightarrow> \<exists>ys zs. xs = ys @ (True, n) # zs \<and> p = a + seg_len ys + 16"
proof (induction a xs rule: live.induct)
  case (2 a u k xs)
  show ?case
  proof (cases "u \<and> p = a + 16 \<and> n = k")
    case True
    then show ?thesis by (intro exI [of _ "[]"] exI [of _ xs]) simp
  next
    case False
    then obtain ys zs where "xs = ys @ (True, n) # zs" "p = a + 16 + k + seg_len ys + 16"
      using 2 by (auto split: if_splits)
    then show ?thesis by (intro exI [of _ "(u, k) # ys"] exI [of _ zs]) simp
  qed
qed simp

lemma live_bounds: "(p, n) \<in> live a xs \<Longrightarrow> a + 16 \<le> p \<and> p + n \<le> a + seg_len xs"
  by (drule live_split) auto

text \<open>Two live blocks do not overlap; there is a header between them.\<close>

lemma live_disjoint:
  "(p, n) \<in> live a xs \<Longrightarrow> (q, k) \<in> live a xs \<Longrightarrow> (p, n) \<noteq> (q, k) \<Longrightarrow> p + n + 16 \<le> q \<or> q + k + 16 \<le> p"
proof (induction a xs rule: live.induct)
  case (2 a u l xs)
  then show ?case
    using live_bounds [of p n "a + 16 + l" xs] live_bounds [of q k "a + 16 + l" xs]
    by (auto split: if_splits)
qed simp

section \<open>The loops on a chain\<close>

lemma last_block_chain:
  "chain m a (ys @ [(u, n)]) e 0 \<Longrightarrow> 0 < a \<Longrightarrow> last_block m a = Some (a + seg_len ys)"
proof (induction ys arbitrary: a)
  case Nil
  then show ?case by (simp add: last_block.simps [of m a] header_def)
next
  case (Cons y ys)
  obtain v k where y: "y = (v, k)" by fastforce
  then have "next_block (m a) = a + 16 + k" "chain m (a + 16 + k) (ys @ [(u, n)]) e 0"
    using Cons.prems by (auto simp: header_def)
  then show ?case
    using Cons.IH [of "a + 16 + k"] Cons.prems(2) y
    by (simp add: last_block.simps [of m a] add.assoc)
qed

lemma check_from_chain:
  "chain m a xs e 0 \<Longrightarrow> noadj xs \<Longrightarrow> 0 < a \<Longrightarrow> e < 2 ^ 32 \<Longrightarrow>
   check_from m (if xs = [] then 0 else a) a = Some (Some e)"
proof (induction m a xs e "0 :: nat" rule: chain.induct)
  case (1 m a e)
  then show ?case by (simp add: check_from.simps [of m 0])
next
  case (2 m a u n xs e)
  have e: "e = a + seg_len ((u, n) # xs)" using chain_end [OF "2.prems"(1)] .
  then have ar: "add32 (add32 a 16) n = a + 16 + n" using "2.prems"(4) by (simp add: add32_exact)
  have h: "header (m a) u n (if xs = [] then 0 else a + 16 + n)" using "2.prems"(1) by simp
  have "\<not> (magic (m a) = MAGIC_FREE \<and> next_block (m a) \<noteq> 0 \<and> magic (m (next_block (m a))) = MAGIC_FREE)"
  proof (cases xs)
    case (Cons x ys)
    then obtain v k where "xs = (v, k) # ys" by (cases x) auto
    then show ?thesis using h "2.prems"(1,2) by (auto simp: header_def split: if_splits)
  qed (use h in \<open>simp add: header_def\<close>)
  moreover have "magic (m a) = MAGIC_USED \<or> magic (m a) = MAGIC_FREE" "bsize (m a) = n" "n mod 16 = 0"
      "next_block (m a) = (if xs = [] then 0 else a + 16 + n)"
    using h by (auto simp: header_def split: if_splits)
  moreover have "noadj xs" using "2.prems"(2) by (cases xs) auto
  ultimately show ?case
    using "2.hyps" "2.prems"(1,3,4) ar by (subst check_from.simps) (simp add: add.assoc)
qed

lemma first_fit_none:
  "chain (blk s) a xs e 0 \<Longrightarrow> 0 < a \<Longrightarrow> \<forall>(u, n) \<in> set xs. u \<or> n < sz \<Longrightarrow>
   first_fit_from s sz (if xs = [] then 0 else a) = rret (0, s)"
proof (induction "blk s" a xs e "0 :: nat" rule: chain.induct)
  case (1 a e)
  then show ?case by (simp add: first_fit_from.simps [of s sz 0])
next
  case (2 a u n xs e)
  then have "first_fit_from s sz a = first_fit_from s sz (if xs = [] then 0 else a + 16 + n)"
    by (subst first_fit_from.simps) (auto simp: header_def)
  then show ?case using 2 by simp
qed

lemma first_fit_some:
  "chain (blk s) a (ys @ (False, n) # zs) e 0 \<Longrightarrow> 0 < a \<Longrightarrow> \<forall>(u, k) \<in> set ys. u \<or> k < sz \<Longrightarrow> sz \<le> n \<Longrightarrow>
   first_fit_from s sz a = rret (take_block s sz (a + seg_len ys))"
proof (induction ys arbitrary: a)
  case Nil
  then show ?case by (subst first_fit_from.simps) (auto simp: header_def)
next
  case (Cons y ys)
  obtain v k where y: "y = (v, k)" by fastforce
  then have "first_fit_from s sz a = first_fit_from s sz (a + 16 + k)"
    using Cons.prems by (subst first_fit_from.simps) (auto simp: header_def)
  then show ?case using Cons.IH [of "a + 16 + k"] Cons.prems y by (simp add: add.assoc)
qed

section \<open>Taking a block\<close>

definition take_seg :: "nat \<Rightarrow> nat \<Rightarrow> seg list" where
  "take_seg sz n = (if n \<ge> sz + 32 then [(True, sz), (False, n - sz - 16)] else [(True, n)])"

text \<open>The part of the state the heap's list does not touch.\<close>

definition same_vm :: "'a heap_scheme \<Rightarrow> 'a heap_scheme \<Rightarrow> bool" where
  "same_vm s t \<longleftrightarrow> t = s\<lparr>blk := blk t, used_bytes := used_bytes t\<rparr>"

lemma take_block_ok:
  assumes c: "chain (blk s) a (ys @ (False, n) # zs) e 0" and a: "0 < a" and e: "e < 2 ^ 32"
    and sz: "0 < sz" "sz mod 16 = 0" "sz \<le> n" "sz \<le> 0x10000000" and used: "used_bytes s + n < 2 ^ 32"
    and b: "b = a + seg_len ys"
  shows "\<exists>t. take_block s sz b = (b + 16, t) \<and> chain (blk t) a (ys @ take_seg sz n @ zs) e 0
     \<and> used_bytes t = used_bytes s + seg_used (take_seg sz n) \<and> same_vm s t"
proof -
  note p = chain_split [OF c b]
  have hd: "magic (blk s b) = MAGIC_FREE" "bsize (blk s b) = n" "n mod 16 = 0" "0 < n"
      "next_block (blk s b) = (if zs = [] then 0 else b + 16 + n)"
    using p(2) by (auto simp: header_def split: if_splits)
  have ar: "add32 b 16 = b + 16" using p(4) e by (simp add: add32_exact)
  define t where "t = snd (take_block s sz b)"
  show ?thesis
  proof (cases "n \<ge> sz + 32")
    case True
    let ?rest = "b + 16 + sz"
    have ar2: "add32 (add32 sz 16) 16 = sz + 32" "add32 (add32 b 16) sz = ?rest"
      "sub32 (sub32 n sz) 16 = n - sz - 16" "add32 (used_bytes s) sz = used_bytes s + sz"
      using True p(4) e used by (simp_all add: add32_exact sub32_exact)
    have m16: "(n - sz - 16) mod 16 = 0" using hd(3) sz(2) True by presburger
    have tb: "take_block s sz b = (b + 16, t)" "same_vm s t" "used_bytes t = used_bytes s + sz"
      and bt: "blk t = (blk s)(?rest := \<lparr>magic = MAGIC_FREE, bsize = n - sz - 16, next_block = next_block (blk s b)\<rparr>,
          b := \<lparr>magic = MAGIC_USED, bsize = sz, next_block = ?rest\<rparr>)"
      using True ar ar2 hd(2) sz(1)
      by (auto simp: t_def take_block_def Let_def upd_blk_def same_vm_def)
    have "chain (blk t) a ys b b" using p(1) by (rule chain_cong) (simp add: bt)
    moreover have "chain (blk t) (b + 16 + n) zs e 0"
      using p(3) True by (intro chain_cong [OF p(3)]) (simp add: bt)
    moreover have eqa: "?rest + 16 + (n - sz - 16) = b + 16 + n" using True by simp
    moreover have "header (blk t ?rest) False (n - sz - 16) (if zs = [] then 0 else b + 16 + n)"
      using True m16 hd(5) by (simp add: bt header_def)
    ultimately have "chain (blk t) a ys b b" "chain (blk t) ?rest ((False, n - sz - 16) # zs) e 0"
      by (simp_all only: chain.simps eqa)
    moreover have "header (blk t b) True sz ?rest" using sz by (simp add: bt header_def)
    ultimately have "chain (blk t) a (ys @ (True, sz) # (False, n - sz - 16) # zs) e 0"
      by (intro chain_join) auto
    then show ?thesis using True tb by (simp add: take_seg_def)
  next
    case False
    have big: "\<not> add32 (add32 sz 16) 16 \<le> n"
      using False sz(4) by (simp add: add32_exact)
    have tb: "take_block s sz b = (b + 16, t)" "same_vm s t" "used_bytes t = used_bytes s + n"
      and bt: "blk t = (blk s)(b := \<lparr>magic = MAGIC_USED, bsize = n, next_block = next_block (blk s b)\<rparr>)"
      using big ar hd(2) used
      by (auto simp: t_def take_block_def Let_def upd_blk_def same_vm_def add32_exact)
    have "chain (blk t) a ys b b" using p(1) by (rule chain_cong) (simp add: bt)
    moreover have "chain (blk t) (b + 16 + n) zs e 0" by (intro chain_cong [OF p(3)]) (simp add: bt)
    moreover have "header (blk t b) True n (if zs = [] then 0 else b + 16 + n)" using hd by (simp add: bt header_def)
    ultimately have "chain (blk t) a (ys @ (True, n) # zs) e 0" by (intro chain_join)
    then show ?thesis using False tb by (simp add: take_seg_def)
  qed
qed

section \<open>Joining free neighbours\<close>

fun acoal :: "seg list \<Rightarrow> seg list" where
  "acoal ((u, n) # (v, k) # xs) =
     (if \<not> u \<and> \<not> v then acoal ((False, n + 16 + k) # xs) else (u, n) # acoal ((v, k) # xs))"
| "acoal xs = xs"

lemma acoal_Cons: "\<exists>k ys. acoal ((u, n) # xs) = (u, k) # ys"
  by (induction "(u, n) # xs" arbitrary: n xs rule: acoal.induct) auto

lemma acoal_empty [simp]: "acoal xs = [] \<longleftrightarrow> xs = []"
  using acoal_Cons by (cases xs) (auto, metis list.distinct(1))

lemma acoal_noadj: "noadj (acoal xs)"
proof (induction xs rule: acoal.induct)
  case (1 u n v k xs)
  obtain j ys where "acoal ((v, k) # xs) = (v, j) # ys" using acoal_Cons by blast
  then show ?case using 1 by auto
qed simp_all

lemma acoal_keeps:
  "seg_len (acoal xs) = seg_len xs" "seg_used (acoal xs) = seg_used xs" "live a (acoal xs) = live a xs"
  by (induction xs arbitrary: a rule: acoal.induct) (auto simp: add.assoc add.left_commute)

lemma coalesce_from_ok:
  assumes "chain (blk s) a xs e 0" and "0 < a" and "e < 2 ^ 32"
  shows "\<exists>t. coalesce_from s (if xs = [] then 0 else a) = rret t \<and> chain (blk t) a (acoal xs) e 0
     \<and> (\<forall>b < a. blk t b = blk s b) \<and> t = s\<lparr>blk := blk t\<rparr>
     \<and> (\<forall>b. magic (blk t b) = magic (blk s b))"
  using assms
proof (induction xs arbitrary: s a rule: acoal.induct [case_names two none one])
  case (two u n v k xs)
  let ?c = "a + 16 + n"
  have h: "header (blk s a) u n ?c" "header (blk s ?c) v k (if xs = [] then 0 else ?c + 16 + k)"
      "chain (blk s) (?c + 16 + k) xs e 0" "chain (blk s) ?c ((v, k) # xs) e 0"
    using two.prems(1) by auto
  have nxt: "next_block (blk s a) = ?c" "bsize (blk s ?c) = k" "bsize (blk s a) = n"
      "next_block (blk s ?c) = (if xs = [] then 0 else ?c + 16 + k)"
    using h(1,2) by (auto simp: header_def)
  have mg: "magic (blk s a) = MAGIC_FREE \<longleftrightarrow> \<not> u" "magic (blk s ?c) = MAGIC_FREE \<longleftrightarrow> \<not> v"
    using h(1,2) by (auto simp: header_def)
  have e: "?c + 16 + k \<le> e" using chain_end [OF h(3)] by simp
  show ?case
  proof (cases "\<not> u \<and> \<not> v")
    case True
    define s1 where "s1 = upd_blk s a (\<lambda>b. b\<lparr>bsize := n + 16 + k, next_block := next_block (blk s ?c)\<rparr>)"
    have "add32 n (add32 16 k) = n + 16 + k" using e two.prems(3) by (simp add: add32_exact)
    then have step: "coalesce_from s a = coalesce_from s1 a"
      using True two.prems(2) by (subst coalesce_from.simps) (simp add: nxt mg s1_def upd_blk_def Let_def)
    have b1: "blk s1 = (blk s)(a := (blk s a)\<lparr>bsize := n + 16 + k, next_block := next_block (blk s ?c)\<rparr>)"
      by (simp add: s1_def upd_blk_def)
    have "chain (blk s1) (?c + 16 + k) xs e 0" by (rule chain_cong [OF h(3)]) (simp add: b1)
    moreover have "(n + 16 + k) mod 16 = 0" using h(1,2) by (auto simp: header_def)
    ultimately have "chain (blk s1) a ((False, n + 16 + k) # xs) e 0"
      using h(1) True nxt by (simp add: b1 header_def add.assoc)
    from two.IH(1) [OF True this two.prems(2,3)] obtain t where
      t: "coalesce_from s1 a = rret t" "chain (blk t) a (acoal ((False, n + 16 + k) # xs)) e 0"
        "\<forall>b < a. blk t b = blk s1 b" "t = s1\<lparr>blk := blk t\<rparr>" "\<forall>b. magic (blk t b) = magic (blk s1 b)" by auto
    have "t = s\<lparr>blk := blk t\<rparr>" by (subst t(4)) (simp add: s1_def upd_blk_def)
    then show ?thesis using step t(1,2,3,5) True by (auto simp: b1)
  next
    case False
    then have step: "coalesce_from s a = coalesce_from s ?c"
      using two.prems(2) by (subst coalesce_from.simps) (auto simp: nxt mg Let_def)
    from two.IH(2) [OF False h(4) _ two.prems(3)] two.prems(2) obtain t where
      t: "coalesce_from s ?c = rret t" "chain (blk t) ?c (acoal ((v, k) # xs)) e 0"
        "\<forall>b < ?c. blk t b = blk s b" "t = s\<lparr>blk := blk t\<rparr>" "\<forall>b. magic (blk t b) = magic (blk s b)" by auto
    have "blk t a = blk s a" using t(3) by simp
    then have "chain (blk t) a ((u, n) # acoal ((v, k) # xs)) e 0" using t(2) h(1) by simp
    then show ?thesis using step t(1,3,4,5) False by auto
  qed
next
  case none
  then show ?case by (auto simp: coalesce_from.simps [of s 0])
next
  case (one x)
  obtain u n where x: "x = (u, n)" by fastforce
  then have "next_block (blk s a) = 0" using one by (simp add: header_def)
  then have "coalesce_from s a = rret s"
    using one.prems(2) by (simp add: coalesce_from.simps [of s a] coalesce_from.simps [of s 0])
  then show ?case using one.prems by auto
qed

section \<open>Invariant\<close>

text \<open>
  The blocks are a chain from the start of the region to its mapped end with no two free
  neighbours, the counter is the sum of the live payloads, and the pages below the end, and
  no others of the region, are backed.
\<close>

definition heap_rep :: "'a heap_scheme \<Rightarrow> seg list \<Rightarrow> bool" where
  "heap_rep s xs \<longleftrightarrow> heap_head s = (if xs = [] then 0 else 0xD0000000)
     \<and> chain (blk s) 0xD0000000 xs (heap_end s) 0 \<and> noadj xs \<and> used_bytes s = seg_used xs
     \<and> heap_end s \<le> 0xE0000000 \<and> heap_end s mod 4096 = 0"

definition heap_inv :: "'a heap_scheme \<Rightarrow> seg list \<Rightarrow> bool" where
  "heap_inv s xs \<longleftrightarrow> kvm_inv s \<and> heap_rep s xs
     \<and> (\<forall>p. 0xD0000 \<le> p \<and> p < heap_end s div 4096 \<longrightarrow> kview s p \<noteq> None)
     \<and> (\<forall>p. heap_end s div 4096 \<le> p \<and> p < 0xE0000 \<longrightarrow> kview s p = None)"

lemma kview_heap_upd [simp]:
  "kview (s\<lparr>blk := m\<rparr>) = kview s" "kview (s\<lparr>heap_head := h\<rparr>) = kview s"
  "kview (s\<lparr>heap_end := h\<rparr>) = kview s" "kview (s\<lparr>used_bytes := h\<rparr>) = kview s"
  by (simp_all add: kview_def lookup_def table_of_def pd_of_def fun_eq_iff)

lemmas kvm_unfold = kvm_inv_def owned_def vmm_inv_def has_table_def table_of_def pd_of_def
  space_ok_def table_ok_def pmm_inv_def pmm_shape_def free_set_def is_used_def

lemma kvm_heap_upd [simp]:
  "kvm_inv (s\<lparr>blk := m\<rparr>) \<longleftrightarrow> kvm_inv s" "kvm_inv (s\<lparr>heap_head := h\<rparr>) \<longleftrightarrow> kvm_inv s"
  "kvm_inv (s\<lparr>heap_end := h\<rparr>) \<longleftrightarrow> kvm_inv s" "kvm_inv (s\<lparr>used_bytes := h\<rparr>) \<longleftrightarrow> kvm_inv s"
  by (simp_all add: kvm_unfold)

lemma heap_invD:
  assumes "heap_inv s xs"
  shows "kvm_inv s" "heap_head s = (if xs = [] then 0 else 0xD0000000)"
    "chain (blk s) 0xD0000000 xs (heap_end s) 0" "noadj xs" "used_bytes s = seg_used xs"
    "heap_end s \<le> 0xE0000000" "heap_end s mod 4096 = 0" "heap_end s = 0xD0000000 + seg_len xs"
  using assms chain_end by (auto simp: heap_inv_def heap_rep_def)

lemma heap_end_bound: "heap_inv s xs \<Longrightarrow> heap_end s < 2 ^ 32" "heap_inv s xs \<Longrightarrow> seg_used xs < 2 ^ 29"
  using heap_invD(6,8) [of s xs] seg_used_le [of xs] by auto

text \<open>A change of the list alone keeps the rest of the invariant.\<close>

lemma heap_inv_list:
  assumes "heap_inv s xs" and "same_vm s t" and "chain (blk t) 0xD0000000 ys (heap_end s) 0" and "noadj ys"
    and "used_bytes t = seg_used ys" and "ys = [] \<longleftrightarrow> xs = []"
  shows "heap_inv t ys"
proof -
  have t: "t = s\<lparr>blk := blk t, used_bytes := used_bytes t\<rparr>" using assms(2) by (simp add: same_vm_def)
  have "heap_end t = heap_end s" "heap_head t = heap_head s" "kview t = kview s" "kvm_inv t \<longleftrightarrow> kvm_inv s"
    by (subst t, simp)+
  then show ?thesis using assms by (simp add: heap_inv_def heap_rep_def)
qed

text \<open>What a heap operation leaves alone: everything but the heap's own state and pages.\<close>

definition heap_only :: "'a heap_scheme \<Rightarrow> 'a heap_scheme \<Rightarrow> bool" where
  "heap_only s t \<longleftrightarrow> kernel_space t = kernel_space s \<and> all_spaces t = all_spaces s \<and> active t = active s
     \<and> frame_count t = frame_count s \<and> heap.more t = heap.more s \<and> free_set t \<subseteq> free_set s
     \<and> (\<forall>q \<in> dynamic. 0xE0000 \<le> q \<longrightarrow> kview t q = kview s q)"

lemma heap_only_trans: "heap_only s t \<Longrightarrow> heap_only t u \<Longrightarrow> heap_only s u"
  by (auto simp: heap_only_def)

lemma free_set_heap_upd [simp]:
  "free_set (s\<lparr>blk := m\<rparr>) = free_set s" "free_set (s\<lparr>heap_head := h\<rparr>) = free_set s"
  "free_set (s\<lparr>heap_end := h\<rparr>) = free_set s" "free_set (s\<lparr>used_bytes := h\<rparr>) = free_set s"
  by (simp_all add: free_set_def is_used_def)

lemma same_vm_heap_only: "same_vm s t \<Longrightarrow> heap_only s t"
  unfolding same_vm_def heap_only_def by (erule ssubst) simp

lemma take_seg_props:
  assumes "sz \<le> n"
  shows "take_seg sz n \<noteq> []" "\<exists>k rest. take_seg sz n = (True, k) # rest \<and> sz \<le> k \<and> rest = (if n \<ge> sz + 32 then [(False, n - sz - 16)] else []) \<and> seg_used (take_seg sz n) = k"
    "seg_len (take_seg sz n) = 16 + n"
  using assms by (auto simp: take_seg_def)

lemma take_first_fit_ok:
  assumes inv: "heap_inv s xs" and sz: "0 < sz" "sz mod 16 = 0" "sz \<le> 0x10000000"
  shows "take_first_fit s sz = rret (0, s) \<and> (\<forall>(u, n) \<in> set xs. u \<or> n < sz)
    \<or> (\<exists>p t ys k. take_first_fit s sz = rret (p, t) \<and> heap_inv t ys \<and> heap_only s t \<and> p mod 16 = 0 \<and> p \<noteq> 0 \<and> sz \<le> k
         \<and> (p, k) \<notin> live 0xD0000000 xs \<and> live 0xD0000000 ys = insert (p, k) (live 0xD0000000 xs))"
proof (cases "\<forall>(u, n) \<in> set xs. u \<or> n < sz")
  case True
  then show ?thesis
    using first_fit_none [OF heap_invD(3) [OF inv]] heap_invD(2) [OF inv] by (simp add: take_first_fit_def)
next
  case False
  then have "\<exists>x \<in> set xs. \<not> (case x of (u, n) \<Rightarrow> u \<or> n < sz)" by auto
  from split_list_first_prop [OF this] obtain ys x zs where
    x: "xs = ys @ x # zs" "\<not> (case x of (u, n) \<Rightarrow> u \<or> n < sz)" "\<forall>y \<in> set ys. (case y of (u, n) \<Rightarrow> u \<or> n < sz)" by blast
  then obtain n where n: "x = (False, n)" "sz \<le> n" by (cases x) auto
  define b where "b = 0xD0000000 + seg_len ys"
  note c = heap_invD(3) [OF inv, unfolded x(1) n(1)]
  have len: "seg_len xs = seg_len ys + 16 + n + seg_len zs" using x(1) n(1) by simp
  have "used_bytes s + n < 2 ^ 32"
    using heap_invD(5,6,8) [OF inv] heap_end_bound(2) [OF inv] len by simp
  with take_block_ok [OF c _ heap_end_bound(1) [OF inv] sz(1,2) n(2) sz(3) _ b_def] obtain t where
    t: "take_block s sz b = (b + 16, t)" "chain (blk t) 0xD0000000 (ys @ take_seg sz n @ zs) (heap_end s) 0"
      "used_bytes t = used_bytes s + seg_used (take_seg sz n)" "same_vm s t" by auto
  obtain k rest where k: "take_seg sz n = (True, k) # rest" "sz \<le> k" "seg_used (take_seg sz n) = k"
      "rest = (if n \<ge> sz + 32 then [(False, n - sz - 16)] else [])"
    using take_seg_props(2) [OF n(2)] by blast
  have adj: "noadj ys" "noadj zs" "ys = [] \<or> fst (last ys)" "zs = [] \<or> fst (hd zs)"
    using heap_invD(4) [OF inv] unfolding x(1) n(1) noadj_append
    by (auto simp: noadj_tl) (cases zs; simp)+
  then have nadj: "noadj (ys @ take_seg sz n @ zs)"
    by (cases zs) (auto simp: take_seg_def noadj_append)
  have "used_bytes t = seg_used (ys @ take_seg sz n @ zs)"
    using t(3) heap_invD(5) [OF inv] x(1) n(1) by simp
  then have hi: "heap_inv t (ys @ take_seg sz n @ zs)"
    using heap_inv_list [OF inv t(4,2) nadj] k(1) x(1) by simp
  have new: "(b + 16, k) \<notin> live 0xD0000000 xs"
  proof
    assume "(b + 16, k) \<in> live 0xD0000000 xs"
    then have "(b + 16, k) \<in> live 0xD0000000 ys \<or> (b + 16, k) \<in> live (b + 16 + n) zs"
      using x(1) n(1) by (auto simp: b_def add.assoc)
    then show False using live_bounds [of "b + 16" k] n(2) sz(1) by (fastforce simp: b_def)
  qed
  have "live 0xD0000000 (ys @ take_seg sz n @ zs) = insert (b + 16, k) (live 0xD0000000 xs)"
    using k x(1) n take_seg_props(3) [OF n(2)] by (auto simp: b_def add.assoc split: if_splits)
  moreover have "(b + 16) mod 16 = 0"
    using chain_align [OF chain_split(1) [OF c b_def]] by (simp add: b_def) presburger
  moreover have "take_first_fit s sz = rret (b + 16, t)"
    using first_fit_some [OF c _ x(3) n(2)] heap_invD(2) [OF inv] t(1) x(1)
    by (simp add: take_first_fit_def b_def)
  ultimately have "take_first_fit s sz = rret (b + 16, t) \<and> heap_inv t (ys @ take_seg sz n @ zs) \<and> heap_only s t
      \<and> (b + 16) mod 16 = 0
      \<and> b + 16 \<noteq> 0 \<and> sz \<le> k \<and> (b + 16, k) \<notin> live 0xD0000000 xs
      \<and> live 0xD0000000 (ys @ take_seg sz n @ zs) = insert (b + 16, k) (live 0xD0000000 xs)"
    using hi k(2) new same_vm_heap_only [OF t(4)] by simp
  then show ?thesis by (intro disjI2 exI)
qed

section \<open>Growing\<close>

lemma grow_bytes_eq:
  assumes "sz \<le> 0x10000000"
  shows "16 + sz \<le> grow_bytes sz" "grow_bytes sz \<le> sz + 4111" "grow_bytes sz mod 4096 = 0"
proof -
  have "grow_bytes sz = page_floor (sz + 4111)"
    using assms by (simp add: grow_bytes_def add32_exact sub32_exact add.commute)
  then show "16 + sz \<le> grow_bytes sz" "grow_bytes sz \<le> sz + 4111" "grow_bytes sz mod 4096 = 0"
    using page_floor_bounds [of "sz + 4111"] by (simp_all, simp add: page_floor_def)
qed

text \<open>Heap state carried along by the page-table operations.\<close>

lemma same_spaces_heap:
  fixes s t :: "'a heap_scheme"
  assumes "same_spaces s t"
  shows "blk t = blk s" "heap_head t = heap_head s" "heap_end t = heap_end s" "used_bytes t = used_bytes s"
    "heap.more t = heap.more s"
  using assms by (cases s; cases t; simp add: same_spaces_def)+

definition add_space :: "nat \<Rightarrow> seg list \<Rightarrow> seg list" where
  "add_space bytes xs = (if xs \<noteq> [] \<and> \<not> fst (last xs) then butlast xs @ [(False, snd (last xs) + bytes)]
                         else xs @ [(False, bytes - 16)])"

lemma append_space_ok:
  assumes c: "chain (blk s) 0xD0000000 xs (heap_end s) 0" and h: "heap_head s = (if xs = [] then 0 else 0xD0000000)"
    and e: "heap_end s + bytes \<le> 0xE0000000" and b: "16 < bytes" "bytes mod 16 = 0"
  shows "\<exists>t. append_space s bytes = rret (0, t) \<and> chain (blk t) 0xD0000000 (add_space bytes xs) (heap_end t) 0
     \<and> heap_head t = 0xD0000000 \<and> heap_end t = heap_end s + bytes
     \<and> t = s\<lparr>blk := blk t, heap_head := heap_head t, heap_end := heap_end t\<rparr>"
proof (cases xs rule: rev_cases)
  case Nil
  define t where "t = s\<lparr>blk := (blk s)(0xD0000000 := \<lparr>magic = MAGIC_FREE, bsize = bytes - 16, next_block = 0\<rparr>),
     heap_head := 0xD0000000, heap_end := heap_end s + bytes\<rparr>"
  have "append_space s bytes = rret (0, t)"
    using Nil c h e b by (simp add: append_space_def last_block.simps [of _ 0] upd_blk_def t_def add32_exact sub32_exact)
  moreover have "(bytes - 16) mod 16 = 0" using b by presburger
  then have "chain (blk t) 0xD0000000 (add_space bytes xs) (heap_end t) 0"
    using Nil c b by (simp add: add_space_def t_def header_def)
  moreover have "heap_head t = 0xD0000000" "heap_end t = heap_end s + bytes"
    "t = s\<lparr>blk := blk t, heap_head := heap_head t, heap_end := heap_end t\<rparr>" by (simp_all add: t_def)
  ultimately show ?thesis by (intro exI [of _ t] conjI)
next
  case (snoc ys y)
  obtain u n where y: "y = (u, n)" by fastforce
  have xs: "xs = ys @ (u, n) # []" using snoc y by simp
  define l where "l = 0xD0000000 + seg_len ys"
  note p = chain_split [OF c [unfolded xs] l_def]
  have lb: "last_block (blk s) (heap_head s) = Some l"
    using last_block_chain [of "blk s" "0xD0000000" ys u n] c h unfolding xs by (simp add: l_def)
  have end_l: "heap_end s = l + 16 + n" using p(3) by simp
  have hl: "magic (blk s l) = (if u then MAGIC_USED else MAGIC_FREE)" "bsize (blk s l) = n" "next_block (blk s l) = 0"
    "0 < n" "n mod 16 = 0" using p(2) by (auto simp: header_def)
  have l0: "l \<noteq> 0" by (simp add: l_def)
  show ?thesis
  proof (cases u)
    case False
    define t where "t = s\<lparr>blk := (blk s)(l := (blk s l)\<lparr>bsize := n + bytes\<rparr>), heap_end := heap_end s + bytes\<rparr>"
    have "append_space s bytes = rret (0, t)"
      using False lb hl l0 e end_l by (simp add: append_space_def upd_blk_def t_def add32_exact)
    moreover have "chain (blk t) 0xD0000000 ys l l" using p(1) by (rule chain_cong) (simp add: t_def)
    then have "chain (blk t) 0xD0000000 (ys @ (False, n + bytes) # []) (l + 16 + (n + bytes)) 0"
      using hl b False by (intro chain_join) (auto simp: t_def header_def)
    then have "chain (blk t) 0xD0000000 (add_space bytes xs) (heap_end t) 0"
      using False end_l by (simp add: add_space_def xs t_def add.assoc)
    moreover have "heap_head t = 0xD0000000" "heap_end t = heap_end s + bytes"
      "t = s\<lparr>blk := blk t, heap_head := heap_head t, heap_end := heap_end t\<rparr>" using h xs by (simp_all add: t_def)
    ultimately show ?thesis by (intro exI [of _ t] conjI)
  next
    case True
    let ?b = "heap_end s"
    define t where "t = s\<lparr>blk := (blk s)(?b := \<lparr>magic = MAGIC_FREE, bsize = bytes - 16, next_block = 0\<rparr>,
        l := (blk s l)\<lparr>next_block := ?b\<rparr>), heap_end := heap_end s + bytes\<rparr>"
    have ne: "?b \<noteq> l" using end_l by simp
    have "append_space s bytes = rret (0, t)"
      using True lb hl l0 e b ne
      by (simp add: append_space_def upd_blk_def t_def add32_exact sub32_exact Let_def)
    moreover have "chain (blk t) 0xD0000000 ys l l" using p(1) end_l by (intro chain_cong [OF p(1)]) (simp add: t_def)
    moreover have "(bytes - 16) mod 16 = 0" using b by presburger
    then have "chain (blk t) (l + 16 + n) [(False, bytes - 16)] (heap_end t) 0"
      using b ne end_l by (simp add: t_def header_def)
    moreover have "header (blk t l) True n (l + 16 + n)" using hl True ne end_l by (simp add: t_def header_def)
    ultimately have "append_space s bytes = rret (0, t)"
      "chain (blk t) 0xD0000000 (ys @ (True, n) # [(False, bytes - 16)]) (heap_end t) 0"
      using chain_join [of "blk t" "0xD0000000" ys l True n "[(False, bytes - 16)]" "heap_end t"] by auto
    moreover have "heap_head t = 0xD0000000" "heap_end t = heap_end s + bytes"
      "t = s\<lparr>blk := blk t, heap_head := heap_head t, heap_end := heap_end t\<rparr>" using h xs by (simp_all add: t_def)
    moreover have "add_space bytes xs = ys @ (True, n) # [(False, bytes - 16)]"
      using True by (simp add: add_space_def xs)
    ultimately show ?thesis by (intro exI [of _ t] conjI) simp_all
  qed
qed

lemma add_space_props:
  assumes "noadj xs" and "16 < bytes"
  shows "noadj (add_space bytes xs)" "seg_used (add_space bytes xs) = seg_used xs"
    "live a (add_space bytes xs) = live a xs" "add_space bytes xs \<noteq> []"
    "\<exists>n \<ge> bytes - 16. (False, n) \<in> set (add_space bytes xs)"
proof -
  consider "xs = []" | ys n where "xs = ys @ [(True, n)]" | ys n where "xs = ys @ [(False, n)]"
  proof (cases xs rule: rev_cases)
    case (snoc ys y)
    then show thesis using that(2,3) [of ys "snd y"] by (cases y; cases "fst y") auto
  qed (use that(1) in simp)
  then have "noadj (add_space bytes xs) \<and> seg_used (add_space bytes xs) = seg_used xs
    \<and> live a (add_space bytes xs) = live a xs \<and> add_space bytes xs \<noteq> []
    \<and> (bytes - 16 \<le> snd (last (add_space bytes xs)) \<and> \<not> fst (last (add_space bytes xs)))"
    using assms by cases (auto simp: add_space_def noadj_append)
  moreover from this have "(False, snd (last (add_space bytes xs))) \<in> set (add_space bytes xs)"
    using last_in_set [of "add_space bytes xs"] by (cases "last (add_space bytes xs)") auto
  ultimately show "noadj (add_space bytes xs)" "seg_used (add_space bytes xs) = seg_used xs"
    "live a (add_space bytes xs) = live a xs" "add_space bytes xs \<noteq> []"
    "\<exists>n \<ge> bytes - 16. (False, n) \<in> set (add_space bytes xs)" by blast+
qed

lemma heap_grow_ok:
  assumes inv: "heap_inv s xs" and sz: "sz \<le> 0x10000000"
  shows "\<exists>rc t ys. heap_grow s sz = rret (rc, t) \<and> heap_inv t ys \<and> heap_only s t
     \<and> live 0xD0000000 ys = live 0xD0000000 xs
     \<and> (rc = 0 \<longrightarrow> (\<exists>n \<ge> sz. (False, n) \<in> set ys))"
proof -
  define bytes where "bytes = grow_bytes sz"
  note B = grow_bytes_eq [OF sz, folded bytes_def]
  note D = heap_invD [OF inv]
  have lim: "sub32 (add32 0xD0000000 0x10000000) (heap_end s) = 0xE0000000 - heap_end s"
    using D(6) by (simp add: add32_exact sub32_exact)
  show ?thesis
  proof (cases "bytes > 0xE0000000 - heap_end s")
    case True
    then have "heap_grow s sz = rret (- 1, s)" using lim by (simp add: heap_grow_def Let_def bytes_def)
    then show ?thesis using inv by (intro exI [of _ "- 1"] exI [of _ s] exI [of _ xs]) (simp add: heap_only_def)
  next
    case False
    then have fit: "heap_end s + bytes \<le> 0xE0000000" using D(6) by simp
    define h where "h = heap_end s div 4096"
    define k where "k = bytes div 4096"
    have h: "heap_end s = 4096 * h" using D(7) by (auto simp: h_def)
    have k: "bytes = 4096 * k" using B(3) by (auto simp: k_def)
    define ps where "ps = [h ..< h + k]"
    have hb: "0xD0000 \<le> h" "h + k \<le> 0xE0000" using D(8) fit h k by auto
    have addrs: "map (\<lambda>j. add32 (heap_end s) (4096 * j)) [0 ..< k] = page_addrs ps"
    proof (rule nth_equalityI)
      fix j assume "j < length (map (\<lambda>j. add32 (heap_end s) (4096 * j)) [0 ..< k])"
      then have j: "j < k" by simp
      then have "add32 (heap_end s) (4096 * j) = 4096 * (h + j)" using h hb by (simp add: add32_exact)
      then show "map (\<lambda>j. add32 (heap_end s) (4096 * j)) [0 ..< k] ! j = page_addrs ps ! j"
        using j by (simp add: page_addrs_def ps_def)
    qed (simp add: page_addrs_def ps_def)
    have sub: "set ps \<subseteq> private_pages" "set ps \<subseteq> dynamic" "\<forall>q \<in> set ps. q < 0xE0000"
      using hb by (auto simp: ps_def private_pages_def dynamic_def)
    have none: "\<forall>p \<in> set ps. kview s p = None"
      using inv hb by (auto simp: heap_inv_def ps_def h_def)
    have dps: "distinct ps" by (simp add: ps_def)
    obtain b ds t rest where t: "back_pages back_page (page_addrs ps) [] s = rret (b, page_addrs (rev ds), t)"
        "kvm_inv t" "same_spaces s t" "ps = ds @ rest" "b \<longleftrightarrow> rest = []" "free_set t \<subseteq> free_set s"
      and vw: "\<And>q. q \<in> dynamic \<Longrightarrow>
          if q \<in> set ds then \<exists>f \<in> free_set s - free_set t. kview t q = Some f else kview t q = kview s q"
      using kpages.back_pages_ok [OF D(1) sub(2) dps none, of "[]"] by auto
    note ht = same_spaces_heap [OF t(3)]
    have away: "kview t q = kview s q" if "q \<in> dynamic" "0xE0000 \<le> q" for q
    proof -
      have "set ds \<subseteq> set ps" using t(4) by simp
      then have "q \<notin> set ds" using that(2) sub(3) not_le by blast
      then show ?thesis using vw [OF that(1)] by simp
    qed
    have start: "heap_grow s sz = (if b then append_space t bytes
        else rbind (unback_pages True unback_page (page_addrs (rev ds)) t) (\<lambda>u. rret (- 1, u)))"
      using False lim t(1) addrs by (simp add: heap_grow_def Let_def bytes_def [symmetric] k_def [symmetric])
    show ?thesis
    proof (cases b)
      case True
      have all: "ds = ps" using True t(4,5) by simp
      have b16: "16 < bytes" "bytes mod 16 = 0" using B(1) k by (cases k; simp)+
      obtain u where u: "append_space t bytes = rret (0, u)" "chain (blk u) 0xD0000000 (add_space bytes xs) (heap_end u) 0"
          "heap_head u = 0xD0000000" "heap_end u = heap_end s + bytes"
          "u = t\<lparr>blk := blk u, heap_head := heap_head u, heap_end := heap_end u\<rparr>"
        using append_space_ok [of t xs bytes] D(2,3) fit b16 ht by auto
      have uk: "kview u = kview t" "kvm_inv u \<longleftrightarrow> kvm_inv t" "used_bytes u = used_bytes t" by (subst u(5), simp)+
      have ho: "heap_only s u"
        using t(3,6) away unfolding heap_only_def by (subst (1 2 3 4 5 6 7) u(5)) (simp add: same_spaces_def ht uk)
      note A = add_space_props [OF D(4) b16(1)]
      have eu: "heap_end u = 4096 * (h + k)" using u(4) h k by simp
      have v1: "kview u p \<noteq> None" if "0xD0000 \<le> p" "p < h + k" for p
        using vw [of p] that inv hb all unfolding uk heap_inv_def h_def [symmetric]
        by (auto simp: ps_def dynamic_def split: if_splits)
      have v2: "kview u p = None" if "h + k \<le> p" "p < 0xE0000" for p
        using vw [of p] that inv hb all unfolding uk heap_inv_def h_def [symmetric]
        by (auto simp: ps_def dynamic_def split: if_splits)
      have "heap_inv u (add_space bytes xs)" (is ?hi)
        using u(2,3) A D(5) uk t(2) ht v1 v2 hb eu by (simp add: heap_inv_def heap_rep_def)
      moreover have "\<exists>n \<ge> sz. (False, n) \<in> set (add_space bytes xs)"
      proof -
        have "sz \<le> bytes - 16" using B(1) by simp
        then show ?thesis using A(5) order_trans by blast
      qed
      ultimately show ?thesis
        using start True u(1) A(3) ho by (intro exI [of _ 0] exI [of _ u] exI [of _ "add_space bytes xs"]) auto
    next
      case False
      have dd: "set (rev ds) \<subseteq> private_pages" "distinct (rev ds)" "set (rev ds) \<subseteq> dynamic"
        using t(4) sub dps by auto
      have dv: "\<forall>p \<in> set (rev ds). kview t p \<noteq> None"
      proof
        fix p assume "p \<in> set (rev ds)"
        then show "kview t p \<noteq> None" using vw [of p] dd(3) by auto
      qed
      from kpages.unback_pages_ok [OF t(2) dd(1,2) dv, of True] obtain u where
        u: "unback_pages True unback_page (page_addrs (rev ds)) t = rret u" "kvm_inv u" "same_spaces t u"
          "\<forall>q \<in> dynamic. kview u q = (if q \<in> set (rev ds) then None else kview t q)"
          "free_set u = free_set t \<union> {f. \<exists>p \<in> set (rev ds). kview t p = Some f}" by blast
      note hu = same_spaces_heap [OF u(3)]
      have kv: "kview u q = kview s q" if "q \<in> dynamic" for q
        using u(4) vw [OF that] that none t(4) by (auto split: if_splits)
      have "f \<in> free_set s" if "p \<in> set (rev ds)" "kview t p = Some f" for p f
        using vw [of p] that dd(3) by auto
      then have "free_set u \<subseteq> free_set s" using u(5) t(6) by auto
      then have ho: "heap_only s u"
        using t(3) u(3) kv hu ht by (auto simp: heap_only_def same_spaces_def)
      have hb2: "h \<le> 0xE0000" using hb by simp
      have "heap_inv u xs"
        using inv u(2) hu ht kv hb2 hb(1) unfolding heap_inv_def heap_rep_def h_def
        by (auto simp: dynamic_def)
      then show ?thesis using start False u(1) ho by (intro exI [of _ "- 1"] exI [of _ u] exI [of _ xs]) simp
    qed
  qed
qed

section \<open>The operations\<close>

lemma round16_eq:
  assumes "0 < n" and "n \<le> 0x10000000"
  shows "n \<le> round16 n" "0 < round16 n" "round16 n mod 16 = 0" "round16 n \<le> 0x10000000"
proof -
  have r: "round16 n = (n + 15) div 16 * 16" using assms by (simp add: round16_def add32_exact)
  have "n + 15 = (n + 15) div 16 * 16 + (n + 15) mod 16" "(n + 15) mod 16 < 16" by simp_all
  then show n: "n \<le> round16 n" unfolding r by linarith
  with assms show "0 < round16 n" by simp
  show "round16 n mod 16 = 0" by (simp add: r)
  have "(n + 15) div 16 \<le> (0x10000000 + 15) div 16" using assms(2) by (intro div_le_mono) simp
  then show "round16 n \<le> 0x10000000" by (simp add: r)
qed

lemma kmalloc_ok:
  assumes inv: "heap_inv s xs"
  shows "\<exists>p t ys. kmalloc s n = rret (p, t) \<and> heap_inv t ys \<and> heap_only s t
     \<and> (p = 0 \<and> live 0xD0000000 ys = live 0xD0000000 xs
        \<or> p \<noteq> 0 \<and> p mod 16 = 0 \<and> 0 < n \<and> (\<exists>k \<ge> n. (p, k) \<notin> live 0xD0000000 xs
             \<and> live 0xD0000000 ys = insert (p, k) (live 0xD0000000 xs)))"
proof (cases "n = 0 \<or> n > 0x10000000")
  case True
  then have "kmalloc s n = rret (0, s)" by (simp add: kmalloc_def)
  moreover have "heap_only s s" by (simp add: heap_only_def)
  ultimately show ?thesis using inv by blast
next
  case False
  define m where "m = round16 n"
  have m: "n \<le> m" "0 < m" "m mod 16 = 0" "m \<le> 0x10000000" using round16_eq [of n] False by (auto simp: m_def)
  have start: "kmalloc s n = rbind (take_first_fit s m) (\<lambda>(p, s1). if p \<noteq> 0 then rret (p, s1)
      else rbind (heap_grow s1 m) (\<lambda>(rc, s2). if rc = 0 then take_first_fit s2 m else rret (0, s2)))"
    using False by (simp add: kmalloc_def Let_def m_def cong: if_cong)
  have got: ?thesis
    if t: "kmalloc s n = rret (p, t)" "heap_inv t ys" "heap_only s t" "p mod 16 = 0" "p \<noteq> 0" "m \<le> k"
      "(p, k) \<notin> live 0xD0000000 xs" "live 0xD0000000 ys = insert (p, k) (live 0xD0000000 xs)" for p t ys k
  proof -
    have "n \<le> k" "0 < n" using that(6) m(1) False by auto
    with t show ?thesis
      by (intro exI [of _ p] exI [of _ t] exI [of _ ys] conjI disjI2 exI [of _ k]) simp_all
  qed
  from take_first_fit_ok [OF inv m(2,3,4)] show ?thesis
  proof
    assume "\<exists>p t ys k. take_first_fit s m = rret (p, t) \<and> heap_inv t ys \<and> heap_only s t \<and> p mod 16 = 0 \<and> p \<noteq> 0 \<and> m \<le> k
         \<and> (p, k) \<notin> live 0xD0000000 xs \<and> live 0xD0000000 ys = insert (p, k) (live 0xD0000000 xs)"
    then show ?thesis using got start by fastforce
  next
    assume none: "take_first_fit s m = rret (0, s) \<and> (\<forall>(u, n) \<in> set xs. u \<or> n < m)"
    from heap_grow_ok [OF inv m(4)] obtain rc t ys where
      g: "heap_grow s m = rret (rc, t)" "heap_inv t ys" "live 0xD0000000 ys = live 0xD0000000 xs"
        "rc = 0 \<longrightarrow> (\<exists>n \<ge> m. (False, n) \<in> set ys)" "heap_only s t" by blast
    show ?thesis
    proof (cases "rc = 0")
      case False
      then have "kmalloc s n = rret (0, t)" using start none g(1) by simp
      then show ?thesis using g(2,3,5) by blast
    next
      case True
      then have k: "kmalloc s n = take_first_fit t m" using start none g(1) by simp
      obtain j where "j \<ge> m" "(False, j) \<in> set ys" using g(4) True by blast
      then have "\<not> (\<forall>(u, n) \<in> set ys. u \<or> n < m)" by fastforce
      with take_first_fit_ok [OF g(2) m(2,3,4)] obtain p u zs k where
        "take_first_fit t m = rret (p, u)" "heap_inv u zs" "heap_only t u" "p mod 16 = 0" "p \<noteq> 0" "m \<le> k"
        "(p, k) \<notin> live 0xD0000000 ys" "live 0xD0000000 zs = insert (p, k) (live 0xD0000000 ys)" by metis
      then show ?thesis using got [of p u zs k] k g(3) heap_only_trans [OF g(5)] by simp
    qed
  qed
qed

lemma kfree_ok:
  assumes inv: "heap_inv s xs" and p: "(p, k) \<in> live 0xD0000000 xs"
  shows "\<exists>t ys. kfree s p = rret t \<and> heap_inv t ys \<and> live 0xD0000000 ys = live 0xD0000000 xs - {(p, k)}
     \<and> kfree t p = rpanic ''kfree: double free'' \<and> heap_only s t"
proof -
  from live_split [OF p] obtain ys zs where x: "xs = ys @ (True, k) # zs" "p = 0xD0000000 + seg_len ys + 16" by blast
  define b where "b = 0xD0000000 + seg_len ys"
  note D = heap_invD [OF inv]
  note c = chain_split [OF D(3) [unfolded x(1)] b_def]
  have al: "p mod 16 = 0" using chain_align [OF c(1)] x(2) by simp presburger
  have pb: "p = b + 16" "p - 16 = b" using x(2) by (simp_all add: b_def)
  have hb: "magic (blk s b) = MAGIC_USED" "bsize (blk s b) = k" "0 < k" using c(2) by (auto simp: header_def)
  have lim: "p < heap_end s" "p \<ge> 0xD0000010" using c(4) pb hb(3) by (auto simp: b_def)
  define s2 where "s2 = s\<lparr>blk := (blk s)(b := (blk s b)\<lparr>magic := MAGIC_FREE\<rparr>), used_bytes := used_bytes s - k\<rparr>"
  have ub: "seg_used xs = seg_used ys + k + seg_used zs" using x(1) by simp
  have "sub32 (used_bytes s) k = used_bytes s - k"
    using D(5) ub heap_end_bound(2) [OF inv] by (simp add: sub32_exact)
  then have start: "kfree s p = coalesce_from s2 (heap_head s2)"
    using lim al hb pb by (simp add: kfree_def Let_def upd_blk_def s2_def)
  let ?xs = "ys @ (False, k) # zs"
  have "chain (blk s2) 0xD0000000 ys b b" using c(1) by (rule chain_cong) (simp add: s2_def)
  moreover have "chain (blk s2) (b + 16 + k) zs (heap_end s) 0" by (rule chain_cong [OF c(3)]) (simp add: s2_def)
  moreover have "header (blk s2 b) False k (if zs = [] then 0 else b + 16 + k)"
    using c(2) by (simp add: s2_def header_def)
  ultimately have ch: "chain (blk s2) 0xD0000000 ?xs (heap_end s) 0" by (intro chain_join)
  have hd2: "heap_head s2 = (if ?xs = [] then 0 else 0xD0000000)" using D(2) x(1) by (simp add: s2_def)
  from coalesce_from_ok [OF ch _ heap_end_bound(1) [OF inv]] obtain t where
    t: "coalesce_from s2 (heap_head s2) = rret t" "chain (blk t) 0xD0000000 (acoal ?xs) (heap_end s) 0"
      "t = s2\<lparr>blk := blk t\<rparr>" "\<forall>b. magic (blk t b) = magic (blk s2 b)" unfolding hd2 by auto
  have "magic (blk t b) = MAGIC_FREE" using t(4) by (simp add: s2_def)
  moreover have "heap_end t = heap_end s" by (subst t(3)) (simp add: s2_def)
  ultimately have twice: "kfree t p = rpanic ''kfree: double free''"
    using lim al pb by (simp add: kfree_def)
  have "used_bytes t = used_bytes s - k" by (subst t(3)) (simp add: s2_def)
  moreover have sv: "same_vm s t" unfolding same_vm_def by (subst (1) t(3)) (simp add: s2_def calculation)
  ultimately have "heap_inv t (acoal ?xs)"
    using t(2) D(5) ub x(1) by (intro heap_inv_list [OF inv]) (simp_all add: acoal_noadj acoal_keeps)
  moreover have "(p, k) \<notin> live 0xD0000000 ys" "(p, k) \<notin> live (b + 16 + k) zs"
    using live_bounds [of p k "0xD0000000" ys] live_bounds [of p k "b + 16 + k" zs] pb by (auto simp: b_def)
  then have "live 0xD0000000 (acoal ?xs) = live 0xD0000000 xs - {(p, k)}"
    using x(1) pb by (auto simp: acoal_keeps b_def add.assoc)
  ultimately show ?thesis using start t(1) twice same_vm_heap_only [OF sv] by metis
qed

lemma heap_check_ok:
  assumes "heap_inv s xs"
  shows "heap_check s = Some 0"
  using check_from_chain [OF heap_invD(3,4) [OF assms] _ heap_end_bound(1) [OF assms]] heap_invD(2) [OF assms]
  by (simp add: heap_check_def)

section \<open>The contract of the heap\<close>

text \<open>
  What users of the heap rely on. \<open>inv s L\<close> says that the live blocks, with their sizes, are
  \<open>L\<close>. \<open>heap_run\<close> is any sequence of requests by users that free only what they hold.
\<close>

datatype heap_op = KMalloc nat | KFree nat

fun heap_run :: "('s \<Rightarrow> nat \<Rightarrow> (nat \<times> 's) run) \<Rightarrow> ('s \<Rightarrow> nat \<Rightarrow> 's run) \<Rightarrow> 's \<Rightarrow> (nat \<times> nat) list \<Rightarrow>
    heap_op list \<Rightarrow> ('s \<times> (nat \<times> nat) list) run" where
  "heap_run alloc release s held [] = rret (s, held)"
| "heap_run alloc release s held (KMalloc n # ops) =
     rbind (alloc s n) (\<lambda>(p, t). heap_run alloc release t (if p = 0 then held else (p, n) # held) ops)"
| "heap_run alloc release s held (KFree p # ops) =
     (if p \<in> fst ` set held
      then rbind (release s p) (\<lambda>t. heap_run alloc release t (filter (\<lambda>x. fst x \<noteq> p) held) ops)
      else heap_run alloc release s held ops)"

definition apart :: "(nat \<times> nat) list \<Rightarrow> bool" where
  "apart held \<longleftrightarrow> distinct (map fst held)
     \<and> (\<forall>x \<in> set held. \<forall>y \<in> set held. fst x \<noteq> fst y \<longrightarrow>
          fst x + snd x \<le> fst y \<or> fst y + snd y \<le> fst x)"

definition held_of :: "(nat \<times> nat) list \<Rightarrow> (nat \<times> nat) set \<Rightarrow> bool" where
  "held_of held L \<longleftrightarrow> distinct (map fst held) \<and> fst ` set held = fst ` L
     \<and> (\<forall>x \<in> set held. \<exists>k \<ge> snd x. (fst x, k) \<in> L)"

locale block_allocator =
  fixes inv :: "'s \<Rightarrow> (nat \<times> nat) set \<Rightarrow> bool"
    and alloc :: "'s \<Rightarrow> nat \<Rightarrow> (nat \<times> 's) run"
    and release :: "'s \<Rightarrow> nat \<Rightarrow> 's run"
  assumes alloc_law: "inv s L \<Longrightarrow> \<exists>p t L'. alloc s n = rret (p, t) \<and> inv t L'
      \<and> (p = 0 \<and> L' = L \<or> p \<noteq> 0 \<and> (\<exists>k \<ge> n. (p, k) \<notin> L \<and> L' = insert (p, k) L))"
    and release_law: "inv s L \<Longrightarrow> (p, k) \<in> L \<Longrightarrow> \<exists>t. release s p = rret t \<and> inv t (L - {(p, k)})"
    and apart_law: "inv s L \<Longrightarrow> (p, k) \<in> L \<Longrightarrow> (q, j) \<in> L \<Longrightarrow> (p, k) \<noteq> (q, j) \<Longrightarrow> p \<noteq> q \<and> (p + k \<le> q \<or> q + j \<le> p)"
begin

lemma run_ok:
  "inv s L \<Longrightarrow> held_of held L \<Longrightarrow> \<exists>t held' L'. heap_run alloc release s held ops = rret (t, held')
     \<and> inv t L' \<and> held_of held' L'"
proof (induction ops arbitrary: s L held)
  case (Cons op ops)
  show ?case
  proof (cases op)
    case (KMalloc n)
    from alloc_law [OF Cons.prems(1), of n] obtain p t L' where
      t: "alloc s n = rret (p, t)" "inv t L'"
        "p = 0 \<and> L' = L \<or> p \<noteq> 0 \<and> (\<exists>k \<ge> n. (p, k) \<notin> L \<and> L' = insert (p, k) L)" by blast
    have "held_of (if p = 0 then held else (p, n) # held) L'"
    proof (cases "p = 0")
      case False
      with t(3) obtain k where k: "k \<ge> n" "(p, k) \<notin> L" "L' = insert (p, k) L" by blast
      have "p \<notin> fst ` L" using apart_law [OF t(2), of p k p] k by force
      then show ?thesis using Cons.prems(2) k False by (auto simp: held_of_def)
    qed (use t(3) Cons.prems(2) in simp)
    from Cons.IH [OF t(2) this] show ?thesis using t(1) KMalloc by simp
  next
    case (KFree p)
    show ?thesis
    proof (cases "p \<in> fst ` set held")
      case False
      then show ?thesis using Cons.IH [OF Cons.prems] KFree by simp
    next
      case True
      then obtain k where k: "(p, k) \<in> L" using Cons.prems(2) by (force simp: held_of_def)
      from release_law [OF Cons.prems(1) k] obtain t where t: "release s p = rret t" "inv t (L - {(p, k)})" by blast
      have uniq: "j = k" if "(p, j) \<in> L" for j using apart_law [OF Cons.prems(1) that k] by blast
      have fstL: "fst ` (L - {(p, k)}) = fst ` L - {p}"
      proof
        show "fst ` (L - {(p, k)}) \<subseteq> fst ` L - {p}" using uniq by auto
        show "fst ` L - {p} \<subseteq> fst ` (L - {(p, k)})"
        proof
          fix x assume "x \<in> fst ` L - {p}"
          then obtain y where "(x, y) \<in> L" "x \<noteq> p" by auto
          then show "x \<in> fst ` (L - {(p, k)})" by (intro image_eqI [of _ _ "(x, y)"]) auto
        qed
      qed
      have "held_of (filter (\<lambda>x. fst x \<noteq> p) held) (L - {(p, k)})"
        unfolding held_of_def fstL
      proof (intro conjI ballI)
        show "distinct (map fst (filter (\<lambda>x. fst x \<noteq> p) held))"
          using Cons.prems(2) by (simp add: held_of_def distinct_map_filter)
        show "fst ` set (filter (\<lambda>x. fst x \<noteq> p) held) = fst ` L - {p}"
          using Cons.prems(2) by (auto simp: held_of_def)
        fix x assume "x \<in> set (filter (\<lambda>x. fst x \<noteq> p) held)"
        then have x: "x \<in> set held" "fst x \<noteq> p" by auto
        then obtain j where "j \<ge> snd x" "(fst x, j) \<in> L" using Cons.prems(2) by (auto simp: held_of_def)
        then show "\<exists>j \<ge> snd x. (fst x, j) \<in> L - {(p, k)}" using x(2) by blast
      qed
      from Cons.IH [OF t(2) this] show ?thesis using t(1) KFree True by simp
    qed
  qed
qed auto

lemma held_apart:
  assumes "inv s L" and "held_of held L"
  shows "apart held"
  unfolding apart_def
proof (intro conjI ballI impI)
  show "distinct (map fst held)" using assms(2) by (simp add: held_of_def)
  fix x y
  assume xy: "x \<in> set held" "y \<in> set held" "fst x \<noteq> fst y"
  then obtain k j where k: "snd x \<le> k" "(fst x, k) \<in> L" and j: "snd y \<le> j" "(fst y, j) \<in> L"
    using assms(2) by (meson held_of_def)
  then show "fst x + snd x \<le> fst y \<or> fst y + snd y \<le> fst x"
    using apart_law [OF assms(1) k(2) j(2)] xy(3) by auto
qed

end

interpretation kheap: block_allocator "\<lambda>s L. \<exists>xs. heap_inv s xs \<and> L = live 0xD0000000 xs" kmalloc kfree
proof unfold_locales
  fix s :: "'a heap_scheme" and L n p k q j
  assume "\<exists>xs. heap_inv s xs \<and> L = live 0xD0000000 xs"
  then obtain xs where xs: "heap_inv s xs" "L = live 0xD0000000 xs" by blast
  show "\<exists>p t L'. kmalloc s n = rret (p, t) \<and> (\<exists>xs. heap_inv t xs \<and> L' = live 0xD0000000 xs)
      \<and> (p = 0 \<and> L' = L \<or> p \<noteq> 0 \<and> (\<exists>k \<ge> n. (p, k) \<notin> L \<and> L' = insert (p, k) L))"
    using kmalloc_ok [OF xs(1), of n] xs(2) by blast
  assume p: "(p, k) \<in> L"
  show "\<exists>t. kfree s p = rret t \<and> (\<exists>xs. heap_inv t xs \<and> L - {(p, k)} = live 0xD0000000 xs)"
    using kfree_ok [OF xs(1), of p k] p xs(2) by blast
  assume q: "(q, j) \<in> L" "(p, k) \<noteq> (q, j)"
  show "p \<noteq> q \<and> (p + k \<le> q \<or> q + j \<le> p)"
    using live_disjoint [of p k "0xD0000000" xs q j] p q xs(2) by auto
qed

section \<open>Properties\<close>

lemma heap_init_inv:
  assumes "kvm_inv s" and "\<forall>p. 0xD0000 \<le> p \<and> p < 0xE0000 \<longrightarrow> kview s p = None" and "used_bytes s = 0"
  shows "heap_inv (heap_init s) []"
  using assms by (simp add: heap_inv_def heap_rep_def heap_init_def)

text \<open>The machine of eight frames with an empty heap.\<close>

definition heap_small :: heap where
  "heap_small = \<lparr>bitmap_at = 0xC0100000, bitmap = [0xFFFFFF03], frame_count = 8, word_count = 1,
     search_hint = 0, free_count = 6, usable_count = 7,
     pages = (\<lambda>f i. if f = 1 \<and> (i = 1022 \<or> i = 1023) then self_entry 1 else 0),
     kernel_space = \<lparr>as_at = 0xC0200000, pd_phys = 4096, as_pd = 0xC0001000\<rparr>,
     all_spaces = [\<lparr>as_at = 0xC0200000, pd_phys = 4096, as_pd = 0xC0001000\<rparr>],
     active = \<lparr>as_at = 0xC0200000, pd_phys = 4096, as_pd = 0xC0001000\<rparr>,
     blk = (\<lambda>_. \<lparr>magic = 0, bsize = 0, next_block = 0\<rparr>), heap_head = 0, heap_end = 0, used_bytes = 0\<rparr>"

lemma heap_small_inv:
  "kvm_inv heap_small" "\<forall>p. 0xD0000 \<le> p \<and> p < 0xE0000 \<longrightarrow> kview heap_small p = None" "used_bytes heap_small = 0"
proof -
  have p: "pmm_inv heap_small"
    by (simp add: pmm_inv_exec heap_small_def is_used_def count_free_def upt_rec)
  have t: "\<not> has_table heap_small a i" for a i
    by (auto simp: has_table_def heap_small_def pd_of_def pd_frame_def present_def)
  have "1 \<notin> free_set heap_small" by (simp add: free_set_def heap_small_def is_used_def)
  then have "space_ok heap_small \<lparr>as_at = 0xC0200000, pd_phys = 4096, as_pd = 0xC0001000\<rparr>"
    by (simp add: space_ok_def heap_small_def pd_of_def pd_frame_def)
  with p t have v: "vmm_inv heap_small" by (simp add: vmm_inv_def) (simp add: heap_small_def)
  have k: "kview heap_small p = None" if "p < 0xFF800" for p
  proof -
    have "p div 1024 < 1022" using that by simp
    then show ?thesis by (simp add: kview_def lookup_def heap_small_def pd_of_def pd_frame_def present_def)
  qed
  then show "kvm_inv heap_small" using v t by (simp add: kvm_inv_def owned_def dynamic_def)
  show "\<forall>p. 0xD0000 \<le> p \<and> p < 0xE0000 \<longrightarrow> kview heap_small p = None" using k by simp
  show "used_bytes heap_small = 0" by (simp add: heap_small_def)
qed

text \<open>
  C2. Starting from a freshly initialised heap, any sequence of allocations and of frees of
  blocks still held returns without a panic; the blocks held at any time are pairwise
  disjoint and as large as requested, and the heap's own consistency check succeeds.
\<close>

theorem heap_never_corrupt:
  assumes "kvm_inv s" and "\<forall>p. 0xD0000 \<le> p \<and> p < 0xE0000 \<longrightarrow> kview s p = None" and "used_bytes s = 0"
  shows "\<exists>t held. heap_run kmalloc kfree (heap_init s) [] ops = rret (t, held) \<and> apart held
     \<and> heap_check t = Some 0"
proof -
  have "held_of [] (live 0xD0000000 [])" by (simp add: held_of_def)
  with kheap.run_ok [of "heap_init s" "live 0xD0000000 []" "[]" ops] heap_init_inv [OF assms]
  obtain t held xs where "heap_run kmalloc kfree (heap_init s) [] ops = rret (t, held)"
    "heap_inv t xs" "held_of held (live 0xD0000000 xs)" by blast
  then show ?thesis using kheap.held_apart heap_check_ok by blast
qed

theorem heap_never_corrupt_witness:
  "\<exists>t held. heap_run kmalloc kfree (heap_init heap_small) [] [KMalloc 100, KMalloc 5000, KFree 0xD0000010]
     = rret (t, held) \<and> apart held \<and> heap_check t = Some 0"
  by (rule heap_never_corrupt [OF heap_small_inv])

text \<open>
  C19. An allocation always returns: null, with the live blocks unchanged, or a 16-byte
  aligned pointer to a block of at least the requested size that joins the live blocks.
\<close>

theorem kmalloc_spec:
  assumes "heap_inv s xs"
  shows "\<exists>p t ys. kmalloc s n = rret (p, t) \<and> heap_inv t ys
     \<and> (p = 0 \<and> live 0xD0000000 ys = live 0xD0000000 xs
        \<or> p \<noteq> 0 \<and> p mod 16 = 0 \<and> 0 < n \<and> (\<exists>k \<ge> n. (p, k) \<notin> live 0xD0000000 xs
             \<and> live 0xD0000000 ys = insert (p, k) (live 0xD0000000 xs)))"
  using kmalloc_ok [OF assms, of n] by (elim exE conjE) (intro exI conjI)

theorem kmalloc_spec_witness:
  "\<exists>p t ys. kmalloc (heap_init heap_small) 100 = rret (p, t) \<and> heap_inv t ys \<and> p mod 16 = 0"
  using kmalloc_spec [OF heap_init_inv [OF heap_small_inv], of 100] by force

text \<open>
  C21. Freeing a live block removes exactly that block from the live ones and joins it with
  its free neighbours; freeing the same pointer again at once is a double-free panic.
\<close>

theorem kfree_spec:
  assumes "heap_inv s xs" and "(p, k) \<in> live 0xD0000000 xs"
  shows "\<exists>t ys. kfree s p = rret t \<and> heap_inv t ys \<and> live 0xD0000000 ys = live 0xD0000000 xs - {(p, k)}
     \<and> kfree t p = rpanic ''kfree: double free''"
  using kfree_ok [OF assms] by blast


text \<open>The same machine with one heap page, in frame 3 through table frame 2, all in use.\<close>

definition heap_one :: heap where
  "heap_one = heap_small\<lparr>bitmap := [0xFFFFFF0F], free_count := 4,
     pages := (\<lambda>f i. if f = 1 \<and> (i = 1022 \<or> i = 1023) then self_entry 1
                     else if f = 1 \<and> i = 832 then 0x2003 else if f = 2 \<and> i = 0 then 0x3003 else 0),
     blk := (\<lambda>_. \<lparr>magic = MAGIC_USED, bsize = 4080, next_block = 0\<rparr>),
     heap_head := 0xD0000000, heap_end := 0xD0001000, used_bytes := 4080\<rparr>"

lemma heap_one_inv: "heap_inv heap_one [(True, 4080)]"
proof -
  let ?a = "\<lparr>as_at = 0xC0200000, pd_phys = 4096, as_pd = 0xC0001000\<rparr> :: address_space"
  have p: "pmm_inv heap_one"
    by (simp add: pmm_inv_exec heap_one_def heap_small_def is_used_def count_free_def upt_rec)
  have free: "1 \<notin> free_set heap_one" "2 \<notin> free_set heap_one" "3 \<notin> free_set heap_one"
    by (simp_all add: free_set_def heap_one_def heap_small_def is_used_def)
  have sp: "all_spaces heap_one = [?a]" "kernel_space heap_one = ?a" "active heap_one = ?a" "frame_count heap_one = 8"
    by (simp_all add: heap_one_def heap_small_def)
  have t: "has_table heap_one a i \<longleftrightarrow> a = ?a \<and> i = 832" for a i
    by (auto simp: has_table_def heap_one_def heap_small_def pd_of_def pd_frame_def present_def)
  have tab: "table_of heap_one ?a 832 = 2"
    by (simp add: table_of_def pd_of_def pd_frame_def entry_frame_def heap_one_def heap_small_def)
  have "table_ok heap_one ?a 832" using free by (simp add: table_ok_def tab sp pd_frame_def)
  moreover have "space_ok heap_one ?a"
    using free(1) by (simp add: space_ok_def heap_one_def heap_small_def pd_of_def pd_frame_def)
  ultimately have v: "vmm_inv heap_one" using p t by (simp add: vmm_inv_def sp pd_frame_def)
  have k: "kview heap_one q = (if q = 0xD0000 then Some 3 else None)" if "q < 0xFF800" for q
  proof -
    have q: "q div 1024 < 1022" using that by simp
    have "q = 0xD0000 \<longleftrightarrow> q div 1024 = 832 \<and> q mod 1024 = 0"
      using div_mult_mod_eq [of q 1024] by auto
    then show ?thesis
      using q t [of ?a "q div 1024"] tab
      by (cases "q div 1024 = 832") (auto simp: kview_def lookup_def sp has_table_def entry_frame_def
        heap_one_def heap_small_def present_def pd_frame_def)
  qed
  have "owned heap_one" using k free t tab by (auto simp: owned_def dynamic_def sp pd_frame_def split: if_splits)
  then show ?thesis
    using v k by (auto simp: heap_inv_def kvm_inv_def heap_rep_def heap_one_def header_def split: if_splits)
qed

theorem kfree_spec_witness:
  "\<exists>t ys. kfree heap_one 0xD0000010 = rret t \<and> heap_inv t ys \<and> live 0xD0000000 ys = {}"
  using kfree_spec [OF heap_one_inv, of "0xD0000010" 4080] by auto

end
