(* ===== verification/Kstack.thy ===== *)
theory Kstack
  imports Heap
begin

text \<open>
  Kernel thread stacks, \<open>zkt/mm/kstack.c\<close>: fixed slots of two stack pages above a guard page
  that is never mapped, so that an overflow faults. The state extends the heap's with the
  file's table of used slots.
\<close>

section \<open>Model\<close>

definition SLOT_COUNT :: nat where "SLOT_COUNT = 0x1000000 div (3 * 4096)"

lemma SLOT_COUNT_value [simp]: "SLOT_COUNT = 1365"
  by (simp add: SLOT_COUNT_def)

record stacks = heap +
  slot_used :: "bool list"

definition slot_stack_base :: "nat \<Rightarrow> nat" where
  "slot_stack_base slot = add32 (add32 0xE1000000 (slot * (3 * 4096))) 4096"

definition unmap_and_free :: "'a vmm_scheme \<Rightarrow> nat \<Rightarrow> nat \<Rightarrow> 'a vmm_scheme run" where
  "unmap_and_free s base n =
     unback_pages False unback_page (map (\<lambda>i. add32 base (4096 * i)) [0 ..< n]) s"

definition map_stack :: "'a vmm_scheme \<Rightarrow> nat \<Rightarrow> (bool \<times> 'a vmm_scheme) run" where
  "map_stack s base =
     rbind (back_pages back_page (map (\<lambda>i. add32 base (4096 * i)) [0 ..< 2]) [] s) (\<lambda>(ok, mapped, s1).
       if ok then rret (True, s1)
       else rbind (unmap_and_free s1 base (length mapped)) (\<lambda>s2. rret (False, s2)))"

text \<open>The first slot that is not used, from \<open>i\<close> on.\<close>

fun first_unused :: "bool list \<Rightarrow> nat \<Rightarrow> nat option" where
  "first_unused [] i = None"
| "first_unused (u # us) i = (if u then first_unused us (i + 1) else Some i)"

definition kstack_alloc :: "'a stacks_scheme \<Rightarrow> (nat \<times> 'a stacks_scheme) run" where
  "kstack_alloc s =
     (case first_unused (slot_used s) 0 of
        None \<Rightarrow> rret (0, s)
      | Some slot \<Rightarrow>
          rbind (map_stack s (slot_stack_base slot)) (\<lambda>(ok, s1).
            if ok then rret (add32 (slot_stack_base slot) 8192, s1\<lparr>slot_used := (slot_used s1)[slot := True]\<rparr>)
            else rret (0, s1)))"

definition kstack_free :: "'a stacks_scheme \<Rightarrow> nat \<Rightarrow> 'a stacks_scheme run" where
  "kstack_free s stack_top =
     (let offset = sub32 (sub32 (sub32 stack_top 8192) 4096) 0xE1000000;
          slot = offset div (3 * 4096)
      in if stack_top < 0xE1000000 + 3 * 4096 \<or> offset mod (3 * 4096) \<noteq> 0
           \<or> slot \<ge> SLOT_COUNT \<or> \<not> slot_used s ! slot
         then rpanic ''kstack_free: not the top of a live kernel stack''
         else rbind (unmap_and_free s (slot_stack_base slot) 2) (\<lambda>s1.
                rret (s1\<lparr>slot_used := (slot_used s1)[slot := False]\<rparr>)))"

section \<open>Invariant\<close>

text \<open>
  The pages of a used slot's stack are backed, those of a free slot are not, and no guard
  page is.
\<close>

definition guard_page :: "nat \<Rightarrow> nat" where
  "guard_page slot = 0xE1000 + 3 * slot"

definition stacks_inv :: "'a stacks_scheme \<Rightarrow> bool" where
  "stacks_inv s \<longleftrightarrow> kvm_inv s \<and> length (slot_used s) = SLOT_COUNT
     \<and> (\<forall>slot < SLOT_COUNT. kview s (guard_page slot) = None
          \<and> (\<forall>j \<in> {1, 2}. kview s (guard_page slot + j) \<noteq> None \<longleftrightarrow> slot_used s ! slot))"

lemma slot_addrs:
  assumes "slot < SLOT_COUNT"
  shows "slot_stack_base slot = 4096 * (guard_page slot + 1)"
    "n \<le> 2 \<Longrightarrow> map (\<lambda>i. add32 (slot_stack_base slot) (4096 * i)) [0 ..< n]
       = page_addrs (map (\<lambda>i. guard_page slot + 1 + i) [0 ..< n])"
    "add32 (slot_stack_base slot) 8192 = 4096 * (guard_page slot + 3)"
proof -
  show b: "slot_stack_base slot = 4096 * (guard_page slot + 1)"
    using assms by (simp add: slot_stack_base_def guard_page_def add32_exact)
  show "add32 (slot_stack_base slot) 8192 = 4096 * (guard_page slot + 3)"
    using assms unfolding b by (simp add: guard_page_def add32_exact)
  have "add32 (4096 * (guard_page slot + 1)) (4096 * i) = 4096 * (guard_page slot + 1 + i)" if "i < 2" for i
    using assms that by (simp add: guard_page_def add32_exact)
  then show "n \<le> 2 \<Longrightarrow> map (\<lambda>i. add32 (slot_stack_base slot) (4096 * i)) [0 ..< n]
       = page_addrs (map (\<lambda>i. guard_page slot + 1 + i) [0 ..< n])"
    unfolding b page_addrs_def by (simp add: comp_def)
qed

lemma slot_pages_private:
  "slot < SLOT_COUNT \<Longrightarrow> j \<le> 2 \<Longrightarrow> guard_page slot + j \<in> private_pages"
  by (simp add: guard_page_def private_pages_def)

lemma slot_pages_dynamic:
  "slot < SLOT_COUNT \<Longrightarrow> j \<le> 2 \<Longrightarrow> guard_page slot + j \<in> dynamic"
  by (simp add: guard_page_def dynamic_def)

lemma slot_pages_distinct:
  "guard_page a + i = guard_page b + j \<Longrightarrow> i \<le> 2 \<Longrightarrow> j \<le> 2 \<Longrightarrow> a = b \<and> i = j"
  by (simp add: guard_page_def) presburger

lemma first_unused_Some:
  "first_unused us i = Some k \<Longrightarrow> i \<le> k \<and> k < i + length us \<and> \<not> us ! (k - i)"
proof (induction us i rule: first_unused.induct)
  case (2 u us i)
  then show ?case by (cases u) (fastforce simp: nth_Cons' Suc_diff_le)+
qed simp

lemma same_spaces_stacks:
  fixes s t :: "'a stacks_scheme"
  assumes "same_spaces s t"
  shows "slot_used t = slot_used s"
  using assms by (cases s; cases t; simp add: same_spaces_def)

lemma stacks_upd [simp]:
  "kview (s\<lparr>slot_used := u\<rparr>) = kview s" "kvm_inv (s\<lparr>slot_used := u\<rparr>) \<longleftrightarrow> kvm_inv s"
  "free_set (s\<lparr>slot_used := u\<rparr>) = free_set s"
  by (simp_all add: kview_def lookup_def kvm_unfold fun_eq_iff)

section \<open>Allocation and release\<close>

lemma stack_vas: "slot < SLOT_COUNT \<Longrightarrow> map (\<lambda>i. guard_page slot + 1 + i) [0 ..< 2] = [guard_page slot + 1, guard_page slot + 2]"
  by (simp add: upt_rec)

lemma stacks_invD:
  assumes "stacks_inv s"
  shows "kvm_inv s" "length (slot_used s) = SLOT_COUNT"
    "\<And>slot. slot < SLOT_COUNT \<Longrightarrow> kview s (guard_page slot) = None"
    "\<And>slot. slot < SLOT_COUNT \<Longrightarrow> kview s (guard_page slot + 1) \<noteq> None \<longleftrightarrow> slot_used s ! slot"
    "\<And>slot. slot < SLOT_COUNT \<Longrightarrow> kview s (guard_page slot + 2) \<noteq> None \<longleftrightarrow> slot_used s ! slot"
  using assms unfolding stacks_inv_def by blast+

text \<open>A change of one slot's stack pages alone keeps the invariant.\<close>

lemma stacks_inv_slot:
  fixes s t :: "'a stacks_scheme"
  assumes inv: "stacks_inv s" and t: "kvm_inv t" "slot_used t = (slot_used s)[slot := b]" and slot: "slot < SLOT_COUNT"
    and vw: "\<And>q. q \<in> dynamic \<Longrightarrow> q \<notin> {guard_page slot + 1, guard_page slot + 2} \<Longrightarrow> kview t q = kview s q"
    and here: "kview t (guard_page slot + 1) \<noteq> None \<longleftrightarrow> b" "kview t (guard_page slot + 2) \<noteq> None \<longleftrightarrow> b"
  shows "stacks_inv t"
proof -
  note D = stacks_invD [OF inv]
  have "kview t (guard_page c) = None \<and> (\<forall>j \<in> {1, 2}. kview t (guard_page c + j) \<noteq> None \<longleftrightarrow> slot_used t ! c)"
    if c: "c < SLOT_COUNT" for c
  proof -
    have g: "guard_page c \<notin> {guard_page slot + 1, guard_page slot + 2}"
      using slot_pages_distinct [of c 0 slot 1] slot_pages_distinct [of c 0 slot 2] by auto
    then have "kview t (guard_page c) = None" using vw [of "guard_page c"] slot_pages_dynamic [OF c, of 0] D(3) [OF c] by simp
    moreover have "kview t (guard_page c + j) \<noteq> None \<longleftrightarrow> slot_used t ! c" if j: "j \<in> {1, 2}" for j
    proof (cases "c = slot")
      case True
      then show ?thesis using here j t(2) D(2) slot by auto
    next
      case False
      then have "guard_page c + j \<notin> {guard_page slot + 1, guard_page slot + 2}"
        using slot_pages_distinct [of c j slot 1] slot_pages_distinct [of c j slot 2] j by auto
      then show ?thesis
        using vw [of "guard_page c + j"] slot_pages_dynamic [OF c, of j] D(4,5) [OF c] j t(2) False by auto
    qed
    ultimately show ?thesis by blast
  qed
  then show ?thesis using t D(2) by (simp add: stacks_inv_def)
qed

lemma kstack_alloc_ok:
  fixes s :: "'a stacks_scheme"
  assumes inv: "stacks_inv s"
  shows "\<exists>tp t. kstack_alloc s = rret (tp, t) \<and> stacks_inv t \<and> free_set t \<subseteq> free_set s
     \<and> (tp = 0 \<and> slot_used t = slot_used s
        \<or> (\<exists>slot < SLOT_COUNT. \<not> slot_used s ! slot \<and> tp = 4096 * (guard_page slot + 3)
             \<and> slot_used t = (slot_used s)[slot := True]))"
proof (cases "first_unused (slot_used s) 0")
  case None
  then show ?thesis using inv by (simp add: kstack_alloc_def)
next
  case (Some slot)
  note D = stacks_invD [OF inv]
  have slot: "slot < SLOT_COUNT" "\<not> slot_used s ! slot" using first_unused_Some [OF Some] D(2) by auto
  let ?ps = "[guard_page slot + 1, guard_page slot + 2]"
  have sub: "set ?ps \<subseteq> private_pages"
    using slot_pages_private [OF slot(1), of 1] slot_pages_private [OF slot(1), of 2] by simp
  have dyn: "set ?ps \<subseteq> dynamic"
    using slot_pages_dynamic [OF slot(1), of 1] slot_pages_dynamic [OF slot(1), of 2] by simp
  have none: "\<forall>p \<in> set ?ps. kview s p = None" using D(4,5) [OF slot(1)] slot(2) by auto
  obtain b ds t rest where t: "back_pages back_page (page_addrs ?ps) [] s = rret (b, page_addrs (rev ds), t)"
      "kvm_inv t" "same_spaces s t" "free_set t \<subseteq> free_set s" "?ps = ds @ rest" "b \<longleftrightarrow> rest = []"
    and vw: "\<And>q. q \<in> dynamic \<Longrightarrow>
        if q \<in> set ds then \<exists>f \<in> free_set s - free_set t. kview t q = Some f else kview t q = kview s q"
    using kpages.back_pages_ok [OF D(1) dyn _ none, of "[]"] by auto
  note su = same_spaces_stacks [OF t(3)]
  have vas: "map (\<lambda>i. add32 (slot_stack_base slot) (4096 * i)) [0 ..< 2] = page_addrs ?ps"
    using slot_addrs(2) [OF slot(1) order_refl] stack_vas [OF slot(1)] by simp
  have ms: "map_stack s (slot_stack_base slot) = (if b then rret (True, t)
       else rbind (unmap_and_free t (slot_stack_base slot) (length ds)) (\<lambda>u. rret (False, u)))"
    unfolding map_stack_def vas t(1) by (simp add: page_addrs_def)
  have start: "kstack_alloc s = rbind (map_stack s (slot_stack_base slot))
      (\<lambda>(ok, u). if ok then rret (4096 * (guard_page slot + 3), u\<lparr>slot_used := (slot_used u)[slot := True]\<rparr>) else rret (0, u))"
    unfolding kstack_alloc_def Some option.case slot_addrs(3) [OF slot(1)] by (rule refl)
  show ?thesis
  proof (cases b)
    case True
    then have ds: "ds = ?ps" using t(5,6) by simp
    let ?u = "t\<lparr>slot_used := (slot_used s)[slot := True]\<rparr>"
    have "stacks_inv ?u"
    proof (rule stacks_inv_slot [OF inv _ _ slot(1), where b = True])
      show "kview ?u q = kview s q" if "q \<in> dynamic" "q \<notin> {guard_page slot + 1, guard_page slot + 2}" for q
        using vw [OF that(1)] that(2) ds by simp
      show "kview ?u (guard_page slot + 1) \<noteq> None \<longleftrightarrow> True" "kview ?u (guard_page slot + 2) \<noteq> None \<longleftrightarrow> True"
        using vw [of "guard_page slot + 1"] vw [of "guard_page slot + 2"] dyn ds by auto
    qed (use t(2) in simp_all)
    then show ?thesis using start ms True su t(4) slot
      by (intro exI [of _ "4096 * (guard_page slot + 3)"] exI [of _ ?u]) auto
  next
    case False
    have "ds = [] \<or> ds = [guard_page slot + 1] \<or> ds = ?ps"
      using t(5) by (auto simp: Cons_eq_append_conv)
    then have len: "ds = map (\<lambda>i. guard_page slot + 1 + i) [0 ..< length ds]" "length ds \<le> 2"
      and dd: "set ds \<subseteq> private_pages" "distinct ds" and ddyn: "set ds \<subseteq> dynamic"
      using sub dyn by (elim disjE; simp)+
    have dv: "\<forall>p \<in> set ds. kview t p \<noteq> None"
    proof
      fix p assume "p \<in> set ds"
      then show "kview t p \<noteq> None" using vw [of p] ddyn by auto
    qed
    from kpages.unback_pages_ok [OF t(2) dd dv, of False] obtain u where
      u: "unback_pages False unback_page (page_addrs ds) t = rret u" "kvm_inv u" "same_spaces t u"
        "free_set u = free_set t \<union> {f. \<exists>p \<in> set ds. kview t p = Some f}"
        "\<forall>q \<in> dynamic. kview u q = (if q \<in> set ds then None else kview t q)" by blast
    have kv: "kview u q = kview s q" if "q \<in> dynamic" for q
    proof (cases "q \<in> set ds")
      case True
      moreover have "set ds \<subseteq> set ?ps" using arg_cong [OF t(5), of set] by auto
      ultimately show ?thesis using u(5) that none by auto
    next
      case False
      then show ?thesis using u(5) that vw [OF that] by simp
    qed
    have fr: "free_set u \<subseteq> free_set s"
    proof
      fix f assume "f \<in> free_set u"
      then consider "f \<in> free_set t" | p where "p \<in> set ds" "kview t p = Some f" using u(4) by auto
      then show "f \<in> free_set s"
      proof cases
        case 1
        then show ?thesis using t(4) by blast
      next
        case 2
        then show ?thesis using vw [of p] ddyn by auto
      qed
    qed
    have un: "unmap_and_free t (slot_stack_base slot) (length ds) = rret u"
      using u(1) slot_addrs(2) [OF slot(1) len(2)] len(1) by (simp add: unmap_and_free_def)
    have su': "slot_used u = slot_used s" using same_spaces_stacks [OF u(3)] su by simp
    have "stacks_inv u"
      using stacks_inv_slot [OF inv u(2) _ slot(1), of False] kv dyn slot su' none
        list_update_id [of "slot_used s" slot] by simp
    then show ?thesis using start ms False un fr su' by (intro exI [of _ 0] exI [of _ u]) simp
  qed
qed

lemma kstack_free_ok:
  fixes s :: "'a stacks_scheme"
  assumes inv: "stacks_inv s" and slot: "slot < SLOT_COUNT" "slot_used s ! slot"
  shows "\<exists>t. kstack_free s (4096 * (guard_page slot + 3)) = rret t \<and> stacks_inv t
     \<and> slot_used t = (slot_used s)[slot := False]
     \<and> (\<exists>f g. kview s (guard_page slot + 1) = Some f \<and> kview s (guard_page slot + 2) = Some g
          \<and> f \<noteq> g \<and> free_set t = insert f (insert g (free_set s)))"
proof -
  note D = stacks_invD [OF inv]
  let ?ps = "[guard_page slot + 1, guard_page slot + 2]"
  have sub: "set ?ps \<subseteq> private_pages"
    using slot_pages_private [OF slot(1), of 1] slot_pages_private [OF slot(1), of 2] by simp
  have dyn: "set ?ps \<subseteq> dynamic"
    using slot_pages_dynamic [OF slot(1), of 1] slot_pages_dynamic [OF slot(1), of 2] by simp
  obtain f g where fg: "kview s (guard_page slot + 1) = Some f" "kview s (guard_page slot + 2) = Some g"
    using D(4,5) [OF slot(1)] slot(2) by auto
  then have "\<forall>p \<in> set ?ps. kview s p \<noteq> None" by simp
  from kpages.unback_pages_ok [OF D(1) sub _ this, of False] obtain t where
    t: "unback_pages False unback_page (page_addrs ?ps) s = rret t" "kvm_inv t" "same_spaces s t"
      "free_set t = free_set s \<union> {f. \<exists>p \<in> set ?ps. kview s p = Some f}"
      "\<forall>q \<in> dynamic. kview t q = (if q \<in> set ?ps then None else kview s q)" by auto
  have off: "sub32 (sub32 (sub32 (4096 * (guard_page slot + 3)) 8192) 4096) 0xE1000000 = slot * (3 * 4096)"
    using slot(1) by (simp add: guard_page_def sub32_exact)
  have "slot_stack_base slot = 4096 * (guard_page slot + 1)" using slot_addrs(1) [OF slot(1)] .
  have un: "unmap_and_free s (slot_stack_base slot) 2 = rret t"
    using t(1) slot_addrs(2) [OF slot(1), of 2] stack_vas [OF slot(1)] by (simp add: unmap_and_free_def)
  let ?u = "t\<lparr>slot_used := (slot_used s)[slot := False]\<rparr>"
  have fr: "kstack_free s (4096 * (guard_page slot + 3)) = rret ?u"
    using slot un same_spaces_stacks [OF t(3)]
    unfolding kstack_free_def off Let_def by (simp add: guard_page_def)
  have "stacks_inv ?u"
    by (rule stacks_inv_slot [OF inv _ _ slot(1), where b = False]) (use t dyn in auto)
  moreover have "f \<noteq> g"
  proof
    assume "f = g"
    have dy: "guard_page slot + 1 \<in> dynamic" "guard_page slot + 2 \<in> dynamic"
      using sub by (auto simp: dynamic_def private_pages_def)
    show False using ownedD(6) [OF D(1) dy(1) fg(1) dy(2)] fg(2) \<open>f = g\<close> by simp
  qed
  moreover have "free_set ?u = insert f (insert g (free_set s))" using t(4) fg by auto
  ultimately show ?thesis using fr fg by (intro exI [of _ ?u]) auto
qed


lemma kstack_free_panics:
  assumes inv: "stacks_inv s" and tp: "tp < 2 ^ 32"
    and none: "\<And>slot. slot < SLOT_COUNT \<Longrightarrow> slot_used s ! slot \<Longrightarrow> tp \<noteq> 4096 * (guard_page slot + 3)"
  shows "kstack_free s tp = rpanic ''kstack_free: not the top of a live kernel stack''"
proof -
  define offset where "offset = sub32 (sub32 (sub32 tp 8192) 4096) 0xE1000000"
  define slot where "slot = offset div 12288"
  have "tp < 0xE1003000 \<or> offset mod 12288 \<noteq> 0 \<or> slot \<ge> SLOT_COUNT \<or> \<not> slot_used s ! slot"
  proof (rule ccontr)
    assume "\<not> ?thesis"
    then have a: "tp \<ge> 0xE1003000" "offset mod 12288 = 0" "slot < SLOT_COUNT" "slot_used s ! slot" by auto
    then have "offset = tp - 0xE1003000" using tp by (simp add: offset_def sub32_exact)
    moreover have "offset = 12288 * slot" using a(2) by (auto simp: slot_def)
    ultimately have "tp = 4096 * (guard_page slot + 3)" using a(1) by (simp add: guard_page_def)
    then show False using none a(3,4) by blast
  qed
  then show ?thesis by (simp add: kstack_free_def Let_def offset_def slot_def)
qed

section \<open>Properties\<close>

text \<open>
  C33. Allocating a kernel stack always returns. It gives either nothing, with no frame lost
  but those of page tables, or the top of a slot that was free; and in every state so
  reached each live stack has both its pages backed and the page below it unmapped, so
  that an overflow faults.
\<close>

theorem kstack_alloc_guarded:
  fixes s :: "'a stacks_scheme"
  assumes "stacks_inv s"
  shows "\<exists>tp t. kstack_alloc s = rret (tp, t) \<and> stacks_inv t \<and> free_set t \<subseteq> free_set s
     \<and> (tp = 0 \<and> slot_used t = slot_used s
        \<or> (\<exists>slot < SLOT_COUNT. \<not> slot_used s ! slot \<and> tp = 4096 * (guard_page slot + 3)
             \<and> slot_used t = (slot_used s)[slot := True] \<and> kview t (tp div 4096 - 3) = None
             \<and> kview t (tp div 4096 - 2) \<noteq> None \<and> kview t (tp div 4096 - 1) \<noteq> None))"
proof -
  from kstack_alloc_ok [OF assms] obtain tp t where t: "kstack_alloc s = rret (tp, t)" "stacks_inv t"
      "free_set t \<subseteq> free_set s" "tp = 0 \<and> slot_used t = slot_used s
        \<or> (\<exists>slot < SLOT_COUNT. \<not> slot_used s ! slot \<and> tp = 4096 * (guard_page slot + 3)
             \<and> slot_used t = (slot_used s)[slot := True])" by blast
  have "kview t (guard_page slot) = None \<and> kview t (guard_page slot + 1) \<noteq> None \<and> kview t (guard_page slot + 2) \<noteq> None"
    if "slot < SLOT_COUNT" "slot_used t = (slot_used s)[slot := True]" for slot
    using stacks_invD(3,4,5) [OF t(2) that(1)] stacks_invD(2) [OF assms] that by simp
  then show ?thesis using t by (intro exI [of _ tp] exI [of _ t]) auto
qed


text \<open>The small machine with no stack in use.\<close>

definition stacks_small :: stacks where
  "stacks_small = heap.extend heap_small \<lparr>slot_used = replicate 1365 False\<rparr>"

lemma stacks_small_inv: "stacks_inv stacks_small"
proof -
  have kv: "kview stacks_small = kview heap_small"
    by (simp add: kview_def lookup_def table_of_def pd_of_def stacks_small_def heap.extend_def fun_eq_iff)
  have "kvm_inv stacks_small \<longleftrightarrow> kvm_inv heap_small"
    unfolding kvm_inv_def owned_def kv
    by (simp add: kvm_unfold stacks_small_def heap.extend_def)
  then have k: "kvm_inv stacks_small" using heap_small_inv(1) by simp
  have "kview heap_small p = None" if "p < 0xFF800" for p
  proof -
    have "p div 1024 < 1022" using that by simp
    then show ?thesis by (simp add: kview_def lookup_def heap_small_def pd_of_def pd_frame_def present_def)
  qed
  then show ?thesis
    using k kv by (simp add: stacks_inv_def guard_page_def) (simp add: stacks_small_def heap.extend_def)
qed

theorem kstack_alloc_guarded_witness:
  "\<exists>tp t. kstack_alloc stacks_small = rret (tp, t) \<and> stacks_inv t \<and> free_set t \<subseteq> free_set stacks_small"
  using kstack_alloc_guarded [OF stacks_small_inv] by blast


end
