(* ===== verification/Address_Space.thy ===== *)
theory Address_Space
  imports Kstack
begin

text \<open>
  Single kernel pages, \<open>zkt/mm/kpage.c\<close>, and the address spaces built on them, the second
  half of \<open>zkt/arch/i386/paging.c\<close>: a page directory is a kernel page, its \<open>struct\<close> is on
  the heap, and creating one copies the kernel's half and joins the list every kernel
  mapping is written through.
\<close>

section \<open>Model\<close>

record kmem = stacks +
  kpage_used :: "bool list"

subsection \<open>Kernel pages\<close>

definition kpage_alloc :: "'a kmem_scheme \<Rightarrow> ((nat \<times> nat) option \<times> 'a kmem_scheme) run" where
  "kpage_alloc s =
     (case first_unused (kpage_used s) 0 of
        None \<Rightarrow> rret (None, s)
      | Some i \<Rightarrow>
          let va = add32 0xE2000000 (i * 4096)
          in case pmm_alloc_frame s of (frame, s1) \<Rightarrow>
               if frame = 0 then rret (None, s1)
               else rbind (vmm_map_page s1 (of_nat va) (of_nat frame) VMM_WRITABLE) (\<lambda>(rc, s2).
                      if rc \<noteq> 0 then rbind (lift_pmm_free s2 frame) (\<lambda>s3. rret (None, s3))
                      else rbind (vzero (s2\<lparr>kpage_used := (kpage_used s2)[i := True]\<rparr>) (of_nat va)) (\<lambda>s3.
                             rret (Some (va, frame), s3))))"

definition kpage_free :: "'a kmem_scheme \<Rightarrow> nat \<Rightarrow> 'a kmem_scheme run" where
  "kpage_free s va =
     (let i = sub32 va 0xE2000000 div 4096
      in if va < 0xE2000000 \<or> va mod 4096 \<noteq> 0 \<or> i \<ge> 4096 \<or> \<not> kpage_used s ! i
         then rpanic ''kpage_free: not a live kernel page''
         else rbind (vmm_unmap_page s (of_nat va)) (\<lambda>(phys, s1).
                case phys of
                  None \<Rightarrow> rpanic ''kpage_free: not a live kernel page''
                | Some f \<Rightarrow> rbind (lift_pmm_free s1 (unat f)) (\<lambda>s2.
                    rret (s2\<lparr>kpage_used := (kpage_used s2)[i := False]\<rparr>))))"

subsection \<open>Address spaces\<close>

text \<open>\<open>for (i = KERNEL_PD_FIRST; i < RECURSIVE_PD_INDEX; i++) as->pd[i] = kernel_space.pd[i];\<close>\<close>

definition copy_kernel_half :: "'a vmm_scheme \<Rightarrow> nat \<Rightarrow> nat \<Rightarrow> 'a vmm_scheme" where
  "copy_kernel_half s f k =
     fold (\<lambda>i t. t\<lparr>pages := (pages t)(f := (pages t f)(i := pages t k i))\<rparr>) [768 ..< 1023] s"

definition vmm_as_create :: "'a kmem_scheme \<Rightarrow> (address_space option \<times> 'a kmem_scheme) run" where
  "vmm_as_create s =
     rbind (kmalloc s 12) (\<lambda>(p, s1).
       if p = 0 then rret (None, s1)
       else rbind (kpage_alloc s1) (\<lambda>(r, s2).
         case r of
           None \<Rightarrow> rbind (kfree s2 p) (\<lambda>s3. rret (None, s3))
         | Some (va, phys) \<Rightarrow>
             let as = \<lparr>as_at = p, pd_phys = phys, as_pd = va\<rparr>;
                 f = pd_frame as;
                 k = pd_frame (kernel_space s2);
                 s3 = copy_kernel_half s2 f k;
                 s4 = s3\<lparr>pages := (pages s3)(f := (pages s3 f)(1023 := of_nat phys OR 1 OR 2))\<rparr>;
                 s5 = s4\<lparr>pages := (pages s4)(f := (pages s4 f)(1022 := pages s4 k 1022))\<rparr>
             in rret (Some as, s5\<lparr>all_spaces := as # all_spaces s5\<rparr>)))"

text \<open>
  The \<open>while (*link != as)\<close> loop unlinks the space; running off the end of the list, when it
  is not there, is undefined (\<open>None\<close>).
\<close>

fun unlink_space :: "nat \<Rightarrow> address_space list \<Rightarrow> address_space list option" where
  "unlink_space p [] = None"
| "unlink_space p (a # as) = (if as_at a = p then Some as else map_option ((#) a) (unlink_space p as))"

definition vmm_as_destroy :: "'a kmem_scheme \<Rightarrow> address_space \<Rightarrow> 'a kmem_scheme run" where
  "vmm_as_destroy s as =
     (if as_at as = as_at (active s) \<or> as_at as = as_at (kernel_space s)
      then rpanic ''vmm_as_destroy: address space is in use''
      else case unlink_space (as_at as) (all_spaces s) of
             None \<Rightarrow> None
           | Some rest \<Rightarrow> rbind (kpage_free (s\<lparr>all_spaces := rest\<rparr>) (as_pd as)) (\<lambda>s1. kfree s1 (as_at as)))"

end
