(* ===== verification/Dos_Cpu.thy ===== *)
theory Dos_Cpu
  imports Zkt_Prelude
begin

text \<open>
  The processor of \<open>dosrun\<close>, the first half of \<open>userland/dosrun/cpu.c\<close> and its header
  \<open>cpu.h\<close>: the registers, flags and memory, the ModR/M decoder, the arithmetic, shift and
  string operations and the entry to an interrupt. An opcode and a register number are
  natural numbers, as the \<open>int\<close>s they are promoted to; every value kept in a register, a
  flag word or memory has its width.
\<close>

section \<open>The processor\<close>

text \<open>
  \<open>struct cpu\<close>. The array \<open>r\<close> is \<open>r_lo\<close>. The three function pointers are the record
  \<open>devices\<close> below, an argument of the operations that call them, and \<open>port_context\<close> is the
  extension of the record.
\<close>

record cpu =
  r_lo :: "nat \<Rightarrow> u16"
  r_hi :: "nat \<Rightarrow> u16"
  sreg :: "nat \<Rightarrow> u16"
  ip :: u16
  flags :: u16
  flags_hi :: u16
  mem :: "u32 \<Rightarrow> u8"
  int_no :: u8
  fault_opcode :: u8
  exit_code :: u8
  insns :: u32
  irq_pending :: u16
  irq_shadow :: u8

text \<open>A null pointer is \<open>None\<close>; a callback may change the processor.\<close>

record 'a devices =
  port_in8 :: "('a cpu_scheme \<Rightarrow> u16 \<Rightarrow> int \<times> u8 \<times> 'a cpu_scheme) option"
  port_out8 :: "('a cpu_scheme \<Rightarrow> u16 \<Rightarrow> u8 \<Rightarrow> int \<times> 'a cpu_scheme) option"
  irq_ack :: "('a cpu_scheme \<Rightarrow> int \<times> 'a cpu_scheme) option"

datatype cpu_stop = CPU_OK | CPU_HALT | CPU_INT | CPU_IRET | CPU_FAULT | CPU_GUEST | CPU_EXIT

definition AX :: nat where "AX = 0"
definition CX :: nat where "CX = 1"
definition DX :: nat where "DX = 2"
definition BX :: nat where "BX = 3"
definition SP :: nat where "SP = 4"
definition BP :: nat where "BP = 5"
definition SI :: nat where "SI = 6"
definition DI :: nat where "DI = 7"

lemmas reg_nums = AX_def CX_def DX_def BX_def SP_def BP_def SI_def DI_def

definition FLAG_CF :: u16 where "FLAG_CF = 0x0001"
definition FLAG_PF :: u16 where "FLAG_PF = 0x0004"
definition FLAG_AF :: u16 where "FLAG_AF = 0x0010"
definition FLAG_ZF :: u16 where "FLAG_ZF = 0x0040"
definition FLAG_SF :: u16 where "FLAG_SF = 0x0080"
definition FLAG_TF :: u16 where "FLAG_TF = 0x0100"
definition FLAG_IF :: u16 where "FLAG_IF = 0x0200"
definition FLAG_DF :: u16 where "FLAG_DF = 0x0400"
definition FLAG_OF :: u16 where "FLAG_OF = 0x0800"

lemmas flag_masks = FLAG_CF_def FLAG_PF_def FLAG_AF_def FLAG_ZF_def FLAG_SF_def FLAG_TF_def
  FLAG_IF_def FLAG_DF_def FLAG_OF_def

text \<open>\<open>(c->flags & f) != 0\<close>.\<close>

definition has :: "'a cpu_scheme \<Rightarrow> u16 \<Rightarrow> bool" where
  "has c f \<longleftrightarrow> flags c AND f \<noteq> 0"

text \<open>\<open>c->r[i] = v\<close> and \<open>c->sreg[i] = v\<close>.\<close>

definition set_r :: "nat \<Rightarrow> u16 \<Rightarrow> 'a cpu_scheme \<Rightarrow> 'a cpu_scheme" where
  "set_r i v c = c\<lparr>r_lo := (r_lo c)(i := v)\<rparr>"

definition set_sreg :: "nat \<Rightarrow> u16 \<Rightarrow> 'a cpu_scheme \<Rightarrow> 'a cpu_scheme" where
  "set_sreg i v c = c\<lparr>sreg := (sreg c)(i := v)\<rparr>"

definition add_ip :: "u16 \<Rightarrow> 'a cpu_scheme \<Rightarrow> 'a cpu_scheme" where
  "add_ip n c = c\<lparr>ip := ip c + n\<rparr>"

section \<open>Memory\<close>

definition MEM_SIZE :: u32 where "MEM_SIZE = 0x100000"

definition mem_r8 :: "'a cpu_scheme \<Rightarrow> u32 \<Rightarrow> u8" where
  "mem_r8 c addr = mem c (addr AND (MEM_SIZE - 1))"

definition mem_r16 :: "'a cpu_scheme \<Rightarrow> u32 \<Rightarrow> u16" where
  "mem_r16 c addr0 =
     (let addr = addr0 AND (MEM_SIZE - 1);
          lo = ucast (mem c addr);
          hi = ucast (mem c ((addr + 1) AND (MEM_SIZE - 1)))
      in lo OR push_bit 8 hi)"

definition mem_w8 :: "'a cpu_scheme \<Rightarrow> u32 \<Rightarrow> u8 \<Rightarrow> 'a cpu_scheme" where
  "mem_w8 c addr v = c\<lparr>mem := (mem c)(addr AND (MEM_SIZE - 1) := v)\<rparr>"

definition mem_w16 :: "'a cpu_scheme \<Rightarrow> u32 \<Rightarrow> u16 \<Rightarrow> 'a cpu_scheme" where
  "mem_w16 c addr0 v =
     (let addr = addr0 AND (MEM_SIZE - 1);
          c1 = c\<lparr>mem := (mem c)(addr := ucast v)\<rparr>
      in c1\<lparr>mem := (mem c1)((addr + 1) AND (MEM_SIZE - 1) := ucast (drop_bit 8 v))\<rparr>)"

definition lin :: "u16 \<Rightarrow> u16 \<Rightarrow> u32" where
  "lin seg off = push_bit 4 (ucast seg) + ucast off"

definition rd8 :: "'a cpu_scheme \<Rightarrow> u16 \<Rightarrow> u16 \<Rightarrow> u8" where
  "rd8 c seg off = mem_r8 c (lin seg off)"

definition rd16 :: "'a cpu_scheme \<Rightarrow> u16 \<Rightarrow> u16 \<Rightarrow> u16" where
  "rd16 c seg off = mem_r16 c (lin seg off)"

definition wr8 :: "'a cpu_scheme \<Rightarrow> u16 \<Rightarrow> u16 \<Rightarrow> u8 \<Rightarrow> 'a cpu_scheme" where
  "wr8 c seg off v = mem_w8 c (lin seg off) v"

definition wr16 :: "'a cpu_scheme \<Rightarrow> u16 \<Rightarrow> u16 \<Rightarrow> u16 \<Rightarrow> 'a cpu_scheme" where
  "wr16 c seg off v = mem_w16 c (lin seg off) v"

definition push16 :: "'a cpu_scheme \<Rightarrow> u16 \<Rightarrow> 'a cpu_scheme" where
  "push16 c v = (let c1 = set_r SP (r_lo c SP - 2) c in wr16 c1 (sreg c1 2) (r_lo c1 SP) v)"

definition pop16 :: "'a cpu_scheme \<Rightarrow> u16 \<times> 'a cpu_scheme" where
  "pop16 c = (rd16 c (sreg c 2) (r_lo c SP), set_r SP (r_lo c SP + 2) c)"

definition cpu_reg32 :: "'a cpu_scheme \<Rightarrow> nat \<Rightarrow> u32" where
  "cpu_reg32 c reg = ucast (r_lo c reg) OR push_bit 16 (ucast (r_hi c reg))"

definition cpu_put_reg32 :: "'a cpu_scheme \<Rightarrow> nat \<Rightarrow> u32 \<Rightarrow> 'a cpu_scheme" where
  "cpu_put_reg32 c reg v =
     c\<lparr>r_lo := (r_lo c)(reg := ucast v), r_hi := (r_hi c)(reg := ucast (drop_bit 16 v))\<rparr>"

text \<open>
  \<open>cpu_init\<close>, where \<open>calloc\<close> succeeds (its failure leaves a null \<open>mem\<close>, which the caller
  tests). What is left of the old state is the context.
\<close>

definition cpu_init :: "'a cpu_scheme \<Rightarrow> 'a cpu_scheme" where
  "cpu_init c = cpu.extend
     \<lparr>r_lo = (\<lambda>_. 0), r_hi = (\<lambda>_. 0), sreg = (\<lambda>_. 0)(1 := 0xFFFF), ip = 0, flags = 0x0002,
      flags_hi = 0, mem = (\<lambda>_. 0), int_no = 0, fault_opcode = 0, exit_code = 0, insns = 0,
      irq_pending = 0, irq_shadow = 0\<rparr> (cpu.more c)"

section \<open>Flags\<close>

definition parity :: "u8 \<Rightarrow> u16" where
  "parity v0 =
     (let v1 = v0 XOR drop_bit 4 v0;
          v2 = v1 XOR drop_bit 2 v1;
          v3 = v2 XOR drop_bit 1 v2
      in if v3 AND 1 \<noteq> 0 then 0 else FLAG_PF)"

definition cpu_set_flags :: "'a cpu_scheme \<Rightarrow> u32 \<Rightarrow> nat \<Rightarrow> 'a cpu_scheme" where
  "cpu_set_flags c value0 bits =
     (let mask = if bits = 8 then 0xFF else if bits = 16 then 0xFFFF else 0xFFFFFFFF;
          sign = if bits = 8 then 0x80 else if bits = 16 then 0x8000 else 0x80000000;
          value = value0 AND mask;
          f0 = flags c AND NOT (FLAG_SF OR FLAG_ZF OR FLAG_PF);
          f1 = if value = 0 then f0 OR FLAG_ZF else f0;
          f2 = if value AND sign \<noteq> 0 then f1 OR FLAG_SF else f1
      in c\<lparr>flags := f2 OR parity (ucast value)\<rparr>)"

definition set_flag :: "u16 \<Rightarrow> bool \<Rightarrow> 'a cpu_scheme \<Rightarrow> 'a cpu_scheme" where
  "set_flag f on c = c\<lparr>flags := if on then flags c OR f else flags c AND NOT f\<rparr>"

definition set_cf :: "bool \<Rightarrow> 'a cpu_scheme \<Rightarrow> 'a cpu_scheme" where
  "set_cf on c = set_flag FLAG_CF on c"

definition set_of :: "bool \<Rightarrow> 'a cpu_scheme \<Rightarrow> 'a cpu_scheme" where
  "set_of on c = set_flag FLAG_OF on c"

definition set_af :: "bool \<Rightarrow> 'a cpu_scheme \<Rightarrow> 'a cpu_scheme" where
  "set_af on c = set_flag FLAG_AF on c"

section \<open>The ModR/M byte\<close>

text \<open>
  \<open>struct operand\<close>: a register number, or a segment and an offset. For a register the
  code leaves \<open>seg\<close> and \<open>off\<close> uninitialised, and an instruction that reads them anyway has
  no defined result: \<open>None\<close> in the operations below.
\<close>

datatype operand = OpReg nat | OpMem u16 u16

definition is_reg :: "operand \<Rightarrow> bool" where
  "is_reg rm = (case rm of OpReg i \<Rightarrow> True | OpMem seg off \<Rightarrow> False)"

text \<open>\<open>if (override >= 0) rm.seg = override;\<close>, where \<open>-1\<close> is \<open>None\<close>.\<close>

definition with_seg :: "u16 option \<Rightarrow> operand \<Rightarrow> operand" where
  "with_seg override rm =
     (case (override, rm) of (Some s, OpMem seg off) \<Rightarrow> OpMem s off | _ \<Rightarrow> rm)"

text \<open>\<open>override >= 0 ? override : seg\<close>.\<close>

definition seg_or :: "u16 option \<Rightarrow> u16 \<Rightarrow> u16" where
  "seg_or override seg = (case override of Some s \<Rightarrow> s | None \<Rightarrow> seg)"

definition default_seg :: "'a cpu_scheme \<Rightarrow> nat \<Rightarrow> u16" where
  "default_seg c rm = (if rm = 2 \<or> rm = 3 \<or> rm = 6 then sreg c 2 else sreg c 3)"

definition rm_base :: "'a cpu_scheme \<Rightarrow> nat \<Rightarrow> u16" where
  "rm_base c rm =
     (if rm = 0 then r_lo c BX + r_lo c SI
      else if rm = 1 then r_lo c BX + r_lo c DI
      else if rm = 2 then r_lo c BP + r_lo c SI
      else if rm = 3 then r_lo c BP + r_lo c DI
      else if rm = 4 then r_lo c SI
      else if rm = 5 then r_lo c DI
      else if rm = 6 then r_lo c BP
      else r_lo c BX)"

text \<open>The byte at \<open>CS:IP\<close>, as an \<open>int\<close>, with \<open>IP\<close> past it.\<close>

definition fetch8 :: "'a cpu_scheme \<Rightarrow> nat \<times> 'a cpu_scheme" where
  "fetch8 c = (unat (rd8 c (sreg c 1) (ip c)), add_ip 1 c)"

definition decode_rm :: "'a cpu_scheme \<Rightarrow> operand \<times> nat \<times> 'a cpu_scheme" where
  "decode_rm c0 =
     (let (m, c) = fetch8 c0;
          md = m div 64; reg = m div 8 mod 8; rm = m mod 8
      in if md = 3 then (OpReg rm, reg, c)
         else let seg = default_seg c rm; base = rm_base c rm
              in if md = 0 \<and> rm = 6
                 then (OpMem (sreg c 3) (rd16 c (sreg c 1) (ip c)), reg, add_ip 2 c)
                 else if md = 1
                 then (OpMem seg (base + scast (rd8 c (sreg c 1) (ip c))), reg, add_ip 1 c)
                 else if md = 2
                 then (OpMem seg (base + rd16 c (sreg c 1) (ip c)), reg, add_ip 2 c)
                 else (OpMem seg base, reg, c))"

text \<open>\<open>decode_rm\<close> followed by the segment override, as nearly every instruction has it.\<close>

definition decode_ov :: "u16 option \<Rightarrow> 'a cpu_scheme \<Rightarrow> operand \<times> nat \<times> 'a cpu_scheme" where
  "decode_ov override c = (let (rm, reg, c1) = decode_rm c in (with_seg override rm, reg, c1))"

definition get16 :: "'a cpu_scheme \<Rightarrow> operand \<Rightarrow> u16" where
  "get16 c op = (case op of OpReg i \<Rightarrow> r_lo c i | OpMem seg off \<Rightarrow> rd16 c seg off)"

definition put16 :: "'a cpu_scheme \<Rightarrow> operand \<Rightarrow> u16 \<Rightarrow> 'a cpu_scheme" where
  "put16 c op v = (case op of OpReg i \<Rightarrow> set_r i v c | OpMem seg off \<Rightarrow> wr16 c seg off v)"

definition get8 :: "'a cpu_scheme \<Rightarrow> nat \<Rightarrow> u8" where
  "get8 c reg =
     (let v = r_lo c (reg mod 4) in if reg div 4 mod 2 = 1 then ucast (drop_bit 8 v) else ucast v)"

definition put8 :: "'a cpu_scheme \<Rightarrow> nat \<Rightarrow> u8 \<Rightarrow> 'a cpu_scheme" where
  "put8 c reg v =
     (let old = r_lo c (reg mod 4)
      in set_r (reg mod 4)
           (if reg div 4 mod 2 = 1 then (old AND 0x00FF) OR push_bit 8 (ucast v)
            else (old AND 0xFF00) OR ucast v) c)"

definition get8_rm :: "'a cpu_scheme \<Rightarrow> operand \<Rightarrow> u8" where
  "get8_rm c op = (case op of OpReg i \<Rightarrow> get8 c i | OpMem seg off \<Rightarrow> rd8 c seg off)"

definition put8_rm :: "'a cpu_scheme \<Rightarrow> operand \<Rightarrow> u8 \<Rightarrow> 'a cpu_scheme" where
  "put8_rm c op v = (case op of OpReg i \<Rightarrow> put8 c i v | OpMem seg off \<Rightarrow> wr8 c seg off v)"

text \<open>
  \<open>bit_address\<close>: C's division truncates, so the quotient is lowered by one for a negative
  index that is not a multiple. \<open>None\<close> when it returns 0.
\<close>

definition bit_address :: "operand \<Rightarrow> int \<Rightarrow> int \<Rightarrow> operand option" where
  "bit_address rm index bits =
     (case rm of
        OpReg i \<Rightarrow> Some rm
      | OpMem seg o0 \<Rightarrow>
          let q = (if index < 0 then - ((- index) div bits) else index div bits);
              rest = (if index < 0 then - ((- index) mod bits) else index mod bits);
              words = (if index < 0 \<and> rest \<noteq> 0 then q - 1 else q);
              off = uint o0 + words * (bits div 8)
          in if off < 0 \<or> off > 0x10000 - bits div 8 then None else Some (OpMem seg (of_int off)))"

section \<open>Arithmetic\<close>

definition ALU_ADD :: nat where "ALU_ADD = 0"
definition ALU_OR :: nat where "ALU_OR = 1"
definition ALU_ADC :: nat where "ALU_ADC = 2"
definition ALU_SBB :: nat where "ALU_SBB = 3"
definition ALU_AND :: nat where "ALU_AND = 4"
definition ALU_SUB :: nat where "ALU_SUB = 5"
definition ALU_XOR :: nat where "ALU_XOR = 6"
definition ALU_CMP :: nat where "ALU_CMP = 7"

lemmas alu_nums = ALU_ADD_def ALU_OR_def ALU_ADC_def ALU_SBB_def ALU_AND_def ALU_SUB_def
  ALU_XOR_def ALU_CMP_def

definition alu16 :: "'a cpu_scheme \<Rightarrow> nat \<Rightarrow> u16 \<Rightarrow> u16 \<Rightarrow> u16 \<times> 'a cpu_scheme" where
  "alu16 c op a0 b0 =
     (let a = ucast a0 :: u32; b = ucast b0 :: u32;
          cf = (if has c FLAG_CF then 1 else 0);
          (r, c1) =
            (if op = ALU_ADD then let r = a + b in (r, set_af ((a XOR b XOR r) AND 0x10 \<noteq> 0)
                 (set_of ((a XOR r) AND (b XOR r) AND 0x8000 \<noteq> 0) (set_cf (r > 0xFFFF) c)))
             else if op = ALU_OR then (a OR b, set_af False (set_of False (set_cf False c)))
             else if op = ALU_ADC then let r = a + b + of_int cf in (r, set_af ((a XOR b XOR r) AND 0x10 \<noteq> 0)
                 (set_of ((a XOR r) AND (b XOR r) AND 0x8000 \<noteq> 0) (set_cf (r > 0xFFFF) c)))
             else if op = ALU_SBB then let r = a - b - of_int cf in (r, set_af ((a XOR b XOR r) AND 0x10 \<noteq> 0)
                 (set_of ((a XOR b) AND (a XOR r) AND 0x8000 \<noteq> 0) (set_cf (uint a0 - uint b0 - cf < 0) c)))
             else if op = ALU_AND then (a AND b, set_af False (set_of False (set_cf False c)))
             else if op = ALU_SUB \<or> op = ALU_CMP then let r = a - b in (r, set_af ((a XOR b XOR r) AND 0x10 \<noteq> 0)
                 (set_of ((a XOR b) AND (a XOR r) AND 0x8000 \<noteq> 0) (set_cf (uint a0 - uint b0 < 0) c)))
             else (a XOR b, set_af False (set_of False (set_cf False c))))
      in (ucast r, cpu_set_flags c1 r 16))"

definition alu8 :: "'a cpu_scheme \<Rightarrow> nat \<Rightarrow> u8 \<Rightarrow> u8 \<Rightarrow> u8 \<times> 'a cpu_scheme" where
  "alu8 c op a0 b0 =
     (let a = ucast a0 :: u32; b = ucast b0 :: u32;
          cf = (if has c FLAG_CF then 1 else 0);
          (r, c1) =
            (if op = ALU_ADD then let r = a + b in (r, set_af ((a XOR b XOR r) AND 0x10 \<noteq> 0)
                 (set_of ((a XOR r) AND (b XOR r) AND 0x80 \<noteq> 0) (set_cf (r > 0xFF) c)))
             else if op = ALU_OR then (a OR b, set_af False (set_of False (set_cf False c)))
             else if op = ALU_ADC then let r = a + b + of_int cf in (r, set_af ((a XOR b XOR r) AND 0x10 \<noteq> 0)
                 (set_of ((a XOR r) AND (b XOR r) AND 0x80 \<noteq> 0) (set_cf (r > 0xFF) c)))
             else if op = ALU_SBB then let r = a - b - of_int cf in (r, set_af ((a XOR b XOR r) AND 0x10 \<noteq> 0)
                 (set_of ((a XOR b) AND (a XOR r) AND 0x80 \<noteq> 0) (set_cf (uint a0 - uint b0 - cf < 0) c)))
             else if op = ALU_AND then (a AND b, set_af False (set_of False (set_cf False c)))
             else if op = ALU_SUB \<or> op = ALU_CMP then let r = a - b in (r, set_af ((a XOR b XOR r) AND 0x10 \<noteq> 0)
                 (set_of ((a XOR b) AND (a XOR r) AND 0x80 \<noteq> 0) (set_cf (uint a0 - uint b0 < 0) c)))
             else (a XOR b, set_af False (set_of False (set_cf False c))))
      in (ucast r, cpu_set_flags c1 r 8))"

section \<open>Shifts and rotates\<close>

text \<open>One iteration of the loop of \<open>shift\<close>.\<close>

definition shift_step :: "nat \<Rightarrow> nat \<Rightarrow> u32 \<times> 'a cpu_scheme \<Rightarrow> u32 \<times> 'a cpu_scheme" where
  "shift_step op bits rc =
     (let (r, c) = rc;
          mask = (if bits = 32 then 0xFFFFFFFF else push_bit bits 1 - 1) :: u32;
          sign = push_bit (bits - 1) 1 :: u32;
          cf = has c FLAG_CF
      in if op = 0 then ((push_bit 1 r OR drop_bit (bits - 1) r) AND mask, set_cf (r AND sign \<noteq> 0) c)
         else if op = 1 then (drop_bit 1 r OR (if r AND 1 \<noteq> 0 then sign else 0), set_cf (r AND 1 \<noteq> 0) c)
         else if op = 2 then ((push_bit 1 r OR (if cf then 1 else 0)) AND mask, set_cf (r AND sign \<noteq> 0) c)
         else if op = 3 then (drop_bit 1 r OR (if cf then sign else 0), set_cf (r AND 1 \<noteq> 0) c)
         else if op = 4 then (push_bit 1 r AND mask, set_cf (r AND sign \<noteq> 0) c)
         else if op = 5 then (drop_bit 1 r, set_cf (r AND 1 \<noteq> 0) c)
         else if op = 7 then (drop_bit 1 r OR (r AND sign), set_cf (r AND 1 \<noteq> 0) c)
         else (r, c))"

definition shift :: "'a cpu_scheme \<Rightarrow> nat \<Rightarrow> u32 \<Rightarrow> nat \<Rightarrow> nat \<Rightarrow> u32 \<times> 'a cpu_scheme" where
  "shift c op v count0 bits =
     (let mask = (if bits = 32 then 0xFFFFFFFF else push_bit bits 1 - 1) :: u32;
          sign = push_bit (bits - 1) 1 :: u32;
          r0 = v AND mask;
          count = count0 mod 32;
          steps = (if (op = 2 \<or> op = 3) \<and> bits < 32 then count mod (bits + 1) else count)
      in if steps = 0 then (r0, c)
         else let (r, c1) = (shift_step op bits ^^ steps) (r0, c);
                  c2 = (if op \<ge> 4 then cpu_set_flags c1 r bits else c1);
                  c3 = (if count = 1
                        then if op = 0 \<or> op = 2 \<or> op = 4
                             then set_of ((r AND sign \<noteq> 0) \<noteq> has c2 FLAG_CF) c2
                             else if op = 1 \<or> op = 3
                             then set_of ((r AND sign \<noteq> 0) \<noteq> (r AND drop_bit 1 sign \<noteq> 0)) c2
                             else set_of (op = 5 \<and> v AND sign \<noteq> 0) c2
                        else c2)
              in (r, c3))"

fun double_shift_loop :: "nat \<Rightarrow> bool \<Rightarrow> nat \<Rightarrow> u32 \<Rightarrow> u32 \<Rightarrow> 'a cpu_scheme \<Rightarrow> u32 \<times> 'a cpu_scheme" where
  "double_shift_loop bits right 0 v src c = (v, c)"
| "double_shift_loop bits right (Suc n) v src c =
     (let mask = (if bits = 32 then 0xFFFFFFFF else 0xFFFF) :: u32;
          sign = push_bit (bits - 1) 1 :: u32
      in if right
         then double_shift_loop bits right n (drop_bit 1 v OR (if src AND 1 \<noteq> 0 then sign else 0))
                (drop_bit 1 src) (set_cf (v AND 1 \<noteq> 0) c)
         else double_shift_loop bits right n ((push_bit 1 v OR (if src AND sign \<noteq> 0 then 1 else 0)) AND mask)
                (push_bit 1 src AND mask) (set_cf (v AND sign \<noteq> 0) c))"

definition double_shift :: "'a cpu_scheme \<Rightarrow> u32 \<Rightarrow> u32 \<Rightarrow> nat \<Rightarrow> nat \<Rightarrow> bool \<Rightarrow> u32 \<times> 'a cpu_scheme" where
  "double_shift c v src count0 bits right =
     (let count = count0 mod 32; sign = push_bit (bits - 1) 1 :: u32
      in if count = 0 then (v, c)
         else let (value, c1) = double_shift_loop bits right count v src c;
                  c2 = cpu_set_flags c1 value bits
              in (value, if count = 1 then set_of ((v XOR value) AND sign \<noteq> 0) c2 else c2))"

section \<open>Interrupts and conditions\<close>

text \<open>
  \<open>cpu_enter_interrupt\<close> with what every caller does next, \<open>c->sreg[1] = cs; c->ip = ip\<close>.
\<close>

definition cpu_enter_interrupt :: "'a cpu_scheme \<Rightarrow> u8 \<Rightarrow> 'a cpu_scheme" where
  "cpu_enter_interrupt c vector =
     (let c1 = push16 c (flags c);
          c2 = push16 c1 (sreg c1 1);
          c3 = push16 c2 (ip c2);
          c4 = c3\<lparr>flags := flags c3 AND NOT (FLAG_IF OR FLAG_TF)\<rparr>;
          off = rd16 c4 0 (ucast vector * 4);
          seg = rd16 c4 0 (ucast vector * 4 + 2)
      in (set_sreg 1 seg c4)\<lparr>ip := off\<rparr>)"

definition cond :: "'a cpu_scheme \<Rightarrow> nat \<Rightarrow> bool" where
  "cond c cc =
     (let cf = has c FLAG_CF; zf = has c FLAG_ZF; sf = has c FLAG_SF; ovf = has c FLAG_OF; pf = has c FLAG_PF
      in if cc = 0x0 then ovf else if cc = 0x1 then \<not> ovf
         else if cc = 0x2 then cf else if cc = 0x3 then \<not> cf
         else if cc = 0x4 then zf else if cc = 0x5 then \<not> zf
         else if cc = 0x6 then cf \<or> zf else if cc = 0x7 then \<not> cf \<and> \<not> zf
         else if cc = 0x8 then sf else if cc = 0x9 then \<not> sf
         else if cc = 0xA then pf else if cc = 0xB then \<not> pf
         else if cc = 0xC then sf \<noteq> ovf else if cc = 0xD then sf = ovf
         else if cc = 0xE then zf \<or> sf \<noteq> ovf else \<not> zf \<and> sf = ovf)"

end
