(* ===== verification/Dos_Step.thy ===== *)
theory Dos_Step
  imports Dos_Cpu
begin

text \<open>
  The instructions of \<open>dosrun\<close>'s processor, the second half of \<open>userland/dosrun/cpu.c\<close>:
  the string operations, the two-byte opcodes, the 32-bit operand forms and \<open>cpu_step\<close>,
  whose switch is one definition per case. A step is \<open>None\<close> when the instruction reads the
  uninitialised fields of a register operand.
\<close>

type_synonym 'a stop = "cpu_stop \<times> 'a cpu_scheme"

section \<open>The string operations\<close>

text \<open>One iteration of the loop of \<open>do_string\<close>, up to the test of \<open>rep\<close>.\<close>

definition string_unit :: "nat \<Rightarrow> u16 \<Rightarrow> 'a cpu_scheme \<Rightarrow> 'a cpu_scheme" where
  "string_unit op src c =
     (let w = (if op mod 2 = 1 then 2 else 1) :: u16;
          delta = (if has c FLAG_DF then - w else w);
          sub = op div 2 * 2
      in if sub = 0xA4
         then let c1 = (if w = 2 then wr16 c (sreg c 0) (r_lo c DI) (rd16 c src (r_lo c SI))
                        else wr8 c (sreg c 0) (r_lo c DI) (rd8 c src (r_lo c SI)));
                  c2 = set_r SI (r_lo c1 SI + delta) c1
              in set_r DI (r_lo c2 DI + delta) c2
         else if sub = 0xA6
         then let c1 = (if w = 2 then snd (alu16 c ALU_CMP (rd16 c src (r_lo c SI)) (rd16 c (sreg c 0) (r_lo c DI)))
                        else snd (alu8 c ALU_CMP (rd8 c src (r_lo c SI)) (rd8 c (sreg c 0) (r_lo c DI))));
                  c2 = set_r SI (r_lo c1 SI + delta) c1
              in set_r DI (r_lo c2 DI + delta) c2
         else if sub = 0xAA
         then let c1 = (if w = 2 then wr16 c (sreg c 0) (r_lo c DI) (r_lo c AX)
                        else wr8 c (sreg c 0) (r_lo c DI) (get8 c 0))
              in set_r DI (r_lo c1 DI + delta) c1
         else if sub = 0xAC
         then let c1 = (if w = 2 then set_r AX (rd16 c src (r_lo c SI)) c
                        else put8 c 0 (rd8 c src (r_lo c SI)))
              in set_r SI (r_lo c1 SI + delta) c1
         else if sub = 0xAE
         then let c1 = (if w = 2 then snd (alu16 c ALU_CMP (r_lo c AX) (rd16 c (sreg c 0) (r_lo c DI)))
                        else snd (alu8 c ALU_CMP (get8 c 0) (rd8 c (sreg c 0) (r_lo c DI))))
              in set_r DI (r_lo c1 DI + delta) c1
         else c)"

lemma set_r_sel [simp]:
  "r_lo (set_r i v c) = (r_lo c)(i := v)" "r_hi (set_r i v c) = r_hi c" "sreg (set_r i v c) = sreg c"
  "ip (set_r i v c) = ip c" "flags (set_r i v c) = flags c" "flags_hi (set_r i v c) = flags_hi c"
  "mem (set_r i v c) = mem c" "int_no (set_r i v c) = int_no c" "fault_opcode (set_r i v c) = fault_opcode c"
  "exit_code (set_r i v c) = exit_code c" "insns (set_r i v c) = insns c"
  "irq_pending (set_r i v c) = irq_pending c" "irq_shadow (set_r i v c) = irq_shadow c"
  by (simp_all add: set_r_def)

lemma regs_kept [simp]:
  "r_lo (set_flag f on c) = r_lo c" "r_lo (set_cf on c) = r_lo c" "r_lo (set_of on c) = r_lo c"
  "r_lo (set_af on c) = r_lo c" "r_lo (cpu_set_flags c v n) = r_lo c"
  "r_lo (wr8 c s off b) = r_lo c" "r_lo (wr16 c s off v16) = r_lo c"
  by (simp_all add: set_flag_def set_cf_def set_of_def set_af_def cpu_set_flags_def wr8_def wr16_def
      mem_w8_def mem_w16_def Let_def)

lemma alu_regs [simp]: "r_lo (snd (alu16 c op a b)) = r_lo c" "r_lo (snd (alu8 c op x y)) = r_lo c"
  by (simp_all add: alu16_def alu8_def Let_def split_def)

lemma string_unit_cx [simp]: "r_lo (string_unit op src c) CX = r_lo c CX"
  by (simp add: string_unit_def Let_def reg_nums put8_def)

text \<open>
  The \<open>do ... while (1)\<close> loop under a repeat prefix. It is left with \<open>CX\<close> 0, and is
  entered and continued only with \<open>CX\<close> not 0.
\<close>

function string_rep :: "nat \<Rightarrow> nat \<Rightarrow> u16 \<Rightarrow> 'a cpu_scheme \<Rightarrow> 'a cpu_scheme" where
  "string_rep op rep src c =
     (if r_lo c CX = 0 then c
      else let c1 = string_unit op src c;
               c2 = set_r CX (r_lo c1 CX - 1) c1;
               sub = op div 2 * 2
           in if (sub = 0xA6 \<or> sub = 0xAE) \<and> has c2 FLAG_ZF \<noteq> (rep = 0xF3) then c2
              else string_rep op rep src c2)"
  by pat_completeness auto

termination
proof (relation "measure (\<lambda>(op, rep, src, c). unat (r_lo c CX))")
  fix op rep :: nat and src c c1 c2 sub
  assume "r_lo c CX \<noteq> 0" "c1 = string_unit op src c" "c2 = set_r CX (r_lo c1 CX - 1) c1"
  then show "((op, rep, src, c2), op, rep, src, c) \<in> measure (\<lambda>(op, rep, src, c). unat (r_lo c CX))"
    by (simp add: measure_unat)
qed simp

declare string_rep.simps [simp del]

definition do_string :: "'a cpu_scheme \<Rightarrow> nat \<Rightarrow> nat \<Rightarrow> u16 \<Rightarrow> 'a cpu_scheme" where
  "do_string c op rep src = (if rep = 0 then string_unit op src c else string_rep op rep src c)"

section \<open>The two-byte instructions\<close>

text \<open>\<open>case 0x31\<close>, \<open>0xA2\<close>: RDTSC and CPUID.\<close>

definition op_rdtsc :: "'a cpu_scheme \<Rightarrow> 'a stop" where
  "op_rdtsc c = (CPU_OK, cpu_put_reg32 (cpu_put_reg32 c AX (insns c)) DX 0)"

definition op_cpuid :: "'a cpu_scheme \<Rightarrow> 'a stop" where
  "op_cpuid c =
     (let leaf = cpu_reg32 c AX;
          c1 = cpu_put_reg32 c AX (if leaf = 0 then 1 else if leaf = 1 then 0x400 else 0);
          c2 = cpu_put_reg32 c1 BX (if leaf = 0 then 0x756E6547 else 0);
          c3 = cpu_put_reg32 c2 DX (if leaf = 0 then 0x49656E69 else 0)
      in (CPU_OK, cpu_put_reg32 c3 CX (if leaf = 0 then 0x6C65746E else 0)))"

definition op_cmov :: "nat \<Rightarrow> u16 option \<Rightarrow> 'a cpu_scheme \<Rightarrow> 'a stop" where
  "op_cmov op override c =
     (let (rm, reg, c1) = decode_ov override c;
          v = get16 c1 rm
      in (CPU_OK, if cond c1 (op mod 16) then set_r reg v c1 else c1))"

definition op_jcc16 :: "nat \<Rightarrow> 'a cpu_scheme \<Rightarrow> 'a stop" where
  "op_jcc16 op c =
     (let rel = rd16 c (sreg c 1) (ip c);
          c1 = add_ip 2 c
      in (CPU_OK, if cond c1 (op mod 16) then add_ip rel c1 else c1))"

definition op_setcc :: "nat \<Rightarrow> u16 option \<Rightarrow> 'a cpu_scheme \<Rightarrow> 'a stop" where
  "op_setcc op override c =
     (let (rm, reg, c1) = decode_ov override c
      in (CPU_OK, put8_rm c1 rm (if cond c1 (op mod 16) then 1 else 0)))"

text \<open>BT, BTS, BTR and BTC, whose operation is 0 to 3.\<close>

definition op_bits16 :: "nat \<Rightarrow> u16 option \<Rightarrow> 'a cpu_scheme \<Rightarrow> 'a stop" where
  "op_bits16 op override c =
     (let (rm, reg, c1) = decode_ov override c
      in if op = 0xBA \<and> reg < 4 then (CPU_FAULT, c1)
         else let (index, c2) = (if op = 0xBA
                                 then (int (unat (rd8 c1 (sreg c1 1) (ip c1)) mod 16), add_ip 1 c1)
                                 else (sint (r_lo c1 reg), c1))
              in case bit_address rm index 16 of
                   None \<Rightarrow> (CPU_FAULT, c2)
                 | Some rm2 \<Rightarrow>
                     let v = get16 c2 rm2;
                         b = push_bit (nat (index mod 16)) 1 :: u16;
                         operation = (if op = 0xBA then reg - 4 else op div 8 mod 4);
                         c3 = set_cf (v AND b \<noteq> 0) c2
                     in (CPU_OK, if operation \<noteq> 0
                           then put16 c3 rm2 (if operation = 1 then v OR b
                                              else if operation = 2 then v AND NOT b else v XOR b)
                           else c3))"

definition op_double16 :: "nat \<Rightarrow> u16 option \<Rightarrow> 'a cpu_scheme \<Rightarrow> 'a stop" where
  "op_double16 op override c =
     (let (rm, reg, c1) = decode_ov override c;
          (count, c2) = (if op mod 2 = 1 then (unat (r_lo c1 CX), c1) else fetch8 c1);
          (v, c3) = double_shift c2 (ucast (get16 c2 rm)) (ucast (r_lo c2 reg)) count 16 (op div 8 mod 2 = 1)
      in (CPU_OK, put16 c3 rm (ucast v)))"

text \<open>\<open>(int16_t)a * (int16_t)b\<close> into a register; the flags say whether it fits.\<close>

definition imul_into :: "nat \<Rightarrow> u16 \<Rightarrow> u16 \<Rightarrow> 'a cpu_scheme \<Rightarrow> 'a cpu_scheme" where
  "imul_into reg a b c =
     (let p = sint a * sint b; w = of_int p :: u16; over = (p \<noteq> sint w)
      in set_of over (set_cf over (set_r reg w c)))"

definition op_imul2 :: "u16 option \<Rightarrow> 'a cpu_scheme \<Rightarrow> 'a stop" where
  "op_imul2 override c =
     (let (rm, reg, c1) = decode_ov override c
      in (CPU_OK, imul_into reg (r_lo c1 reg) (get16 c1 rm) c1))"

definition op_cmpxchg :: "nat \<Rightarrow> u16 option \<Rightarrow> 'a cpu_scheme \<Rightarrow> 'a stop" where
  "op_cmpxchg op override c =
     (let (rm, reg, c1) = decode_ov override c
      in if op = 0xB1
         then let v = get16 c1 rm; a = r_lo c1 AX; c2 = snd (alu16 c1 ALU_CMP a v)
              in (CPU_OK, if a = v then put16 c2 rm (r_lo c2 reg) else set_r AX v c2)
         else let v = get8_rm c1 rm; a = get8 c1 0; c2 = snd (alu8 c1 ALU_CMP a v)
              in (CPU_OK, if a = v then put8_rm c2 rm (get8 c2 reg) else put8 c2 0 v))"

definition op_movzx16 :: "nat \<Rightarrow> u16 option \<Rightarrow> 'a cpu_scheme \<Rightarrow> 'a stop" where
  "op_movzx16 op override c =
     (let (rm, reg, c1) = decode_ov override c
      in (CPU_OK, set_r reg (if op = 0xB7 then get16 c1 rm else ucast (get8_rm c1 rm)) c1))"

text \<open>
  The two loops over the bits of a word that is not 0: \<open>while (!((v >> i) & 1)) i++\<close> from 0
  and \<open>i--\<close> from 15. The lists are the values \<open>i\<close> takes.
\<close>

definition first_bit_of :: "u16 \<Rightarrow> nat list \<Rightarrow> nat" where
  "first_bit_of v is = hd (filter (\<lambda>i. drop_bit i v AND 1 \<noteq> 0) is)"

definition op_bitscan :: "nat \<Rightarrow> u16 option \<Rightarrow> 'a cpu_scheme \<Rightarrow> 'a stop" where
  "op_bitscan op override c =
     (let (rm, reg, c1) = decode_ov override c; v = get16 c1 rm
      in if v = 0 then (CPU_OK, c1\<lparr>flags := flags c1 OR FLAG_ZF\<rparr>)
         else let i = first_bit_of v (if op = 0xBC then [0 ..< 16] else rev [0 ..< 16])
              in (CPU_OK, set_r reg (of_nat i) (c1\<lparr>flags := flags c1 AND NOT FLAG_ZF\<rparr>)))"

definition op_movsx16 :: "nat \<Rightarrow> u16 option \<Rightarrow> 'a cpu_scheme \<Rightarrow> 'a stop" where
  "op_movsx16 op override c =
     (let (rm, reg, c1) = decode_ov override c
      in (CPU_OK, set_r reg (if op = 0xBF then get16 c1 rm else scast (get8_rm c1 rm)) c1))"

definition op_xadd :: "nat \<Rightarrow> u16 option \<Rightarrow> 'a cpu_scheme \<Rightarrow> 'a stop" where
  "op_xadd op override c =
     (let (rm, reg, c1) = decode_ov override c
      in if op = 0xC1
         then let v = get16 c1 rm; (sum, c2) = alu16 c1 ALU_ADD v (r_lo c1 reg)
              in (CPU_OK, put16 (set_r reg v c2) rm sum)
         else let v = get8_rm c1 rm; (sum, c2) = alu8 c1 ALU_ADD v (get8 c1 reg)
              in (CPU_OK, put8_rm (put8 c2 reg v) rm sum))"

definition op_bswap16 :: "nat \<Rightarrow> 'a cpu_scheme \<Rightarrow> 'a stop" where
  "op_bswap16 op c =
     (let reg = op mod 8; v = r_lo c reg in (CPU_OK, set_r reg (drop_bit 8 v OR push_bit 8 v) c))"

definition op_0f :: "u16 option \<Rightarrow> 'a cpu_scheme \<Rightarrow> 'a stop" where
  "op_0f override c0 =
     (let (op, c1) = fetch8 c0; c = c1\<lparr>fault_opcode := of_nat op\<rparr>
      in if op \<in> {0x00, 0x01, 0x02, 0x03, 0x06} then (CPU_FAULT, c)
         else if op \<in> {0x08, 0x09} then (CPU_OK, c)
         else if op \<in> {0x0B, 0x20, 0x21, 0x22, 0x23, 0x30} then (CPU_FAULT, c)
         else if op = 0x31 then op_rdtsc c
         else if 0x40 \<le> op \<and> op \<le> 0x4F then op_cmov op override c
         else if 0x80 \<le> op \<and> op \<le> 0x8F then op_jcc16 op c
         else if 0x90 \<le> op \<and> op \<le> 0x9F then op_setcc op override c
         else if op \<in> {0xA0, 0xA1} then (CPU_FAULT, c)
         else if op = 0xA2 then op_cpuid c
         else if op \<in> {0xA3, 0xAB, 0xB3, 0xBB, 0xBA} then op_bits16 op override c
         else if op \<in> {0xA4, 0xA5, 0xAC, 0xAD} then op_double16 op override c
         else if op \<in> {0xA8, 0xA9} then (CPU_FAULT, c)
         else if op = 0xAF then op_imul2 override c
         else if op \<in> {0xB0, 0xB1} then op_cmpxchg op override c
         else if op \<in> {0xB6, 0xB7} then op_movzx16 op override c
         else if op \<in> {0xBC, 0xBD} then op_bitscan op override c
         else if op \<in> {0xBE, 0xBF} then op_movsx16 op override c
         else if op \<in> {0xC0, 0xC1} then op_xadd op override c
         else if 0xC8 \<le> op \<and> op \<le> 0xCF then op_bswap16 op c
         else (CPU_FAULT, c))"

section \<open>The 32-bit operand forms\<close>

definition read32 :: "'a cpu_scheme \<Rightarrow> u16 \<Rightarrow> u16 \<Rightarrow> u32" where
  "read32 c seg off =
     ucast (mem_r16 c (lin seg off)) OR push_bit 16 (ucast (mem_r16 c (lin seg off + 2)))"

definition write32 :: "'a cpu_scheme \<Rightarrow> u16 \<Rightarrow> u16 \<Rightarrow> u32 \<Rightarrow> 'a cpu_scheme" where
  "write32 c seg off v =
     mem_w16 (mem_w16 c (lin seg off) (ucast v)) (lin seg off + 2) (ucast (drop_bit 16 v))"

definition get32 :: "'a cpu_scheme \<Rightarrow> operand \<Rightarrow> u32" where
  "get32 c op = (case op of OpReg i \<Rightarrow> cpu_reg32 c i | OpMem seg off \<Rightarrow> read32 c seg off)"

definition put32 :: "'a cpu_scheme \<Rightarrow> operand \<Rightarrow> u32 \<Rightarrow> 'a cpu_scheme" where
  "put32 c op v = (case op of OpReg i \<Rightarrow> cpu_put_reg32 c i v | OpMem seg off \<Rightarrow> write32 c seg off v)"

definition alu32 :: "'a cpu_scheme \<Rightarrow> nat \<Rightarrow> u32 \<Rightarrow> u32 \<Rightarrow> u32 \<times> 'a cpu_scheme" where
  "alu32 c op a b =
     (let carry = (if has c FLAG_CF then 1 else 0) :: u64;
          (r, c1) =
            (if op = ALU_ADD \<or> op = ALU_ADC
             then let wide = ucast a + ucast b + (if op = ALU_ADC then carry else 0); r = ucast wide
                  in (r, set_af ((a XOR b XOR r) AND 0x10 \<noteq> 0)
                           (set_of (NOT (a XOR b) AND (a XOR r) AND 0x80000000 \<noteq> 0)
                             (set_cf (wide > 0xFFFFFFFF) c)))
             else if op = ALU_SUB \<or> op = ALU_SBB \<or> op = ALU_CMP
             then let wide = ucast b + (if op = ALU_SBB then carry else 0); r = a - ucast wide
                  in (r, set_af ((a XOR b XOR r) AND 0x10 \<noteq> 0)
                           (set_of ((a XOR b) AND (a XOR r) AND 0x80000000 \<noteq> 0)
                             (set_cf ((ucast a :: u64) < wide) c)))
             else (if op = ALU_AND then a AND b else if op = ALU_OR then a OR b else a XOR b,
                   set_af False (set_of False (set_cf False c))))
      in (r, cpu_set_flags c1 r 32))"

text \<open>
  One iteration of the loop of \<open>string32\<close>, up to the count: \<open>None\<close> is \<open>return CPU_FAULT\<close>,
  before anything has changed.
\<close>

definition string32_unit :: "nat \<Rightarrow> u16 option \<Rightarrow> 'a cpu_scheme \<Rightarrow> 'a cpu_scheme option" where
  "string32_unit op override c =
     (let delta = (if has c FLAG_DF then - 4 else 4) :: u16
      in if (op = 0xA5 \<or> op = 0xAD) \<and> r_lo c SI > 0xFFFC then None
         else if (op = 0xA5 \<or> op = 0xAB) \<and> r_lo c DI > 0xFFFC then None
         else let v = (if op = 0xAB then cpu_reg32 c AX else read32 c (seg_or override (sreg c 3)) (r_lo c SI));
                  c1 = (if op = 0xAD then cpu_put_reg32 c AX v else write32 c (sreg c 0) (r_lo c DI) v);
                  c2 = (if op \<noteq> 0xAB then set_r SI (r_lo c1 SI + delta) c1 else c1)
              in Some (if op \<noteq> 0xAD then set_r DI (r_lo c2 DI + delta) c2 else c2))"

lemma regs_kept32 [simp]: "r_lo (write32 c s off v) = r_lo c"
  by (simp add: write32_def mem_w16_def Let_def)

lemma string32_unit_cx: "string32_unit op override c = Some c1 \<Longrightarrow> r_lo c1 CX = r_lo c CX"
  by (auto simp: string32_unit_def Let_def reg_nums cpu_put_reg32_def split: if_splits)

function string32_rep :: "nat \<Rightarrow> u16 option \<Rightarrow> 'a cpu_scheme \<Rightarrow> 'a stop" where
  "string32_rep op override c =
     (if r_lo c CX = 0 then (CPU_OK, c)
      else case string32_unit op override c of
             None \<Rightarrow> (CPU_FAULT, c)
           | Some c1 \<Rightarrow> string32_rep op override (set_r CX (r_lo c1 CX - 1) c1))"
  by pat_completeness auto

termination
  by (relation "measure (\<lambda>(op, override, c). unat (r_lo c CX))")
    (simp_all add: measure_unat string32_unit_cx)

declare string32_rep.simps [simp del]

definition string32 :: "'a cpu_scheme \<Rightarrow> nat \<Rightarrow> nat \<Rightarrow> u16 option \<Rightarrow> 'a stop" where
  "string32 c op rep override =
     (if rep \<noteq> 0 then string32_rep op override c
      else case string32_unit op override c of None \<Rightarrow> (CPU_FAULT, c) | Some c1 \<Rightarrow> (CPU_OK, c1))"

definition divide_error :: "'a cpu_scheme \<Rightarrow> u16 \<Rightarrow> 'a stop" where
  "divide_error c start = (CPU_INT, cpu_enter_interrupt (c\<lparr>ip := start, int_no := 0\<rparr>) 0)"

text \<open>The loop of \<open>divide32\<close> from bit \<open>n - 1\<close> down to bit 0.\<close>

fun divide_bits :: "nat \<Rightarrow> u32 \<Rightarrow> u64 \<Rightarrow> u64 \<Rightarrow> u32 \<Rightarrow> u64 \<times> u32" where
  "divide_bits 0 low divisor remainder quot = (remainder, quot)"
| "divide_bits (Suc i) low divisor remainder quot =
     (let rem1 = push_bit 1 remainder OR ucast (drop_bit i low AND 1)
      in if rem1 \<ge> divisor then divide_bits i low divisor (rem1 - divisor) (quot OR push_bit i 1)
         else divide_bits i low divisor rem1 quot)"

definition divide32 :: "'a cpu_scheme \<Rightarrow> u32 \<Rightarrow> bool \<Rightarrow> u16 \<Rightarrow> 'a stop" where
  "divide32 c divisor0 is_signed start =
     (let dividend0 = push_bit 32 (ucast (cpu_reg32 c DX)) OR ucast (cpu_reg32 c AX) :: u64;
          negative = (is_signed \<and> drop_bit 63 dividend0 \<noteq> 0);
          neg_divisor = (is_signed \<and> divisor0 AND 0x80000000 \<noteq> 0);
          dividend = (if negative then NOT dividend0 + 1 else dividend0);
          divisor = (if neg_divisor then 0 - divisor0 else divisor0);
          remainder0 = drop_bit 32 dividend;
          low = ucast dividend :: u32
      in if divisor = 0 \<or> remainder0 \<ge> ucast divisor then divide_error c start
         else let (remainder, quot) = divide_bits 32 low (ucast divisor) remainder0 0;
                  neg_quotient = (negative \<noteq> neg_divisor)
              in if is_signed \<and> quot > (if neg_quotient then 0x80000000 else 0x7FFFFFFF)
                 then divide_error c start
                 else let c1 = cpu_put_reg32 c AX (if neg_quotient then 0 - quot else quot)
                      in (CPU_OK, cpu_put_reg32 c1 DX (if negative then 0 - ucast remainder else ucast remainder)))"

subsection \<open>Decoding\<close>

text \<open>
  The first part of \<open>op32\<close>: whether there is a ModR/M byte, the size of the immediate and
  the second opcode byte (\<open>-1\<close> when there is none). \<open>Inl\<close> is \<open>return CPU_FAULT\<close>.
\<close>

definition is_alu32 :: "nat \<Rightarrow> bool" where
  "is_alu32 op \<longleftrightarrow> op < 0x40 \<and> (op mod 8 = 1 \<or> op mod 8 = 3 \<or> op mod 8 = 5)"

definition op32_form :: "nat \<Rightarrow> 'a cpu_scheme \<Rightarrow> 'a cpu_scheme + bool \<times> nat \<times> int \<times> 'a cpu_scheme" where
  "op32_form op c =
     (if is_alu32 op then let modrm = (op mod 8 \<noteq> 5) in Inr (modrm, if modrm then 0 else 4, - 1, c)
      else if 0xB8 \<le> op \<and> op \<le> 0xBF then Inr (False, 4, - 1, c)
      else if 0x40 \<le> op \<and> op \<le> 0x5F then Inr (False, 0, - 1, c)
      else if 0x90 \<le> op \<and> op \<le> 0x99 then Inr (False, 0, - 1, c)
      else if op \<in> {0x9C, 0x9D} then Inr (False, 0, - 1, c)
      else if op = 0x68 then Inr (False, 4, - 1, c)
      else if op = 0x69 then Inr (True, 4, - 1, c)
      else if op = 0x6B then Inr (True, 1, - 1, c)
      else if op = 0x6A then Inr (False, 1, - 1, c)
      else if op = 0x81 then Inr (True, 4, - 1, c)
      else if op = 0x83 then Inr (True, 1, - 1, c)
      else if op \<in> {0x85, 0x87, 0x89, 0x8B, 0x8D, 0x8F, 0xF7, 0xFF} then Inr (True, 0, - 1, c)
      else if op \<in> {0xA1, 0xA3} then Inr (False, 2, - 1, c)
      else if op = 0xA9 then Inr (False, 4, - 1, c)
      else if op = 0xC7 then Inr (True, 4, - 1, c)
      else if op = 0xC1 then Inr (True, 1, - 1, c)
      else if op \<in> {0xD1, 0xD3} then Inr (True, 0, - 1, c)
      else if op = 0x0F
      then let (e, c1) = fetch8 c; ext = int e
           in if ext \<in> {0xB6, 0xB7, 0xBE, 0xBF, 0xAF} then Inr (True, 0, ext, c1)
              else if ext \<in> {0xA3, 0xAB, 0xB3, 0xBB, 0xBA}
              then Inr (True, if ext = 0xBA then 1 else 0, ext, c1)
              else if ext \<in> {0xA4, 0xA5, 0xAC, 0xAD} then Inr (True, if ext mod 2 = 1 then 0 else 1, ext, c1)
              else if ext \<noteq> 0xA2 \<and> (ext < 0xC8 \<or> ext > 0xCF) then Inl c1
              else Inr (False, 0, ext, c1)
      else Inl c)"

text \<open>
  The ModR/M operand with its checks: the operand, the register field, the size of the
  immediate (which TEST adds) and the processor.
\<close>

definition op32_operand :: "nat \<Rightarrow> u16 option \<Rightarrow> int \<Rightarrow> nat \<Rightarrow> 'a cpu_scheme
    \<Rightarrow> 'a cpu_scheme + operand \<times> nat \<times> nat \<times> 'a cpu_scheme" where
  "op32_operand op override ext immediate c =
     (let (rm0, reg, c1) = decode_ov override c
      in if op \<in> {0xC1, 0xD1, 0xD3} \<and> reg = 6 then Inl c1
         else if op = 0xC7 \<and> reg \<noteq> 0 then Inl c1
         else if op = 0x8F \<and> reg \<noteq> 0 then Inl c1
         else if op = 0x8D \<and> is_reg rm0 then Inl c1
         else if op = 0xFF \<and> reg \<noteq> 0 \<and> reg \<noteq> 1 \<and> reg \<noteq> 6 then Inl c1
         else if ext = 0xBA \<and> reg < 4 then Inl c1
         else case (if ext \<in> {0xA3, 0xAB, 0xB3, 0xBB} then bit_address rm0 (sint (cpu_reg32 c1 reg)) 32 else Some rm0) of
                None \<Rightarrow> Inl c1
              | Some rm \<Rightarrow>
                  if op = 0xF7 \<and> reg = 1 then Inl c1
                  else let imm = (if op = 0xF7 \<and> reg = 0 then 4 else immediate);
                           width = (if ext = 0xB6 \<or> ext = 0xBE then 1
                                    else if ext = 0xB7 \<or> ext = 0xBF then 2 else 4 :: nat)
                       in case rm of
                            OpReg i \<Rightarrow> Inr (rm, reg, imm, c1)
                          | OpMem seg off \<Rightarrow>
                              if op \<noteq> 0x8D \<and> unat off + width > 0x10000 then Inl c1 else Inr (rm, reg, imm, c1))"

definition op32_pushing :: "nat \<Rightarrow> nat \<Rightarrow> bool" where
  "op32_pushing op reg \<longleftrightarrow>
     0x50 \<le> op \<and> op \<le> 0x57 \<or> op = 0x9C \<or> op = 0x68 \<or> op = 0x6A \<or> op = 0xFF \<and> reg = 6"

definition op32_popping :: "nat \<Rightarrow> bool" where
  "op32_popping op \<longleftrightarrow> 0x58 \<le> op \<and> op \<le> 0x5F \<or> op = 0x8F \<or> op = 0x9D"

text \<open>The immediate, of 0, 1, 2 or 4 bytes.\<close>

definition op32_immediate :: "nat \<Rightarrow> 'a cpu_scheme \<Rightarrow> u32" where
  "op32_immediate n c =
     (if n = 4 then ucast (rd16 c (sreg c 1) (ip c)) OR push_bit 16 (ucast (rd16 c (sreg c 1) (ip c + 2)))
      else if n = 2 then ucast (rd16 c (sreg c 1) (ip c))
      else if n = 1 then scast (rd8 c (sreg c 1) (ip c))
      else 0)"

text \<open>
  All of \<open>op32\<close> that comes before a register, a flag or memory may change: the decoded
  instruction, or a fault.
\<close>

definition op32_decode :: "nat \<Rightarrow> u16 option \<Rightarrow> u16 \<Rightarrow> 'a cpu_scheme
    \<Rightarrow> 'a cpu_scheme + operand \<times> nat \<times> bool \<times> int \<times> u32 \<times> 'a cpu_scheme" where
  "op32_decode op override start c =
     (case op32_form op c of
        Inl c1 \<Rightarrow> Inl c1
      | Inr (modrm, imm0, ext, c1) \<Rightarrow>
          (case (if modrm then op32_operand op override ext imm0 c1 else Inr (OpMem 0 0, 0, imm0, c1)) of
             Inl c2 \<Rightarrow> Inl c2
           | Inr (rm, reg, immediate, c2) \<Rightarrow>
               if unat (ip c2 - start) + immediate > 15 then Inl c2
               else if op32_pushing op reg \<and> r_lo c2 SP - 4 > 0xFFFC then Inl c2
               else if op32_popping op \<and> r_lo c2 SP > 0xFFFC then Inl c2
               else let b = op32_immediate immediate c2
                    in if (op = 0xA1 \<or> op = 0xA3) \<and> b > 0xFFFC then Inl c2
                       else Inr (rm, reg, modrm, ext, b, add_ip (of_nat immediate) c2)))"

subsection \<open>Execution\<close>

definition op32_imul :: "operand \<Rightarrow> nat \<Rightarrow> u32 \<Rightarrow> 'a cpu_scheme \<Rightarrow> 'a stop" where
  "op32_imul rm reg factor c =
     (let product = sint (get32 c rm) * sint factor;
          v = of_int product :: u32;
          over = (product \<noteq> sint v)
      in (CPU_OK, set_of over (set_cf over (cpu_put_reg32 c reg v))))"

definition op32_alu :: "nat \<Rightarrow> operand \<Rightarrow> nat \<Rightarrow> bool \<Rightarrow> u32 \<Rightarrow> 'a cpu_scheme \<Rightarrow> 'a cpu_scheme" where
  "op32_alu op rm reg modrm b0 c =
     (let operation = op div 8 mod 8;
          direction = (op mod 8 = 3);
          a = (if modrm then if direction then cpu_reg32 c reg else get32 c rm else cpu_reg32 c AX);
          b = (if modrm then if direction then get32 c rm else cpu_reg32 c reg else b0);
          (v, c1) = alu32 c operation a b
      in if operation \<noteq> ALU_CMP
         then if \<not> modrm \<or> direction then cpu_put_reg32 c1 (if modrm then reg else AX) v else put32 c1 rm v
         else c1)"

definition op32_push :: "nat \<Rightarrow> operand \<Rightarrow> u32 \<Rightarrow> 'a cpu_scheme \<Rightarrow> 'a cpu_scheme" where
  "op32_push op rm b c =
     (let v = (if op = 0x9C then (ucast (flags c) AND 0x7FD7) OR 2 OR push_bit 16 (ucast (flags_hi c AND 0x24))
               else if op = 0x68 \<or> op = 0x6A then b
               else if op = 0xFF then get32 c rm
               else cpu_reg32 c (op mod 8));
          c1 = set_r SP (r_lo c SP - 4) c
      in write32 c1 (sreg c1 2) (r_lo c1 SP) v)"

definition op32_pop :: "nat \<Rightarrow> operand \<Rightarrow> 'a cpu_scheme \<Rightarrow> 'a cpu_scheme" where
  "op32_pop op rm c =
     (let v = read32 c (sreg c 2) (r_lo c SP);
          c1 = set_r SP (r_lo c SP + 4) c
      in if op = 0x9D then c1\<lparr>flags := (ucast v AND 0x7FD7) OR 2, flags_hi := ucast (drop_bit 16 v) AND 0x24\<rparr>
         else if op = 0x8F then put32 c1 rm v
         else cpu_put_reg32 c1 (op mod 8) v)"

definition op32_xchg :: "nat \<Rightarrow> 'a cpu_scheme \<Rightarrow> 'a cpu_scheme" where
  "op32_xchg op c =
     (let v = cpu_reg32 c AX; a = cpu_reg32 c (op mod 8)
      in cpu_put_reg32 (cpu_put_reg32 c AX a) (op mod 8) v)"

text \<open>The group of \<open>F7\<close>: TEST, NOT, NEG, MUL, IMUL, DIV and IDIV.\<close>

definition op32_group3 :: "operand \<Rightarrow> nat \<Rightarrow> u32 \<Rightarrow> u16 \<Rightarrow> 'a cpu_scheme \<Rightarrow> 'a stop" where
  "op32_group3 rm reg b start c =
     (let a = get32 c rm
      in if reg = 0 then (CPU_OK, snd (alu32 c ALU_AND a b))
         else if reg = 2 then (CPU_OK, put32 c rm (NOT a))
         else if reg = 3 then let (v, c1) = alu32 c ALU_SUB 0 a in (CPU_OK, put32 c1 rm v)
         else if reg \<ge> 6 then divide32 c a (reg = 7) start
         else let product = (if reg = 4 then ucast (cpu_reg32 c AX) * ucast a
                             else of_int (sint (cpu_reg32 c AX) * sint a)) :: u64;
                  c1 = cpu_put_reg32 (cpu_put_reg32 c AX (ucast product)) DX (ucast (drop_bit 32 product));
                  overflow = (if reg = 4 then drop_bit 32 product \<noteq> 0
                              else sint product \<noteq> sint (ucast product :: u32))
              in (CPU_OK, set_of overflow (set_cf overflow c1)))"

text \<open>The two-byte forms.\<close>

definition op32_ext :: "int \<Rightarrow> u16 option \<Rightarrow> operand \<Rightarrow> nat \<Rightarrow> u32 \<Rightarrow> 'a cpu_scheme \<Rightarrow> 'a stop" where
  "op32_ext ext override rm reg b c =
     (if ext = 0xA2 then op_0f override (add_ip (- 1) c)
      else if ext \<in> {0xA3, 0xAB, 0xB3, 0xBB, 0xBA}
      then let i = (if ext = 0xBA then b else cpu_reg32 c reg) AND 31;
               m = push_bit (unat i) 1 :: u32;
               operation = (if ext = 0xBA then reg - 4 else nat (ext div 8 mod 4));
               a = get32 c rm;
               c1 = set_cf (a AND m \<noteq> 0) c
           in (CPU_OK, if operation \<noteq> 0
                 then put32 c1 rm (if operation = 1 then a OR m else if operation = 2 then a AND NOT m else a XOR m)
                 else c1)
      else if ext \<in> {0xA4, 0xA5, 0xAC, 0xAD}
      then let (v, c1) = double_shift c (get32 c rm) (cpu_reg32 c reg)
                           (if ext mod 2 = 1 then unat (r_lo c CX) else unat b) 32 (ext div 8 mod 2 = 1)
           in (CPU_OK, put32 c1 rm v)
      else if ext \<ge> 0xC8
      then let i = nat (ext mod 8); a = cpu_reg32 c i
           in (CPU_OK, cpu_put_reg32 c i (drop_bit 24 a OR (drop_bit 8 a AND 0xFF00)
                                          OR (push_bit 8 a AND 0xFF0000) OR push_bit 24 a))
      else (CPU_OK, cpu_put_reg32 c reg
              (if ext = 0xB6 then ucast (get8_rm c rm)
               else if ext = 0xB7 then ucast (get16 c rm)
               else if ext = 0xBE then scast (get8_rm c rm)
               else scast (get16 c rm))))"

text \<open>The rest of \<open>op32\<close>. LEA has a memory operand here: a register one was a fault.\<close>

definition op32_exec :: "nat \<Rightarrow> u16 option \<Rightarrow> u16 \<Rightarrow> operand \<Rightarrow> nat \<Rightarrow> bool \<Rightarrow> int \<Rightarrow> u32 \<Rightarrow> 'a cpu_scheme \<Rightarrow> 'a stop" where
  "op32_exec op override start rm reg modrm ext b c =
     (if op = 0x69 \<or> op = 0x6B \<or> ext = 0xAF
      then op32_imul rm reg (if ext = 0xAF then cpu_reg32 c reg else b) c
      else if is_alu32 op then (CPU_OK, op32_alu op rm reg modrm b c)
      else if 0xB8 \<le> op \<and> op \<le> 0xBF then (CPU_OK, cpu_put_reg32 c (op mod 8) b)
      else if 0x40 \<le> op \<and> op \<le> 0x4F
      then let cf = has c FLAG_CF;
               (v, c1) = alu32 c (if op < 0x48 then ALU_ADD else ALU_SUB) (cpu_reg32 c (op mod 8)) 1
           in (CPU_OK, set_cf cf (cpu_put_reg32 c1 (op mod 8) v))
      else if op32_pushing op reg then (CPU_OK, op32_push op rm b c)
      else if op32_popping op then (CPU_OK, op32_pop op rm c)
      else if 0x90 \<le> op \<and> op \<le> 0x97 then (CPU_OK, op32_xchg op c)
      else if op = 0x98 then (CPU_OK, cpu_put_reg32 c AX (scast (r_lo c AX)))
      else if op = 0x99 then (CPU_OK, cpu_put_reg32 c DX (if r_hi c AX AND 0x8000 \<noteq> 0 then 0xFFFFFFFF else 0))
      else if op = 0x81 \<or> op = 0x83
      then let (v, c1) = alu32 c reg (get32 c rm) b in (CPU_OK, if reg \<noteq> ALU_CMP then put32 c1 rm v else c1)
      else if op = 0x85 then (CPU_OK, snd (alu32 c ALU_AND (get32 c rm) (cpu_reg32 c reg)))
      else if op = 0x87
      then let a = get32 c rm; v = cpu_reg32 c reg in (CPU_OK, cpu_put_reg32 (put32 c rm v) reg a)
      else if op = 0x89 then (CPU_OK, put32 c rm (cpu_reg32 c reg))
      else if op = 0x8B then (CPU_OK, cpu_put_reg32 c reg (get32 c rm))
      else if op = 0x8D
      then (CPU_OK, cpu_put_reg32 c reg (case rm of OpMem seg off \<Rightarrow> ucast off | OpReg i \<Rightarrow> 0))
      else if op = 0xA1 then (CPU_OK, cpu_put_reg32 c AX (read32 c (seg_or override (sreg c 3)) (ucast b)))
      else if op = 0xA3 then (CPU_OK, write32 c (seg_or override (sreg c 3)) (ucast b) (cpu_reg32 c AX))
      else if op = 0xA9 then (CPU_OK, snd (alu32 c ALU_AND (cpu_reg32 c AX) b))
      else if op = 0xC7 then (CPU_OK, put32 c rm b)
      else if op \<in> {0xC1, 0xD1, 0xD3}
      then let (v, c1) = shift c reg (get32 c rm)
                           (if op = 0xD1 then 1 else if op = 0xD3 then unat (r_lo c CX) else unat b) 32
           in (CPU_OK, put32 c1 rm v)
      else if op = 0xF7 then op32_group3 rm reg b start c
      else if op = 0xFF
      then let cf = has c FLAG_CF;
               (v, c1) = alu32 c (if reg = 0 then ALU_ADD else ALU_SUB) (get32 c rm) 1
           in (CPU_OK, set_cf cf (put32 c1 rm v))
      else if op = 0x0F then op32_ext ext override rm reg b c
      else (CPU_OK, c))"

definition op32 :: "nat \<Rightarrow> u16 option \<Rightarrow> u16 \<Rightarrow> 'a cpu_scheme \<Rightarrow> 'a stop" where
  "op32 op override start c =
     (case op32_decode op override start c of
        Inl c1 \<Rightarrow> (CPU_FAULT, c1)
      | Inr (rm, reg, modrm, ext, b, c1) \<Rightarrow> op32_exec op override start rm reg modrm ext b c1)"

end
