(* ===== verification/Dos_Alu.thy ===== *)
theory Dos_Alu
  imports Dos_Step
begin

text \<open>
  Correctness of the arithmetic of \<open>dosrun\<close>'s processor: the flag word as bits, the
  arithmetic unit at its three widths against a reference on the integers, and the shift
  and rotate loops against products, quotients and permutations of bits.
\<close>

section \<open>Flags as bits\<close>

lemma and_pow2: "x AND push_bit n 1 \<noteq> 0 \<longleftrightarrow> bit x n" for x :: "'a::len word"
  by (simp add: push_bit_eq_mult and_exp_eq_0_iff_not_bit)

lemma flag_pow2:
  "FLAG_CF = push_bit 0 1" "FLAG_PF = push_bit 2 1" "FLAG_AF = push_bit 4 1" "FLAG_ZF = push_bit 6 1"
  "FLAG_SF = push_bit 7 1" "FLAG_TF = push_bit 8 1" "FLAG_IF = push_bit 9 1" "FLAG_DF = push_bit 10 1"
  "FLAG_OF = push_bit 11 1"
  by (simp_all add: flag_masks)

lemma has_bit [simp]:
  "has c FLAG_CF \<longleftrightarrow> bit (flags c) 0" "has c FLAG_PF \<longleftrightarrow> bit (flags c) 2" "has c FLAG_AF \<longleftrightarrow> bit (flags c) 4"
  "has c FLAG_ZF \<longleftrightarrow> bit (flags c) 6" "has c FLAG_SF \<longleftrightarrow> bit (flags c) 7" "has c FLAG_TF \<longleftrightarrow> bit (flags c) 8"
  "has c FLAG_IF \<longleftrightarrow> bit (flags c) 9" "has c FLAG_DF \<longleftrightarrow> bit (flags c) 10" "has c FLAG_OF \<longleftrightarrow> bit (flags c) 11"
  unfolding has_def flag_pow2 and_pow2 by (rule refl)+

lemma bit_set_flag:
  "n < 16 \<Longrightarrow> bit (flags (set_flag (push_bit k 1) on c)) n = (if n = k then on else bit (flags c) n)"
  by (auto simp: set_flag_def bit_simps)

lemma bit_set_cf [simp]: "n < 16 \<Longrightarrow> bit (flags (set_cf on c)) n = (if n = 0 then on else bit (flags c) n)"
  and bit_set_of [simp]: "n < 16 \<Longrightarrow> bit (flags (set_of on c)) n = (if n = 11 then on else bit (flags c) n)"
  and bit_set_af [simp]: "n < 16 \<Longrightarrow> bit (flags (set_af on c)) n = (if n = 4 then on else bit (flags c) n)"
  unfolding set_cf_def set_of_def set_af_def flag_pow2 by (rule bit_set_flag, assumption)+

definition even_parity :: "u8 \<Rightarrow> bool" where
  "even_parity v \<longleftrightarrow> even (length (filter (bit v) [0 ..< 8]))"

lemma parity_bits: "parity v = (if even_parity v then FLAG_PF else 0)"
proof -
  have *: "x AND 1 \<noteq> 0 \<longleftrightarrow> bit x 0" for x :: u8 using and_pow2 [of x 0] by simp
  have u: "[0 ..< 8] = [0, 1, 2, 3, 4, 5, 6, 7 :: nat]" by (simp add: upt_rec)
  have "even_parity v \<longleftrightarrow> ((bit v 0 = bit v 1) = (bit v 2 = bit v 3)) = ((bit v 4 = bit v 5) = (bit v 6 = bit v 7))"
    unfolding even_parity_def u by simp
  then show ?thesis
    unfolding parity_def Let_def * by (simp add: bit_simps numeral_3_eq_3 del: bit_0) argo
qed

lemma three_flags:
  fixes x :: u16
  assumes "n < 16" "z \<noteq> k" "z \<noteq> p" "k \<noteq> p"
  defines "g \<equiv> x AND NOT (push_bit k 1 OR push_bit z 1 OR push_bit p 1)"
  shows "bit ((if B then (if A then g OR push_bit z 1 else g) OR push_bit k 1
      else if A then g OR push_bit z 1 else g) OR (if C then push_bit p 1 else 0)) n
    = (if n = z then A else if n = k then B else if n = p then C else bit x n)"
proof -
  have b: "bit (2 ^ m :: u16) n \<longleftrightarrow> n = m" for m using assms(1) by (auto simp: bit_exp_iff)
  have "bit g n \<longleftrightarrow> bit x n \<and> n \<noteq> z \<and> n \<noteq> k \<and> n \<noteq> p"
    using assms(1) by (auto simp: g_def b bit_and_iff bit_not_iff bit_or_iff)
  then show ?thesis using assms(2-4) by (cases A; cases B; cases C) (auto simp: b bit_or_iff)
qed

lemma bit_cpu_set_flags:
  assumes "bits \<in> {8, 16, 32}" "n < 16"
  shows "bit (flags (cpu_set_flags c v bits)) n =
    (if n = 6 then take_bit bits v = 0 else if n = 7 then bit v (bits - 1)
     else if n = 2 then even_parity (ucast v) else bit (flags c) n)"
proof -
  have V: "v AND (if bits = 8 then 0xFF else if bits = 16 then 0xFFFF else 0xFFFFFFFF) = take_bit bits v"
    using assms(1) and.right_neutral [of v] by (auto simp: take_bit_eq_mask mask_eq_exp_minus_1)
  have S: "(if bits = 8 then 0x80 else if bits = 16 then 0x8000 else 0x80000000) = (push_bit (bits - 1) 1 :: u32)"
    using assms(1) by auto
  have U: "ucast (take_bit bits v) = (ucast v :: u8)"
    using assms(1) by (intro bit_word_eqI) (auto simp: bit_simps)
  have P: "parity x = (if even_parity x then push_bit 2 1 else 0)" for x unfolding parity_bits flag_pow2 by (rule refl)
  have F: "flags (c\<lparr>flags := x\<rparr>) = x" for x by simp
  have "bit (flags (cpu_set_flags c v bits)) n = (if n = 6 then take_bit bits v = 0
      else if n = 7 then take_bit bits v AND push_bit (bits - 1) 1 \<noteq> 0
      else if n = 2 then even_parity (ucast v) else bit (flags c) n)"
    unfolding cpu_set_flags_def Let_def V S U P F flag_pow2 by (rule three_flags [OF assms(2)]) simp_all
  then show ?thesis using assms(1) and_pow2 [of "take_bit bits v" "bits - 1"]
    by (auto simp: bit_take_bit_iff simp del: push_bit_of_1)
qed

section \<open>Carries on the integers\<close>

lemma bit_add_carry:
  fixes a b k :: int
  assumes "0 \<le> k" "k \<le> 1"
  shows "bit (a + b + k) n \<longleftrightarrow> (bit a n \<noteq> bit b n) \<noteq> (a mod 2 ^ n + b mod 2 ^ n + k \<ge> 2 ^ n)"
proof -
  define P where "P = (2 :: int) ^ n"
  have P: "P > 0" by (simp add: P_def)
  have eq: "a + b + k = (a mod P + b mod P + k) + P * (a div P + b div P)"
    by (simp add: algebra_simps)
  have "(a + b + k) div P = a div P + b div P + (a mod P + b mod P + k) div P"
    using P by (subst eq) simp
  moreover have "(a mod P + b mod P + k) div P = (if a mod P + b mod P + k \<ge> P then 1 else 0)"
  proof -
    have "a mod P < P" "b mod P < P" "0 \<le> a mod P" "0 \<le> b mod P" using P by simp_all
    then have lt: "a mod P + b mod P + k < 2 * P" "0 \<le> a mod P + b mod P + k" using assms by linarith+
    show ?thesis
    proof (cases "a mod P + b mod P + k \<ge> P")
      case True
      then have "(a mod P + b mod P + k) div P = (a mod P + b mod P + k - P) div P + 1"
        using P by (intro div_pos_geq) auto
      moreover have "(a mod P + b mod P + k - P) div P = 0" using True lt by (intro div_pos_pos_trivial) linarith+
      ultimately show ?thesis using True by simp
    qed (use lt in simp)
  qed
  ultimately show ?thesis unfolding bit_iff_odd P_def by auto
qed

lemma bit_sub_borrow:
  fixes a b k :: int
  assumes "0 \<le> k" "k \<le> 1"
  shows "bit (a - b - k) n \<longleftrightarrow> (bit a n \<noteq> bit b n) \<noteq> (a mod 2 ^ n < b mod 2 ^ n + k)"
proof -
  have a: "a = (a - b - k) + b + k" by simp
  have "bit a n \<longleftrightarrow> (bit (a - b - k) n \<noteq> bit b n) \<noteq> ((a - b - k) mod 2 ^ n + b mod 2 ^ n + k \<ge> 2 ^ n)"
    using bit_add_carry [OF assms, of "a - b - k" b n] by simp
  moreover have "(a - b - k) mod 2 ^ n + b mod 2 ^ n + k \<ge> 2 ^ n \<longleftrightarrow> a mod 2 ^ n < b mod 2 ^ n + k"
  proof -
    define P where "P = (2 :: int) ^ n"
    define x where "x = (a - b - k) mod P"
    have P: "P > 0" by (simp add: P_def)
    define y where "y = x + b mod P + k"
    have x: "0 \<le> x" "x < P" "0 \<le> b mod P" "b mod P < P" using P by (simp_all add: x_def)
    have ay: "a mod P = y mod P"
      unfolding x_def y_def by (metis (no_types, opaque_lifting) a mod_add_eq mod_add_left_eq)
    have "y \<ge> P \<longleftrightarrow> a mod P < b mod P + k"
    proof (cases "y \<ge> P")
      case True
      have "y mod P = (y - P) mod P" using P True by (intro mod_pos_geq)
      also have "\<dots> = y - P" using True x assms by (intro mod_pos_pos_trivial) (simp_all add: y_def)
      finally show ?thesis using ay True x by (simp add: y_def)
    next
      case False
      then have "y mod P = y" using x assms by (intro mod_pos_pos_trivial) (simp_all add: y_def)
      then show ?thesis using ay False x by (simp add: y_def)
    qed
    then show ?thesis by (simp add: x_def y_def P_def)
  qed
  ultimately show ?thesis by blast
qed

lemma top_bit:
  fixes a :: int
  assumes "0 \<le> a" "a < 2 ^ Suc n"
  shows "bit a n \<longleftrightarrow> 2 ^ n \<le> a" "a mod 2 ^ n = (if 2 ^ n \<le> a then a - 2 ^ n else a)"
proof -
  have "a div 2 ^ n = (if 2 ^ n \<le> a then 1 else 0)"
    using assms by (auto simp: div_pos_geq)
  then show "bit a n \<longleftrightarrow> 2 ^ n \<le> a" "a mod 2 ^ n = (if 2 ^ n \<le> a then a - 2 ^ n else a)"
    by (auto simp: bit_iff_odd minus_div_mult_eq_mod [symmetric])
qed

definition signed_of :: "nat \<Rightarrow> int \<Rightarrow> int" where
  "signed_of w x = (if 2 ^ (w - 1) \<le> x then x - 2 ^ w else x)"

definition fits_signed :: "nat \<Rightarrow> int \<Rightarrow> bool" where
  "fits_signed w x \<longleftrightarrow> - (2 ^ (w - 1)) \<le> x \<and> x < 2 ^ (w - 1)"

lemma add_overflow:
  fixes a b k :: int
  assumes "0 \<le> a" "a < 2 ^ Suc n" "0 \<le> b" "b < 2 ^ Suc n" "0 \<le> k" "k \<le> 1"
  shows "bit a n \<noteq> bit (a + b + k) n \<and> bit b n \<noteq> bit (a + b + k) n
    \<longleftrightarrow> \<not> fits_signed (Suc n) (signed_of (Suc n) a + signed_of (Suc n) b + k)"
proof -
  define M where "M = (2 :: int) ^ n"
  have M: "M > 0" "2 ^ Suc n = 2 * M" by (simp_all add: M_def)
  note t = top_bit [OF assms(1,2), folded M_def] top_bit [OF assms(3,4), folded M_def]
  show ?thesis
    using assms M unfolding bit_add_carry [OF assms(5,6), folded M_def] t fits_signed_def signed_of_def diff_Suc_1 M_def [symmetric] M(2)
    by (cases "M \<le> a"; cases "M \<le> b") auto
qed

lemma sub_overflow:
  fixes a b k :: int
  assumes "0 \<le> a" "a < 2 ^ Suc n" "0 \<le> b" "b < 2 ^ Suc n" "0 \<le> k" "k \<le> 1"
  shows "bit a n \<noteq> bit b n \<and> bit a n \<noteq> bit (a - b - k) n
    \<longleftrightarrow> \<not> fits_signed (Suc n) (signed_of (Suc n) a - signed_of (Suc n) b - k)"
proof -
  define M where "M = (2 :: int) ^ n"
  have M: "M > 0" "2 ^ Suc n = 2 * M" by (simp_all add: M_def)
  note t = top_bit [OF assms(1,2), folded M_def] top_bit [OF assms(3,4), folded M_def]
  show ?thesis
    using assms M unfolding bit_sub_borrow [OF assms(5,6), folded M_def] t fits_signed_def signed_of_def diff_Suc_1 M_def [symmetric] M(2)
    by (cases "M \<le> a"; cases "M \<le> b") auto
qed

section \<open>The arithmetic unit\<close>

definition alu_result :: "nat \<Rightarrow> nat \<Rightarrow> int \<Rightarrow> int \<Rightarrow> int \<Rightarrow> int" where
  "alu_result w op a b k =
     (if op = ALU_ADD then (a + b) mod 2 ^ w
      else if op = ALU_ADC then (a + b + k) mod 2 ^ w
      else if op = ALU_SUB \<or> op = ALU_CMP then (a - b) mod 2 ^ w
      else if op = ALU_SBB then (a - b - k) mod 2 ^ w
      else if op = ALU_AND then a AND b
      else if op = ALU_OR then a OR b
      else a XOR b)"

definition alu_carry :: "nat \<Rightarrow> nat \<Rightarrow> int \<Rightarrow> int \<Rightarrow> int \<Rightarrow> bool" where
  "alu_carry w op a b k =
     (if op = ALU_ADD then a + b \<ge> 2 ^ w
      else if op = ALU_ADC then a + b + k \<ge> 2 ^ w
      else if op = ALU_SUB \<or> op = ALU_CMP then a < b
      else if op = ALU_SBB then a < b + k
      else False)"

definition alu_overflow :: "nat \<Rightarrow> nat \<Rightarrow> int \<Rightarrow> int \<Rightarrow> int \<Rightarrow> bool" where
  "alu_overflow w op a b k =
     (let s = signed_of w
      in if op = ALU_ADD then \<not> fits_signed w (s a + s b)
         else if op = ALU_ADC then \<not> fits_signed w (s a + s b + k)
         else if op = ALU_SUB \<or> op = ALU_CMP then \<not> fits_signed w (s a - s b)
         else if op = ALU_SBB then \<not> fits_signed w (s a - s b - k)
         else False)"

definition alu_half :: "nat \<Rightarrow> int \<Rightarrow> int \<Rightarrow> int \<Rightarrow> bool" where
  "alu_half op a b k =
     (if op = ALU_ADD then a mod 16 + b mod 16 \<ge> 16
      else if op = ALU_ADC then a mod 16 + b mod 16 + k \<ge> 16
      else if op = ALU_SUB \<or> op = ALU_CMP then a mod 16 < b mod 16
      else if op = ALU_SBB then a mod 16 < b mod 16 + k
      else False)"

definition alu_ok :: "nat \<Rightarrow> nat \<Rightarrow> int \<Rightarrow> int \<Rightarrow> 'a cpu_scheme \<Rightarrow> int \<Rightarrow> 'a cpu_scheme \<Rightarrow> bool" where
  "alu_ok w op a b c v c' \<longleftrightarrow>
     (let k = of_bool (has c FLAG_CF)
      in v = alu_result w op a b k
         \<and> has c' FLAG_CF = alu_carry w op a b k \<and> has c' FLAG_OF = alu_overflow w op a b k
         \<and> has c' FLAG_AF = alu_half op a b k \<and> has c' FLAG_ZF = (v = 0)
         \<and> has c' FLAG_SF = (signed_of w v < 0) \<and> has c' FLAG_PF = even_parity (of_int v)
         \<and> (\<forall>n < 16. n \<notin> {0, 2, 4, 6, 7, 11} \<longrightarrow> bit (flags c') n = bit (flags c) n)
         \<and> c'\<lparr>flags := flags c\<rparr> = c)"

lemma flags_only [simp]:
  "(set_flag f on c)\<lparr>flags := x\<rparr> = c\<lparr>flags := x\<rparr>" "(set_cf on c)\<lparr>flags := x\<rparr> = c\<lparr>flags := x\<rparr>"
  "(set_of on c)\<lparr>flags := x\<rparr> = c\<lparr>flags := x\<rparr>" "(set_af on c)\<lparr>flags := x\<rparr> = c\<lparr>flags := x\<rparr>"
  "(cpu_set_flags c v n)\<lparr>flags := x\<rparr> = c\<lparr>flags := x\<rparr>"
  by (simp_all add: set_flag_def set_cf_def set_of_def set_af_def cpu_set_flags_def Let_def)

text \<open>The flags common to the three widths, from the result and the three computed ones.\<close>

lemma alu_okI:
  fixes r :: u32
  assumes w: "w \<in> {8, 16, 32}" and k: "k = of_bool (has c FLAG_CF)"
    and r: "uint (take_bit w r) = alu_result w op a b k"
    and "C = alu_carry w op a b k" "V = alu_overflow w op a b k" "H = alu_half op a b k"
  shows "alu_ok w op a b c (uint (take_bit w r)) (cpu_set_flags (set_af H (set_of V (set_cf C c))) r w)"
proof -
  let ?v = "uint (take_bit w r)"
  have v: "0 \<le> ?v" "?v < 2 ^ w" using w by (auto simp: unsigned_take_bit_eq)
  have "bit r (w - 1) \<longleftrightarrow> bit ?v (w - 1)" using w by (auto simp: bit_simps)
  also have "\<dots> \<longleftrightarrow> 2 ^ (w - 1) \<le> ?v" using top_bit(1) [OF v(1), of "w - 1"] v(2) w by auto
  also have "\<dots> \<longleftrightarrow> signed_of w ?v < 0" using v by (auto simp: signed_of_def)
  finally have sf: "bit r (w - 1) \<longleftrightarrow> signed_of w ?v < 0" .
  have pf: "(of_int ?v :: u8) = ucast r" using w by (intro bit_word_eqI) (auto simp: bit_simps)
  have zf: "?v = 0 \<longleftrightarrow> take_bit w r = 0" by (rule unsigned_eq_0_iff)
  show ?thesis
    unfolding alu_ok_def Let_def k [symmetric] r assms(4-6)
    using sf [unfolded r] by (simp add: bit_cpu_set_flags [OF w] pf [unfolded r] zf [unfolded r])
qed


lemma and_numeral_bit:
  "x AND 1 \<noteq> 0 \<longleftrightarrow> bit x 0" "y AND 0x10 \<noteq> 0 \<longleftrightarrow> bit y 4" "y AND 0x80 \<noteq> 0 \<longleftrightarrow> bit y 7"
  "y AND 0x8000 \<noteq> 0 \<longleftrightarrow> bit y 15" "y AND 0x80000000 \<noteq> 0 \<longleftrightarrow> bit y 31"
  for x :: "'a::len word" and y :: u32
  using and_pow2 [of x 0] and_pow2 [of y 4] and_pow2 [of y 7] and_pow2 [of y 15] and_pow2 [of y 31] by simp_all

lemma word32_parts:
  fixes R :: int
  assumes "w \<in> {8, 16, 32}"
  shows "uint (take_bit w (word_of_int R :: u32)) = R mod 2 ^ w"
    "n < 32 \<Longrightarrow> bit (word_of_int R :: u32) n \<longleftrightarrow> bit R n"
proof -
  show "uint (take_bit w (word_of_int R :: u32)) = R mod 2 ^ w"
    using assms by (auto simp: unsigned_take_bit_eq uint_word_of_int_eq take_bit_take_bit simp flip: take_bit_eq_mod)
qed (simp add: bit_word_of_int_iff)

lemma add_parts:
  fixes A B k :: int
  assumes w: "w \<in> {8, 16, 32}" and r: "0 \<le> A" "A < 2 ^ w" "0 \<le> B" "B < 2 ^ w" "0 \<le> k" "k \<le> 1"
  defines "a \<equiv> word_of_int A :: u32" and "b \<equiv> word_of_int B :: u32" and "x \<equiv> word_of_int (A + B + k) :: u32"
  shows "uint (take_bit w x) = (A + B + k) mod 2 ^ w"
    "bit a (w - 1) \<noteq> bit x (w - 1) \<and> bit b (w - 1) \<noteq> bit x (w - 1)
       \<longleftrightarrow> \<not> fits_signed w (signed_of w A + signed_of w B + k)"
    "(bit a 4 \<noteq> bit b 4) \<noteq> bit x 4 \<longleftrightarrow> A mod 16 + B mod 16 + k \<ge> 16"
proof -
  note p = word32_parts [OF w]
  have "w - 1 < 32" "Suc (w - 1) = w" using w by auto
  then show "bit a (w - 1) \<noteq> bit x (w - 1) \<and> bit b (w - 1) \<noteq> bit x (w - 1)
       \<longleftrightarrow> \<not> fits_signed w (signed_of w A + signed_of w B + k)"
    using add_overflow [of A "w - 1" B k] r unfolding a_def b_def x_def by (simp add: p(2) del: of_int_add of_int_diff)
  show "(bit a 4 \<noteq> bit b 4) \<noteq> bit x 4 \<longleftrightarrow> A mod 16 + B mod 16 + k \<ge> 16"
    using bit_add_carry [OF r(5,6), of A B 4] unfolding a_def b_def x_def by (simp add: p(2) del: of_int_add of_int_diff) argo
qed (simp only: x_def word32_parts(1) [OF w])

lemma sub_parts:
  fixes A B k :: int
  assumes w: "w \<in> {8, 16, 32}" and r: "0 \<le> A" "A < 2 ^ w" "0 \<le> B" "B < 2 ^ w" "0 \<le> k" "k \<le> 1"
  defines "a \<equiv> word_of_int A :: u32" and "b \<equiv> word_of_int B :: u32" and "x \<equiv> word_of_int (A - B - k) :: u32"
  shows "uint (take_bit w x) = (A - B - k) mod 2 ^ w"
    "bit a (w - 1) \<noteq> bit b (w - 1) \<and> bit a (w - 1) \<noteq> bit x (w - 1)
       \<longleftrightarrow> \<not> fits_signed w (signed_of w A - signed_of w B - k)"
    "(bit a 4 \<noteq> bit b 4) \<noteq> bit x 4 \<longleftrightarrow> A mod 16 < B mod 16 + k"
proof -
  note p = word32_parts [OF w]
  have "w - 1 < 32" "Suc (w - 1) = w" using w by auto
  then show "bit a (w - 1) \<noteq> bit b (w - 1) \<and> bit a (w - 1) \<noteq> bit x (w - 1)
       \<longleftrightarrow> \<not> fits_signed w (signed_of w A - signed_of w B - k)"
    using sub_overflow [of A "w - 1" B k] r unfolding a_def b_def x_def by (simp add: p(2) del: of_int_add of_int_diff)
  show "(bit a 4 \<noteq> bit b 4) \<noteq> bit x 4 \<longleftrightarrow> A mod 16 < B mod 16 + k"
    using bit_sub_borrow [OF r(5,6), of A B 4] unfolding a_def b_def x_def by (simp add: p(2) del: of_int_add of_int_diff) argo
qed (simp only: x_def word32_parts(1) [OF w])

lemma uint_ucast_take:
  "uint (ucast x :: u16) = uint (take_bit 16 x)" "uint (ucast x :: u8) = uint (take_bit 8 x)" for x :: u32
  by (simp_all add: unsigned_ucast_eq unsigned_take_bit_eq)

lemma word_of_int_gt:
  assumes "0 \<le> R" "R < 2 ^ 32" "w < 32"
  shows "(word_of_int R :: u32) > word_of_int (2 ^ w - 1) \<longleftrightarrow> R \<ge> 2 ^ w"
proof -
  have "(2 :: int) ^ w < 2 ^ 32" using assms(3) by (intro power_strict_increasing) auto
  then have "uint (word_of_int (2 ^ w - 1) :: u32) = 2 ^ w - 1"
    by (simp only: uint_word_of_int_eq) (rule take_bit_int_eq_self, simp_all)
  moreover have "uint (word_of_int R :: u32) = R"
    using assms by (simp only: uint_word_of_int_eq) (rule take_bit_int_eq_self, simp_all)
  ultimately show ?thesis unfolding word_less_alt by linarith
qed

lemmas alu_ref = alu_result_def alu_carry_def alu_overflow_def alu_half_def

lemma logic_parts:
  fixes A B :: int
  assumes w: "w \<in> {8, 16, 32}" and r: "0 \<le> A" "A < 2 ^ w" "0 \<le> B" "B < 2 ^ w"
  shows "uint (take_bit w (word_of_int A AND word_of_int B :: u32)) = A AND B"
    "uint (take_bit w (word_of_int A OR word_of_int B :: u32)) = A OR B"
    "uint (take_bit w (word_of_int A XOR word_of_int B :: u32)) = A XOR B"
proof -
  have t: "take_bit w A = A" "take_bit w B = B" using r by (simp_all add: take_bit_int_eq_self)
  have p: "uint (take_bit w (word_of_int X :: u32)) = take_bit w X" for X
    using word32_parts(1) [OF w] by (simp add: take_bit_eq_mod)
  show "uint (take_bit w (word_of_int A AND word_of_int B :: u32)) = A AND B"
    unfolding of_int_and_eq [symmetric] p by (simp add: t)
  show "uint (take_bit w (word_of_int A OR word_of_int B :: u32)) = A OR B"
    unfolding of_int_or_eq [symmetric] p by (simp add: t)
  show "uint (take_bit w (word_of_int A XOR word_of_int B :: u32)) = A XOR B"
    unfolding of_int_xor_eq [symmetric] p by (simp add: t)
qed

lemma and3_bit:
  "X AND Y AND 0x80 \<noteq> 0 \<longleftrightarrow> bit X 7 \<and> bit Y 7" "X AND Y AND 0x8000 \<noteq> 0 \<longleftrightarrow> bit X 15 \<and> bit Y 15"
  "X AND Y AND 0x80000000 \<noteq> 0 \<longleftrightarrow> bit X 31 \<and> bit Y 31" for X Y :: u32
  unfolding and.assoc [symmetric] and_numeral_bit bit_and_iff by (rule refl)+

text \<open>What the three widths compute alike: the result, the overflow and the half carry.\<close>

definition alu_core :: "nat \<Rightarrow> nat \<Rightarrow> u32 \<Rightarrow> u32 \<Rightarrow> u32 \<Rightarrow> u32 \<times> bool \<times> bool" where
  "alu_core w op a b k =
     (let sum = (\<lambda>r. (r, bit ((a XOR r) AND (b XOR r)) (w - 1), bit (a XOR b XOR r) 4));
          dif = (\<lambda>r. (r, bit ((a XOR b) AND (a XOR r)) (w - 1), bit (a XOR b XOR r) 4))
      in if op = ALU_ADD then sum (a + b)
         else if op = ALU_ADC then sum (a + b + k)
         else if op = ALU_SUB \<or> op = ALU_CMP then dif (a - b)
         else if op = ALU_SBB then dif (a - b - k)
         else (if op = ALU_AND then a AND b else if op = ALU_OR then a OR b else a XOR b, False, False))"

lemma alu_core_ok:
  fixes A B k :: int
  assumes w: "w \<in> {8, 16, 32}" and r: "0 \<le> A" "A < 2 ^ w" "0 \<le> B" "B < 2 ^ w" and k: "0 \<le> k" "k \<le> 1"
    and core: "alu_core w op (word_of_int A) (word_of_int B) (word_of_int k) = (x, V, H)"
  shows "uint (take_bit w x) = alu_result w op A B k \<and> V = alu_overflow w op A B k \<and> H = alu_half op A B k"
proof -
  note add0 = add_parts [OF w r order_refl zero_le_one, unfolded add_0_right]
    and sub0 = sub_parts [OF w r order_refl zero_le_one, unfolded add_0_right diff_0_right]
    and add1 = add_parts [OF w r k] and sub1 = sub_parts [OF w r k] and logic = logic_parts [OF w r]
  consider "op = ALU_ADD" | "op = ALU_ADC" | "op = ALU_SUB \<or> op = ALU_CMP" | "op = ALU_SBB"
    | "op \<notin> {ALU_ADD, ALU_ADC, ALU_SUB, ALU_CMP, ALU_SBB}" by blast
  then show ?thesis
  proof cases
    case 1
    have e: "x = word_of_int (A + B)" "V = bit ((word_of_int A XOR x) AND (word_of_int B XOR x)) (w - 1)" "H = bit (word_of_int A XOR word_of_int B XOR x) 4"
      using core 1 by (auto simp: alu_core_def Let_def alu_nums)
    have s: "alu_result w op A B k = (A + B) mod 2 ^ w" "alu_overflow w op A B k \<longleftrightarrow> \<not> fits_signed w (signed_of w A + signed_of w B)" "alu_half op A B k \<longleftrightarrow> A mod 16 + B mod 16 \<ge> 16"
      using 1 by (auto simp: alu_ref alu_nums)
    show ?thesis unfolding s e(2,3) bit_and_iff bit_xor_iff using add0 [folded e(1)] by argo
  next
    case 2
    have e: "x = word_of_int (A + B + k)" "V = bit ((word_of_int A XOR x) AND (word_of_int B XOR x)) (w - 1)" "H = bit (word_of_int A XOR word_of_int B XOR x) 4"
      using core 2 by (auto simp: alu_core_def Let_def alu_nums)
    have s: "alu_result w op A B k = (A + B + k) mod 2 ^ w" "alu_overflow w op A B k \<longleftrightarrow> \<not> fits_signed w (signed_of w A + signed_of w B + k)" "alu_half op A B k \<longleftrightarrow> A mod 16 + B mod 16 + k \<ge> 16"
      using 2 by (auto simp: alu_ref alu_nums)
    show ?thesis unfolding s e(2,3) bit_and_iff bit_xor_iff using add1 [folded e(1)] by argo
  next
    case 3
    have e: "x = word_of_int (A - B)" "V = bit ((word_of_int A XOR word_of_int B) AND (word_of_int A XOR x)) (w - 1)" "H = bit (word_of_int A XOR word_of_int B XOR x) 4"
      using core 3 by (auto simp: alu_core_def Let_def alu_nums)
    have s: "alu_result w op A B k = (A - B) mod 2 ^ w" "alu_overflow w op A B k \<longleftrightarrow> \<not> fits_signed w (signed_of w A - signed_of w B)" "alu_half op A B k \<longleftrightarrow> A mod 16 < B mod 16"
      using 3 by (auto simp: alu_ref alu_nums)
    show ?thesis unfolding s e(2,3) bit_and_iff bit_xor_iff using sub0 [folded e(1)] by argo
  next
    case 4
    have e: "x = word_of_int (A - B - k)" "V = bit ((word_of_int A XOR word_of_int B) AND (word_of_int A XOR x)) (w - 1)" "H = bit (word_of_int A XOR word_of_int B XOR x) 4"
      using core 4 by (auto simp: alu_core_def Let_def alu_nums)
    have s: "alu_result w op A B k = (A - B - k) mod 2 ^ w" "alu_overflow w op A B k \<longleftrightarrow> \<not> fits_signed w (signed_of w A - signed_of w B - k)" "alu_half op A B k \<longleftrightarrow> A mod 16 < B mod 16 + k"
      using 4 by (auto simp: alu_ref alu_nums)
    show ?thesis unfolding s e(2,3) bit_and_iff bit_xor_iff using sub1 [folded e(1)] by argo
  next
    case 5
    then have "V = False" "H = False" "x = (if op = ALU_AND then word_of_int A AND word_of_int B
        else if op = ALU_OR then word_of_int A OR word_of_int B else word_of_int A XOR word_of_int B)"
      using core by (auto simp: alu_core_def Let_def)
    then show ?thesis using 5 logic by (simp add: alu_ref alu_nums)
  qed
qed

lemma alu16_eq:
  fixes a0 b0 :: u16 and c :: "'a cpu_scheme"
  defines "A \<equiv> uint a0" and "B \<equiv> uint b0" and "k \<equiv> of_bool (has c FLAG_CF)"
  shows "alu16 c op a0 b0 =
    (case alu_core 16 op (word_of_int A) (word_of_int B) (word_of_int k) of
       (x, V, H) \<Rightarrow> (ucast x, cpu_set_flags (set_af H (set_of V (set_cf (alu_carry 16 op A B k) c))) x 16))"
proof -
  have r: "0 \<le> A" "A < 2 ^ 16" "0 \<le> B" "B < 2 ^ 16" "0 \<le> k" "k \<le> 1"
    using unsigned_less [of a0] unsigned_less [of b0] by (simp_all add: A_def B_def k_def)
  have ab: "ucast a0 = (word_of_int A :: u32)" "ucast b0 = (word_of_int B :: u32)" by (simp_all add: A_def B_def)
  have kk: "(if has c FLAG_CF then 1 else 0) = k" by (simp add: k_def)
  have carry: "((word_of_int A + word_of_int B :: u32) > 0xFFFF) = (A + B \<ge> 2 ^ 16)"
      "((word_of_int A + word_of_int B + word_of_int k :: u32) > 0xFFFF) = (A + B + k \<ge> 2 ^ 16)"
    using word_of_int_gt [of "A + B" 16] word_of_int_gt [of "A + B + k" 16] r by simp_all
  have borrow: "(A - B < 0) = (A < B)" "(A - B - k < 0) = (A < B + k)" by linarith+
  show ?thesis
    unfolding alu16_def ab kk A_def [symmetric] B_def [symmetric] alu_core_def Let_def and3_bit and_numeral_bit bit_and_iff
      carry borrow alu_carry_def
    by (simp add: alu_nums)
qed

lemma alu8_eq:
  fixes a0 b0 :: u8 and c :: "'a cpu_scheme"
  defines "A \<equiv> uint a0" and "B \<equiv> uint b0" and "k \<equiv> of_bool (has c FLAG_CF)"
  shows "alu8 c op a0 b0 =
    (case alu_core 8 op (word_of_int A) (word_of_int B) (word_of_int k) of
       (x, V, H) \<Rightarrow> (ucast x, cpu_set_flags (set_af H (set_of V (set_cf (alu_carry 8 op A B k) c))) x 8))"
proof -
  have r: "0 \<le> A" "A < 2 ^ 8" "0 \<le> B" "B < 2 ^ 8" "0 \<le> k" "k \<le> 1"
    using unsigned_less [of a0] unsigned_less [of b0] by (simp_all add: A_def B_def k_def)
  have ab: "ucast a0 = (word_of_int A :: u32)" "ucast b0 = (word_of_int B :: u32)" by (simp_all add: A_def B_def)
  have kk: "(if has c FLAG_CF then 1 else 0) = k" by (simp add: k_def)
  have carry: "((word_of_int A + word_of_int B :: u32) > 0xFF) = (A + B \<ge> 2 ^ 8)"
      "((word_of_int A + word_of_int B + word_of_int k :: u32) > 0xFF) = (A + B + k \<ge> 2 ^ 8)"
    using word_of_int_gt [of "A + B" 8] word_of_int_gt [of "A + B + k" 8] r by simp_all
  have borrow: "(A - B < 0) = (A < B)" "(A - B - k < 0) = (A < B + k)" by linarith+
  show ?thesis
    unfolding alu8_def ab kk A_def [symmetric] B_def [symmetric] alu_core_def Let_def and3_bit and_numeral_bit bit_and_iff
      carry borrow alu_carry_def
    by (simp add: alu_nums)
qed

lemma ucast_add64: "(ucast (x + y :: u64) :: u32) = ucast x + ucast y"
  by (rule word_of_int_eq_iff [THEN iffD2, of "uint (x + y)" "uint x + uint y", simplified]) (simp add: uint_word_ariths take_bit_eq_mod mod_mod_cancel)

lemma ucast_up_id: "(ucast (ucast x :: u64) :: u32) = x" for x :: u32
  by (rule bit_word_eqI) (simp add: bit_simps)

lemma uint_wide:
  fixes x y :: u32 and k :: u64
  assumes "k \<in> {0, 1}"
  shows "uint (ucast x + ucast y + k :: u64) = uint x + uint y + uint k" "uint (ucast y + k :: u64) = uint y + uint k"
proof -
  have "uint x < 2 ^ 32" "uint y < 2 ^ 32" using unsigned_less [of x] unsigned_less [of y] by simp_all
  then show "uint (ucast x + ucast y + k :: u64) = uint x + uint y + uint k" "uint (ucast y + k :: u64) = uint y + uint k"
    using assms by (auto simp: uint_word_ariths unsigned_ucast_eq take_bit_int_eq_self)
qed

lemma alu32_eq:
  fixes a b :: u32 and c :: "'a cpu_scheme"
  defines "A \<equiv> uint a" and "B \<equiv> uint b" and "k \<equiv> of_bool (has c FLAG_CF)"
  shows "alu32 c op a b =
    (case alu_core 32 op (word_of_int A) (word_of_int B) (word_of_int k) of
       (x, V, H) \<Rightarrow> (x, cpu_set_flags (set_af H (set_of V (set_cf (alu_carry 32 op A B k) c))) x 32))"
proof -
  define q where "q = (if has c FLAG_CF then 1 else 0 :: u64)"
  have q: "q \<in> {0, 1}" "uint q = k" "(ucast q :: u32) = word_of_int k" by (simp_all add: q_def k_def)
  have ab: "word_of_int A = a" "word_of_int B = b" by (simp_all add: A_def B_def)
  have sums: "(ucast (ucast a + ucast b + 0 :: u64) :: u32) = a + b"
      "(ucast (ucast a + ucast b + q :: u64) :: u32) = a + b + word_of_int k"
      "a - ucast (ucast b + 0 :: u64) = a - b" "a - ucast (ucast b + q :: u64) = a - b - word_of_int k"
    by (simp_all add: ucast_add64 ucast_up_id q(3))
  have carry: "((ucast a + ucast b + 0 :: u64) > 0xFFFFFFFF) = (A + B \<ge> 2 ^ 32)"
      "((ucast a + ucast b + q :: u64) > 0xFFFFFFFF) = (A + B + k \<ge> 2 ^ 32)"
      "((ucast a :: u64) < ucast b + 0) = (A < B)" "((ucast a :: u64) < ucast b + q) = (A < B + k)"
    using uint_wide(1) [of 0 a b] uint_wide(2) [of 0 b] uint_wide(2) [of 0 a] uint_wide(1) [OF q(1), of a b] uint_wide(2) [OF q(1), of b] q(2)
    by (auto simp: word_less_alt A_def B_def unsigned_ucast_eq take_bit_int_eq_self)
  have ov: "bit (NOT (a XOR b)) 31 \<and> bit (a XOR x) 31 \<longleftrightarrow> bit (a XOR x) 31 \<and> bit (b XOR x) 31" for x
    by (auto simp: bit_not_iff bit_xor_iff)
  show ?thesis
    unfolding alu32_def q_def [symmetric] ab alu_core_def Let_def and3_bit and_numeral_bit bit_and_iff
      if_P [OF refl] alu_carry_def
    by (cases "op = ALU_ADD"; cases "op = ALU_ADC"; cases "op = ALU_SUB"; cases "op = ALU_CMP"; cases "op = ALU_SBB")
      (simp_all add: alu_nums sums sums [simplified] carry carry [simplified] ov)
qed

lemma alu_eq_ok:
  fixes A B :: int and c :: "'a cpu_scheme"
  assumes w: "w \<in> {8, 16, 32}" and r: "0 \<le> A" "A < 2 ^ w" "0 \<le> B" "B < 2 ^ w" and k: "k = of_bool (has c FLAG_CF)"
    and p: "p = (case alu_core w op (word_of_int A) (word_of_int B) (word_of_int k) of
       (x, V, H) \<Rightarrow> (f x, cpu_set_flags (set_af H (set_of V (set_cf (alu_carry w op A B k) c))) x w))"
    and f: "\<And>x. uint (f x) = uint (take_bit w x)"
  shows "alu_ok w op A B c (uint (fst p)) (snd p)"
proof -
  obtain x V H where core: "alu_core w op (word_of_int A) (word_of_int B) (word_of_int k) = (x, V, H)"
    by (metis prod_cases3)
  have "0 \<le> k" "k \<le> 1" by (simp_all add: k)
  from alu_core_ok [OF w r this core] show ?thesis
    using alu_okI [OF w k, of x op A B "alu_carry w op A B k" V H] p f core by simp
qed

text \<open>
  C11. The arithmetic unit at 8, 16 and 32 bits is the reference on integers: the result is
  the sum, difference or bitwise value modulo the width; the carry is the unsigned carry or
  borrow, the overflow flag says that the signed result does not fit, the adjust flag is
  the carry out of the low four bits, zero, sign and parity describe the result, and
  nothing but these six flags changes.
\<close>

theorem alu_correct:
  "alu_ok 8 op (uint a8) (uint b8) c (uint (fst (alu8 c op a8 b8))) (snd (alu8 c op a8 b8))
   \<and> alu_ok 16 op (uint a16) (uint b16) c (uint (fst (alu16 c op a16 b16))) (snd (alu16 c op a16 b16))
   \<and> alu_ok 32 op (uint a32) (uint b32) c (uint (fst (alu32 c op a32 b32))) (snd (alu32 c op a32 b32))"
  using unsigned_less [of a8] unsigned_less [of b8] unsigned_less [of a16] unsigned_less [of b16]
    unsigned_less [of a32] unsigned_less [of b32]
  by (intro conjI alu_eq_ok [OF _ _ _ _ _ refl alu8_eq] alu_eq_ok [OF _ _ _ _ _ refl alu16_eq]
      alu_eq_ok [OF _ _ _ _ _ refl alu32_eq]) (simp_all add: uint_ucast_take unsigned_take_bit_eq bintr_uint)

section \<open>Shifts and rotates\<close>

text \<open>A value of \<open>w\<close> bits with the carry as bit \<open>w\<close>.\<close>

definition xbit :: "nat \<Rightarrow> u32 \<times> 'a cpu_scheme \<Rightarrow> nat \<Rightarrow> bool" where
  "xbit w rc i = (if i = w then has (snd rc) FLAG_CF else bit (fst rc) i)"

lemma shift_mask: "w \<le> 32 \<Longrightarrow> (if w = 32 then 0xFFFFFFFF else push_bit w 1 - 1) = (mask w :: u32)"
  by (auto simp: mask_eq_exp_minus_1 push_bit_eq_mult)

lemma sign_bit: "0 < w \<Longrightarrow> x AND push_bit (w - 1) 1 \<noteq> 0 \<longleftrightarrow> bit x (w - 1)" for x :: u32
  by (rule and_pow2)

lemma shift_step_carry:
  assumes "0 < w"
  shows "bit (flags (snd (shift_step op w (r, c)))) 0 =
    (if op \<in> {0, 2, 4} then bit r (w - 1) else if op \<in> {1, 3, 5, 7} then bit r 0 else bit (flags c) 0)"
  unfolding shift_step_def Let_def split_conv sign_bit [OF assms] and_numeral_bit(1) by simp

lemma shift_step_bit:
  assumes w: "1 < w" "w \<le> 32" and r: "take_bit w r = r" and i: "i < w"
  shows "bit (fst (shift_step op w (r, c))) i =
    (if op = 0 then if i = 0 then bit r (w - 1) else bit r (i - 1)
     else if op = 1 then if i = w - 1 then bit r 0 else bit r (i + 1)
     else if op = 2 then if i = 0 then bit (flags c) 0 else bit r (i - 1)
     else if op = 3 then if i = w - 1 then bit (flags c) 0 else bit r (i + 1)
     else if op = 4 then i \<noteq> 0 \<and> bit r (i - 1)
     else if op = 5 then i \<noteq> w - 1 \<and> bit r (i + 1)
     else if op = 7 then if i = w - 1 then bit r i else bit r (i + 1)
     else bit r i)"
proof -
  have b: "bit r j \<Longrightarrow> j < w" for j using r by (metis bit_take_bit_iff)
  have m: "bit (mask w :: u32) j \<longleftrightarrow> j < w" for j using w by (auto simp: bit_simps)
  have s: "bit (push_bit (w - 1) 1 :: u32) j \<longleftrightarrow> j = w - 1" for j using w by (auto simp: bit_simps)
  have p: "bit (push_bit 1 r) j \<longleftrightarrow> j \<noteq> 0 \<and> bit r (j - 1) \<and> j < 32" for j
    unfolding bit_push_bit_iff by auto
  have d: "bit (drop_bit n r) j \<longleftrightarrow> bit r (j + n)" for n j by (simp add: bit_drop_bit_eq add.commute)
  have t: "\<not> bit r w" "i = w - 1 \<Longrightarrow> \<not> bit r (i + 1)" "i = w - 1 \<Longrightarrow> \<not> bit r (1 + i)" using b w by fastforce+
  have out: "0 < i \<Longrightarrow> \<not> bit r (i + w - 1)" "0 < i \<Longrightarrow> \<not> bit r (w + i - 1)" "\<not> bit r (w + w - 2)" using b [of "w + i - 1"] b [of "i + w - 1"] b [of "w + w - 2"] w by auto
  have top: "bit r (i + (w - 1)) \<longleftrightarrow> i = 0 \<and> bit r (w - 1)" using b [of "i + (w - 1)"] w(1) by (cases "i = 0") auto
  show ?thesis
    unfolding shift_step_def Let_def shift_mask [OF w(2)] sign_bit [OF order.strict_trans [OF zero_less_one w(1)]] and_numeral_bit(1) split_conv
    using w i t out
    by (cases "i = w - 1"; cases "i = 0")
      (auto simp: m s p d top bit_or_iff bit_and_iff bit_1_iff simp del: One_nat_def push_bit_of_1 bit_0 split: if_splits)
qed

lemma flags_eqI: "(\<And>n. n < 16 \<Longrightarrow> bit (flags c) n = bit (flags c') n) \<Longrightarrow> c\<lparr>flags := 0\<rparr> = c'\<lparr>flags := 0\<rparr> \<Longrightarrow> c = c'"
proof -
  assume "\<And>n. n < 16 \<Longrightarrow> bit (flags c) n = bit (flags c') n"
  then have f: "flags c = flags c'" by (intro bit_word_eqI) simp
  assume "c\<lparr>flags := 0\<rparr> = c'\<lparr>flags := 0\<rparr>"
  then have "c\<lparr>flags := 0\<rparr>\<lparr>flags := flags c\<rparr> = c'\<lparr>flags := 0\<rparr>\<lparr>flags := flags c'\<rparr>" using f by simp
  then show "c = c'" by simp
qed

lemma set_cf_set_cf: "set_cf x (set_cf y c) = set_cf x c" by (rule flags_eqI) auto

lemma set_cf_id: "set_cf (bit (flags c) 0) c = c" by (rule flags_eqI) auto

lemma shift_step_small:
  assumes w: "1 < w" "w \<le> 32" and r: "take_bit w r = r"
  shows "take_bit w (fst (shift_step op w (r, c))) = fst (shift_step op w (r, c))"
    "snd (shift_step op w (r, c)) = set_cf (bit (flags (snd (shift_step op w (r, c)))) 0) c"
proof -
  have b: "bit r j \<Longrightarrow> j < w" for j using r by (metis bit_take_bit_iff)
  have "bit (fst (shift_step op w (r, c))) j \<Longrightarrow> j < w" for j
    unfolding shift_step_def Let_def shift_mask [OF w(2)] split_conv
    using w b [of j] b [of "Suc j"] by (auto simp: bit_or_iff bit_and_iff bit_mask_iff bit_exp_iff bit_drop_bit_eq split: if_splits)
  then show "take_bit w (fst (shift_step op w (r, c))) = fst (shift_step op w (r, c))"
    by (intro bit_word_eqI) (auto simp: bit_take_bit_iff)
  show "snd (shift_step op w (r, c)) = set_cf (bit (flags (snd (shift_step op w (r, c)))) 0) c"
    unfolding shift_step_def Let_def split_conv by (auto simp: set_cf_id simp del: One_nat_def)
qed

text \<open>The bits and the carry after \<open>n\<close> steps.\<close>

definition shifted :: "nat \<Rightarrow> nat \<Rightarrow> nat \<Rightarrow> (nat \<Rightarrow> bool) \<Rightarrow> nat \<Rightarrow> bool" where
  "shifted op w n e i =
     (if op = 0 then if i = w then if n = 0 then e w else e (n * (w - 1) mod w) else e ((i + n * (w - 1)) mod w)
      else if op = 1 then if i = w then if n = 0 then e w else e ((w - 1 + n) mod w) else e ((i + n) mod w)
      else if op = 2 then e ((i + n * w) mod (w + 1))
      else if op = 3 then e ((i + n) mod (w + 1))
      else if op = 4 then n \<le> i \<and> e (i - n)
      else if op = 5 then if i = w then if n = 0 then e w else n \<le> w \<and> e (n - 1) else i + n < w \<and> e (i + n)
      else if op = 7 then if i = w then if n = 0 then e w else e (min (n - 1) (w - 1)) else e (min (i + n) (w - 1))
      else e i)"

lemma xbit_step:
  assumes w: "1 < w" "w \<le> 32" and r: "take_bit w r = r" and i: "i \<le> w"
  shows "xbit w (shift_step op w (r, c)) i = shifted op w 1 (xbit w (r, c)) i"
proof (cases "i = w")
  case True
  have "w - Suc 0 \<noteq> w" using w by simp
  then show ?thesis
    using shift_step_carry [of w op r c] w True by (simp add: xbit_def shifted_def mod_if)
next
  case False
  have m: "(i + (w - 1)) mod w = (if i = 0 then w - 1 else i - 1)" "(i + 1) mod w = (if i = w - 1 then 0 else i + 1)"
      "(i + w) mod (w + 1) = (if i = 0 then w else i - 1)" "(i + 1) mod (w + 1) = i + 1"
      "min (i + 1) (w - 1) = (if i = w - 1 then i else i + 1)"
    using False i w by (auto simp: mod_if)
  have n: "i < w" "i - 1 \<noteq> w" "i + 1 = w \<longleftrightarrow> i = w - 1" "w - 1 \<noteq> w" "w \<noteq> 0" "0 \<noteq> w" "1 \<le> i \<longleftrightarrow> i \<noteq> 0" "i + 1 < w \<longleftrightarrow> i \<noteq> w - 1"
    using False i w by auto
  show ?thesis
    unfolding xbit_def shifted_def mult_1 m fst_conv snd_conv has_bit
    using shift_step_bit [OF w r, of i op c] n False i w by (simp del: One_nat_def)
qed

lemma shifted_cong:
  assumes e: "\<And>j. j \<le> w \<Longrightarrow> e j = e' j" and "1 < w" "i \<le> w"
  shows "shifted op w n e i = shifted op w n e' i"
proof -
  have "x mod w \<le> w" "x mod (w + 1) \<le> w" for x
    using mod_less_divisor [of w x] mod_less_divisor [of "w + 1" x] assms(2) by linarith+
  then show ?thesis using assms unfolding shifted_def by (auto simp: e)
qed

lemma shifted_Suc:
  assumes "1 < w" "i \<le> w"
  shows "shifted op w 1 (shifted op w n e) i = shifted op w (Suc n) e i"
proof -
  have m: "(w - 1) mod w = w - 1" "x mod w \<noteq> w" "w - 1 \<noteq> w" for x
    using mod_less_divisor [of w x] assms(1) by (simp, linarith, simp)
  consider "op = 0" | "op = 1" | "op = 2 \<or> op = 3" | "op = 4" | "op = 5" | "op = 7" | "op \<notin> {0, 1, 2, 3, 4, 5, 7}" by blast
  then show ?thesis
  proof cases
    case 1
    then show ?thesis using m assms(1) by (simp add: shifted_def mod_add_left_eq add.assoc del: One_nat_def)
  next
    case 2
    then show ?thesis using m assms(1) by (simp add: shifted_def mod_add_left_eq add.assoc)
  next
    case 3
    then show ?thesis by (elim disjE) (simp_all add: shifted_def mod_add_left_eq add.assoc)
  qed (use assms in \<open>auto simp: shifted_def min_def\<close>)
qed

lemma shift_steps:
  assumes w: "1 < w" "w \<le> 32" and r: "take_bit w r = r"
  shows "take_bit w (fst ((shift_step op w ^^ n) (r, c))) = fst ((shift_step op w ^^ n) (r, c))"
    and "i \<le> w \<Longrightarrow> xbit w ((shift_step op w ^^ n) (r, c)) i = shifted op w n (xbit w (r, c)) i"
    and "snd ((shift_step op w ^^ n) (r, c)) = set_cf (bit (flags (snd ((shift_step op w ^^ n) (r, c)))) 0) c"
proof (induction n arbitrary: i)
  case 0
  {
    case 1
    then show ?case using r by simp
  next
    case 2
    have "i mod Suc w = i" "i < w \<Longrightarrow> i mod w = i" using 2 by simp_all
    then show ?case using 2 w by (auto simp: shifted_def xbit_def)
  next
    case 3
    then show ?case by (simp add: set_cf_id)
  }
next
  case (Suc n)
  obtain r1 c1 where s: "(shift_step op w ^^ n) (r, c) = (r1, c1)" by fastforce
  have r1: "take_bit w r1 = r1" using Suc(1) s by simp
  {
    case 1
    then show ?case using shift_step_small(1) [OF w r1] s by simp
  next
    case 2
    have "xbit w ((shift_step op w ^^ Suc n) (r, c)) i = shifted op w 1 (xbit w (r1, c1)) i"
      using xbit_step [OF w r1 2] s by simp
    also have "\<dots> = shifted op w 1 (shifted op w n (xbit w (r, c))) i"
      using Suc(2) s w(1) 2 by (intro shifted_cong) auto
    finally show ?case using shifted_Suc [OF w(1) 2] by simp
  next
    case 3
    show ?case using Suc(3) shift_step_small(2) [OF w r1, of op c1] s by (metis comp_apply funpow.simps(2) set_cf_set_cf snd_conv)
  }
qed

text \<open>What \<open>shift\<close> returns, with the flags set after the loop left out of the carry.\<close>

lemma shift_loop:
  fixes c :: "'a cpu_scheme" and op count w :: nat and v :: u32
  assumes w: "w \<in> {8, 16, 32}"
  defines "n \<equiv> count mod 32"
  defines "steps \<equiv> (if (op = 2 \<or> op = 3) \<and> w < 32 then n mod (w + 1) else n)"
  shows "fst (shift c op v count w) = fst ((shift_step op w ^^ steps) (take_bit w v, c))"
    "bit (flags (snd (shift c op v count w))) 0 = bit (flags (snd ((shift_step op w ^^ steps) (take_bit w v, c)))) 0"
    "n = 0 \<Longrightarrow> snd (shift c op v count w) = c"
proof -
  have w32: "w \<le> 32" using w by auto
  have m: "v AND mask w = take_bit w v" by (simp add: take_bit_eq_mask)
  obtain r1 c1 where s: "(shift_step op w ^^ steps) (take_bit w v, c) = (r1, c1)" by fastforce
  have e: "shift c op v count w = (if steps = 0 then (take_bit w v, c)
       else (r1, let c2 = (if op \<ge> 4 then cpu_set_flags c1 r1 w else c1);
                  sign = push_bit (w - 1) 1
              in if n = 1 then if op = 0 \<or> op = 2 \<or> op = 4
                             then set_of ((r1 AND sign \<noteq> 0) \<noteq> has c2 FLAG_CF) c2
                             else if op = 1 \<or> op = 3
                             then set_of ((r1 AND sign \<noteq> 0) \<noteq> (r1 AND drop_bit 1 sign \<noteq> 0)) c2
                             else set_of (op = 5 \<and> v AND sign \<noteq> 0) c2
                 else c2))"
    unfolding shift_def Let_def shift_mask [OF w32] m n_def [symmetric] steps_def [symmetric] s split_conv by (rule refl)
  show "fst (shift c op v count w) = fst ((shift_step op w ^^ steps) (take_bit w v, c))"
    unfolding e using s by (cases "steps = 0") auto
  show "bit (flags (snd (shift c op v count w))) 0 = bit (flags (snd ((shift_step op w ^^ steps) (take_bit w v, c)))) 0"
    unfolding e using s bit_cpu_set_flags [OF w, of 0 c1 r1] by (cases "steps = 0") (auto simp: Let_def)
  show "n = 0 \<Longrightarrow> snd (shift c op v count w) = c" by (simp add: e steps_def)
qed

lemma shift_bits:
  assumes w: "w \<in> {8, 16, 32}" and "i \<le> w"
  shows "xbit w (shift c op v count w) i = shifted op w (count mod 32) (xbit w (take_bit w v, c)) i"
    and "take_bit w (fst (shift c op v count w)) = fst (shift c op v count w)"
proof -
  define n where "n = count mod 32"
  define steps where "steps = (if (op = 2 \<or> op = 3) \<and> w < 32 then n mod (w + 1) else n)"
  note l = shift_loop [OF w, where c = c and op = op and v = v and count = count, folded n_def, folded steps_def]
  have w2: "1 < w" "w \<le> 32" using w by auto
  have t: "take_bit w (take_bit w v) = take_bit w v" by simp
  note S = shift_steps [OF w2 t]
  have "xbit w (shift c op v count w) i = xbit w ((shift_step op w ^^ steps) (take_bit w v, c)) i"
    using l by (simp add: xbit_def)
  also have "\<dots> = shifted op w steps (xbit w (take_bit w v, c)) i" by (rule S(2) [OF assms(2)])
  also have "\<dots> = shifted op w n (xbit w (take_bit w v, c)) i"
  proof -
    have "(i + n mod (w + 1) * w) mod (w + 1) = (i + n * w) mod (w + 1)" "(i + n mod (w + 1)) mod (w + 1) = (i + n) mod (w + 1)" for i
      by (metis mod_add_right_eq mod_mult_left_eq, metis mod_add_right_eq)
    then show ?thesis by (simp add: shifted_def steps_def)
  qed
  finally show "xbit w (shift c op v count w) i = shifted op w (count mod 32) (xbit w (take_bit w v, c)) i"
    by (simp add: n_def)
  show "take_bit w (fst (shift c op v count w)) = fst (shift c op v count w)" unfolding l(1) by (rule S(1))
qed


lemma bits_value: "take_bit w r = r \<Longrightarrow> (\<And>i. i < w \<Longrightarrow> bit r i = bit x i) \<Longrightarrow> uint r = x mod 2 ^ w" for r :: u32 and x :: int
proof -
  assume r: "take_bit w r = r" and b: "\<And>i. i < w \<Longrightarrow> bit r i = bit x i"
  have "uint r = take_bit w x"
  proof (rule bit_eqI)
    fix i
    have "bit r i \<longleftrightarrow> bit (take_bit w r) i" using r by simp
    then show "bit (uint r) i = bit (take_bit w x) i"
      using b [of i] bit_imp_le_length [of r i] by (auto simp: bit_uint_iff bit_take_bit_iff)
  qed
  then show ?thesis by (simp add: take_bit_eq_mod)
qed

lemma bit_signed_of:
  fixes v :: int
  assumes "0 \<le> v" "v < 2 ^ w" "0 < w"
  shows "bit (signed_of w v) i = bit v (min i (w - 1))"
proof -
  have "signed_of w v = signed_take_bit (w - 1) v"
    using assms top_bit(1) [of v "w - 1"] take_bit_int_eq_self [of v w]
    by (simp add: signed_of_def signed_take_bit_eq_take_bit_minus)
  then show ?thesis by (simp add: bit_signed_take_bit_iff min.commute)
qed

text \<open>
  The reference for a shift or rotate by \<open>n\<close> of the \<open>w\<close>-bit value \<open>v\<close>: shifts are products and
  quotients by a power of two, rotates move bit \<open>i\<close> to position \<open>i + n\<close>, and rotates through
  the carry are rotates of \<open>w + 1\<close> bits.
\<close>

definition shift_ok :: "nat \<Rightarrow> nat \<Rightarrow> nat \<Rightarrow> u32 \<Rightarrow> 'a cpu_scheme \<Rightarrow> u32 \<Rightarrow> 'a cpu_scheme \<Rightarrow> bool" where
  "shift_ok w op n v c r c' \<longleftrightarrow>
     (let x = uint (take_bit w v); cf = has c' FLAG_CF
      in take_bit w r = r \<and> (n = 0 \<longrightarrow> c' = c)
         \<and> (op = 0 \<longrightarrow> (\<forall>i < w. bit r ((i + n) mod w) = bit v i) \<and> (n > 0 \<longrightarrow> cf = bit r 0))
         \<and> (op = 1 \<longrightarrow> (\<forall>i < w. bit r i = bit v ((i + n) mod w)) \<and> (n > 0 \<longrightarrow> cf = bit r (w - 1)))
         \<and> (op = 2 \<longrightarrow> (\<forall>i \<le> w. xbit w (r, c') ((i + n) mod (w + 1)) = xbit w (v, c) i))
         \<and> (op = 3 \<longrightarrow> (\<forall>i \<le> w. xbit w (r, c') i = xbit w (v, c) ((i + n) mod (w + 1))))
         \<and> (op = 4 \<longrightarrow> uint r = x * 2 ^ n mod 2 ^ w \<and> (n > 0 \<longrightarrow> cf = bit (x * 2 ^ n) w))
         \<and> (op = 5 \<longrightarrow> uint r = x div 2 ^ n \<and> (n > 0 \<longrightarrow> cf = bit x (n - 1)))
         \<and> (op = 7 \<longrightarrow> uint r = signed_of w x div 2 ^ n mod 2 ^ w \<and> (n > 0 \<longrightarrow> cf = bit (signed_of w x) (n - 1))))"

lemma shift_okI:
  fixes c c' :: "'a cpu_scheme"
  assumes w: "1 < w" "w \<le> 32" and small: "take_bit w r = r" and zero: "n = 0 \<Longrightarrow> c' = c"
    and S: "\<And>i. i \<le> w \<Longrightarrow> xbit w (r, c') i = shifted op w n (xbit w (take_bit w v, c)) i"
  shows "shift_ok w op n v c r c'"
proof -
  define x where "x = uint (take_bit w v)"
  have x: "0 \<le> x" "x < 2 ^ w" by (simp_all add: x_def unsigned_take_bit_eq)
  have rb: "bit r i = shifted op w n (xbit w (take_bit w v, c)) i" if "i < w" for i
    using S [of i] that by (simp add: xbit_def)
  have cf: "has c' FLAG_CF = shifted op w n (xbit w (take_bit w v, c)) w"
    using S [of w] by (simp add: xbit_def)
  have xb: "bit x i = (i < w \<and> bit v i)" for i by (auto simp: x_def bit_uint_iff bit_take_bit_iff dest: bit_imp_le_length)
  have e: "xbit w (take_bit w v, c) i = bit x i" if "i < w" for i using that by (simp add: xbit_def xb bit_take_bit_iff)
  have ev: "xbit w (take_bit w v, c) i = xbit w (v, c) i" if "i \<le> w" for i using that by (simp add: xbit_def bit_take_bit_iff)
  have lt: "j mod w < w" "j mod w \<noteq> w" "j mod (w + 1) \<le> w" for j using w(1) mod_less_divisor [of w j] mod_less_divisor [of "w + 1" j] by linarith+
  have shl: "uint r = x * 2 ^ n mod 2 ^ w \<and> (n > 0 \<longrightarrow> has c' FLAG_CF = bit (x * 2 ^ n) w)" if "op = 4"
  proof -
    have b: "bit (x * 2 ^ n) i \<longleftrightarrow> n \<le> i \<and> bit x (i - n)" for i by (simp add: bit_simps flip: push_bit_eq_mult)
    show ?thesis using bits_value [OF small, of "x * 2 ^ n"] rb cf e w that by (simp add: shifted_def b)
  qed
  have shr: "uint r = x div 2 ^ n \<and> (n > 0 \<longrightarrow> has c' FLAG_CF = bit x (n - 1))" if "op = 5"
  proof -
    have b: "bit (x div 2 ^ n) i \<longleftrightarrow> bit x (i + n)" for i by (simp add: bit_drop_bit_eq add.commute flip: drop_bit_eq_div)
    have "take_bit w (x div 2 ^ n) = x div 2 ^ n" by (rule bit_eqI) (auto simp: bit_take_bit_iff b xb)
    then have "x div 2 ^ n mod 2 ^ w = x div 2 ^ n" by (simp add: take_bit_eq_mod)
    then show ?thesis using bits_value [OF small, of "x div 2 ^ n"] rb cf e w that xb [of "n - 1"] by (auto simp: shifted_def b xb)
  qed
  have sar: "uint r = signed_of w x div 2 ^ n mod 2 ^ w \<and> (n > 0 \<longrightarrow> has c' FLAG_CF = bit (signed_of w x) (n - 1))" if "op = 7"
  proof -
    have b: "bit (signed_of w x div 2 ^ n) i \<longleftrightarrow> bit x (min (i + n) (w - 1))" for i
      using bit_signed_of [OF x] w by (simp add: bit_drop_bit_eq add.commute flip: drop_bit_eq_div)
    show ?thesis using bits_value [OF small, of "signed_of w x div 2 ^ n"] rb cf e w that bit_signed_of [OF x]
      by (simp add: shifted_def b)
  qed
  have rol: "(\<forall>i < w. bit r ((i + n) mod w) = bit v i) \<and> (n > 0 \<longrightarrow> has c' FLAG_CF = bit r 0)" if "op = 0"
  proof -
    have "((i + n) mod w + n * (w - 1)) mod w = i" if "i < w" for i
    proof -
      have "((i + n) mod w + n * (w - 1)) mod w = (i + n + n * (w - 1)) mod w" by (simp only: mod_add_left_eq)
      also have "i + n + n * (w - 1) = i + n * w" using w(1) by (simp add: algebra_simps)
      finally show ?thesis using that by simp
    qed
    then show ?thesis using rb cf e lt w that by (simp add: shifted_def xb)
  qed
  have ror: "(\<forall>i < w. bit r i = bit v ((i + n) mod w)) \<and> (n > 0 \<longrightarrow> has c' FLAG_CF = bit r (w - 1))" if "op = 1"
    using rb cf e lt w that by (simp add: shifted_def xb)
  have rcl: "xbit w (r, c') ((i + n) mod (w + 1)) = xbit w (v, c) i" if "op = 2" "i \<le> w" for i
  proof -
    have "((i + n) mod (w + 1) + n * w) mod (w + 1) = (i + n + n * w) mod (w + 1)" by (simp only: mod_add_left_eq)
    also have "i + n + n * w = i + n * (w + 1)" by simp
    also have "(i + n * (w + 1)) mod (w + 1) = i" unfolding mod_mult_self1 using that by simp
    finally have "((i + n) mod (w + 1) + n * w) mod (w + 1) = i" .
    then show ?thesis using S [OF lt(3) [of "i + n"]] ev that by (simp add: shifted_def)
  qed
  have rcr: "xbit w (r, c') i = xbit w (v, c) ((i + n) mod (w + 1))" if "op = 3" "i \<le> w" for i
    using S [OF that(2)] ev [OF lt(3)] that by (simp add: shifted_def)
  have rcl2: "op = 2 \<longrightarrow> (\<forall>i \<le> w. xbit w (r, c') ((i + n) mod (w + 1)) = xbit w (v, c) i)" using rcl by blast
  have rcr2: "op = 3 \<longrightarrow> (\<forall>i \<le> w. xbit w (r, c') i = xbit w (v, c) ((i + n) mod (w + 1)))" using rcr by blast
  show ?thesis unfolding shift_ok_def Let_def x_def [symmetric]
    using impI [OF zero] impI [OF rol] impI [OF ror] impI [OF shl] impI [OF shr] impI [OF sar] rcl2 rcr2 small
    by (intro conjI)
qed

text \<open>
  C13. Every shift and rotate of 8, 16 or 32 bits, by any count modulo 32, agrees with the
  reference: SHL, SHR and SAR multiply and divide by a power of two, ROL and ROR move each
  bit by the count around the word, RCL and RCR around the word with its carry, and the
  carry is the last bit moved out; a count of 0 changes nothing.
\<close>

theorem shift_correct:
  assumes "w \<in> {8, 16, 32}"
  shows "shift_ok w op (count mod 32) v c (fst (shift c op v count w)) (snd (shift c op v count w))"
proof -
  have "1 < w" "w \<le> 32" using assms by auto
  then show ?thesis
    using shift_bits(1) [OF assms] by (intro shift_okI shift_bits(2) [OF assms order_refl] shift_loop(3) [OF assms]) simp_all
qed

section \<open>A processor for the examples\<close>

definition cpu_blank :: cpu where
  "cpu_blank = \<lparr>r_lo = (\<lambda>_. 0), r_hi = (\<lambda>_. 0), sreg = (\<lambda>_. 0), ip = 0, flags = 2, flags_hi = 0,
     mem = (\<lambda>_. 0), int_no = 0, fault_opcode = 0, exit_code = 0, insns = 0, irq_pending = 0, irq_shadow = 0\<rparr>"

theorem shift_correct_witness:
  "shift_ok 16 4 (3 mod 32) 5 cpu_blank (fst (shift cpu_blank 4 5 3 16)) (snd (shift cpu_blank 4 5 3 16))"
  using shift_correct [of 16 4 3 5 cpu_blank] by simp

end
