(* ===== verification/Dos_Exec.thy ===== *)
theory Dos_Exec
  imports Dos_Step
begin

text \<open>
  \<open>cpu_step\<close> of \<open>userland/dosrun/cpu.c\<close>: the delivery of interrupts, the prefixes and the
  one-byte opcodes, one definition per case of the switch, in the order of the code.
\<close>

section \<open>Interrupts and prefixes\<close>

text \<open>The loop over the lines of \<open>irq_pending\<close>: the lowest one that is set.\<close>

definition pending_line :: "u16 \<Rightarrow> nat option" where
  "pending_line p =
     (case filter (\<lambda>i. p AND push_bit i 1 \<noteq> 0) [0 ..< 16] of [] \<Rightarrow> None | i # is \<Rightarrow> Some i)"

text \<open>
  The interrupt to deliver before the next instruction, \<open>-1\<close> for none: the controller's,
  or else the lowest pending line, which is cleared.
\<close>

definition take_vector :: "'a devices \<Rightarrow> 'a cpu_scheme \<Rightarrow> int \<times> 'a cpu_scheme" where
  "take_vector d c =
     (let (v, c1) = (case irq_ack d of Some f \<Rightarrow> f c | None \<Rightarrow> (- 1, c))
      in if v < 0 \<and> irq_pending c1 \<noteq> 0
         then case pending_line (irq_pending c1) of
                None \<Rightarrow> (v, c1)
              | Some i \<Rightarrow> (if i < 8 then 0x08 + int i else 0x70 + int i - 8,
                            c1\<lparr>irq_pending := irq_pending c1 AND NOT (push_bit i 1)\<rparr>)
         else (v, c1))"

definition take_irq :: "'a devices \<Rightarrow> 'a cpu_scheme \<Rightarrow> bool \<times> 'a cpu_scheme" where
  "take_irq d c0 =
     (let inhibited = (irq_shadow c0 \<noteq> 0);
          c = (if inhibited then c0\<lparr>irq_shadow := irq_shadow c0 - 1\<rparr> else c0)
      in if \<not> inhibited \<and> has c FLAG_IF
         then let (v, c1) = take_vector d c
              in if v \<ge> 0
                 then let c2 = c1\<lparr>int_no := of_int v\<rparr> in (True, cpu_enter_interrupt c2 (int_no c2))
                 else (False, c1)
         else (False, c))"

text \<open>
  The prefix loop. At most 15 bytes are read: \<open>n\<close> is the number still allowed. The result is
  the opcode with the override, the operand size and the repeat prefix, or \<open>Inl\<close> of the
  sixteenth byte, the operand size seen before it and the state.
\<close>

fun read_prefixes :: "nat \<Rightarrow> u16 option \<Rightarrow> bool \<Rightarrow> nat \<Rightarrow> 'a cpu_scheme
    \<Rightarrow> (nat \<times> bool \<times> 'a cpu_scheme) + (nat \<times> u16 option \<times> bool \<times> nat \<times> 'a cpu_scheme)" where
  "read_prefixes 0 override operand32 rep c =
     (let (op, c1) = fetch8 c in Inl (op, operand32, c1))"
| "read_prefixes (Suc n) override operand32 rep c =
     (let (op, c1) = fetch8 c
      in if op = 0x66 then read_prefixes n override True rep c1
         else if op = 0x26 then read_prefixes n (Some (sreg c1 0)) operand32 rep c1
         else if op = 0x2E then read_prefixes n (Some (sreg c1 1)) operand32 rep c1
         else if op = 0x36 then read_prefixes n (Some (sreg c1 2)) operand32 rep c1
         else if op = 0x3E then read_prefixes n (Some (sreg c1 3)) operand32 rep c1
         else if op = 0xF2 \<or> op = 0xF3 then read_prefixes n override operand32 op c1
         else Inr (op, override, operand32, rep, c1))"

section \<open>The one-byte instructions\<close>

definition op_alu_rm :: "nat \<Rightarrow> u16 option \<Rightarrow> 'a cpu_scheme \<Rightarrow> 'a stop" where
  "op_alu_rm op override c =
     (let alu_op = op div 8 mod 8;
          dir = (op div 2 mod 2 = 1);
          (rm, reg, c1) = decode_ov override c
      in if op mod 2 = 1
         then let a = (if dir then r_lo c1 reg else get16 c1 rm);
                  b = (if dir then get16 c1 rm else r_lo c1 reg);
                  (res, c2) = alu16 c1 alu_op a b
              in (CPU_OK, if alu_op \<noteq> ALU_CMP then if dir then set_r reg res c2 else put16 c2 rm res else c2)
         else let a = (if dir then get8 c1 reg else get8_rm c1 rm);
                  b = (if dir then get8_rm c1 rm else get8 c1 reg);
                  (res, c2) = alu8 c1 alu_op a b
              in (CPU_OK, if alu_op \<noteq> ALU_CMP then if dir then put8 c2 reg res else put8_rm c2 rm res else c2))"

definition op_alu_acc :: "nat \<Rightarrow> 'a cpu_scheme \<Rightarrow> 'a stop" where
  "op_alu_acc op c =
     (let alu_op = op div 8 mod 8
      in if op mod 2 = 1
         then let imm = rd16 c (sreg c 1) (ip c);
                  (res, c1) = alu16 (add_ip 2 c) alu_op (r_lo c AX) imm
              in (CPU_OK, if alu_op \<noteq> ALU_CMP then set_r AX res c1 else c1)
         else let imm = rd8 c (sreg c 1) (ip c);
                  (res, c1) = alu8 (add_ip 1 c) alu_op (get8 c 0) imm
              in (CPU_OK, if alu_op \<noteq> ALU_CMP then put8 c1 0 res else c1))"

text \<open>INC, DEC, PUSH and POP of a register: 40 to 5F.\<close>

definition op_reg :: "nat \<Rightarrow> 'a cpu_scheme \<Rightarrow> 'a stop" where
  "op_reg op c =
     (let i = op mod 8; v = r_lo c i
      in if op < 0x48
         then let res = v + 1; c1 = set_cf (has c FLAG_CF) c; cf = has c1 FLAG_CF;
                  c2 = set_cf cf (cpu_set_flags c1 (ucast res) 16)
              in (CPU_OK, set_r i res (set_af (v AND 15 = 15) (set_of (res = 0x8000) c2)))
         else if op < 0x50
         then let res = v - 1; cf = has c FLAG_CF;
                  c1 = set_cf cf (cpu_set_flags c (ucast res) 16)
              in (CPU_OK, set_r i res (set_af (v AND 15 = 0) (set_of (res = 0x7FFF) c1)))
         else if op < 0x58 then (CPU_OK, push16 c v)
         else let (res, c1) = pop16 c in (CPU_OK, set_r i res c1))"

definition op_push_sreg :: "nat \<Rightarrow> 'a cpu_scheme \<Rightarrow> 'a stop" where
  "op_push_sreg i c = (CPU_OK, push16 c (sreg c i))"

definition op_pop_sreg :: "nat \<Rightarrow> 'a cpu_scheme \<Rightarrow> 'a stop" where
  "op_pop_sreg i c =
     (let (v, c1) = pop16 c; c2 = set_sreg i v c1
      in (CPU_OK, if i = 2 then c2\<lparr>irq_shadow := 1\<rparr> else c2))"

definition op_pusha :: "'a cpu_scheme \<Rightarrow> 'a stop" where
  "op_pusha c =
     (let sp = r_lo c SP
      in (CPU_OK, fold (\<lambda>i c. push16 c (if i = SP then sp else r_lo c i)) [0 ..< 8] c))"

definition op_popa :: "'a cpu_scheme \<Rightarrow> 'a stop" where
  "op_popa c =
     (CPU_OK, fold (\<lambda>i c. let (v, c1) = pop16 c in if i \<noteq> SP then set_r i v c1 else c1) (rev [0 ..< 8]) c)"

definition op_push_imm :: "nat \<Rightarrow> 'a cpu_scheme \<Rightarrow> 'a stop" where
  "op_push_imm op c =
     (if op = 0x68 then (CPU_OK, add_ip 2 (push16 c (rd16 c (sreg c 1) (ip c))))
      else (CPU_OK, push16 (add_ip 1 c) (scast (rd8 c (sreg c 1) (ip c)))))"

definition op_imul3 :: "nat \<Rightarrow> u16 option \<Rightarrow> 'a cpu_scheme \<Rightarrow> 'a stop" where
  "op_imul3 op override c =
     (let (rm, reg, c1) = decode_ov override c;
          imm = (if op = 0x69 then rd16 c1 (sreg c1 1) (ip c1) else scast (rd8 c1 (sreg c1 1) (ip c1)));
          c2 = add_ip (if op = 0x69 then 2 else 1) c1
      in (CPU_OK, imul_into reg (get16 c2 rm) imm c2))"

definition op_jcc8 :: "nat \<Rightarrow> 'a cpu_scheme \<Rightarrow> 'a stop" where
  "op_jcc8 op c =
     (let rel = rd8 c (sreg c 1) (ip c); c1 = add_ip 1 c
      in (CPU_OK, if cond c1 (op mod 16) then add_ip (scast rel) c1 else c1))"

definition op_alu_imm :: "nat \<Rightarrow> u16 option \<Rightarrow> 'a cpu_scheme \<Rightarrow> 'a stop" where
  "op_alu_imm op override c =
     (let (rm, reg, c1) = decode_ov override c
      in if op = 0x80 \<or> op = 0x82
         then let imm = rd8 c1 (sreg c1 1) (ip c1); c2 = add_ip 1 c1;
                  (res, c3) = alu8 c2 reg (get8_rm c2 rm) imm
              in (CPU_OK, if reg \<noteq> ALU_CMP then put8_rm c3 rm res else c3)
         else let imm = (if op = 0x81 then rd16 c1 (sreg c1 1) (ip c1) else scast (rd8 c1 (sreg c1 1) (ip c1)));
                  c2 = add_ip (if op = 0x81 then 2 else 1) c1;
                  (res, c3) = alu16 c2 reg (get16 c2 rm) imm
              in (CPU_OK, if reg \<noteq> ALU_CMP then put16 c3 rm res else c3))"

definition op_test :: "nat \<Rightarrow> u16 option \<Rightarrow> 'a cpu_scheme \<Rightarrow> 'a stop" where
  "op_test op override c =
     (let (rm, reg, c1) = decode_ov override c
      in (CPU_OK, if op = 0x85 then snd (alu16 c1 ALU_AND (get16 c1 rm) (r_lo c1 reg))
                  else snd (alu8 c1 ALU_AND (get8_rm c1 rm) (get8 c1 reg))))"

definition op_xchg :: "nat \<Rightarrow> u16 option \<Rightarrow> 'a cpu_scheme \<Rightarrow> 'a stop" where
  "op_xchg op override c =
     (let (rm, reg, c1) = decode_ov override c
      in if op = 0x87
         then let t = get16 c1 rm in (CPU_OK, set_r reg t (put16 c1 rm (r_lo c1 reg)))
         else let t = get8_rm c1 rm in (CPU_OK, put8 (put8_rm c1 rm (get8 c1 reg)) reg t))"

definition op_mov_store :: "nat \<Rightarrow> u16 option \<Rightarrow> 'a cpu_scheme \<Rightarrow> 'a stop" where
  "op_mov_store op override c =
     (let (rm, reg, c1) = decode_ov override c
      in (CPU_OK, if op = 0x89 then put16 c1 rm (r_lo c1 reg) else put8_rm c1 rm (get8 c1 reg)))"

definition op_mov_load :: "nat \<Rightarrow> u16 option \<Rightarrow> 'a cpu_scheme \<Rightarrow> 'a stop" where
  "op_mov_load op override c =
     (let (rm, reg, c1) = decode_ov override c
      in (CPU_OK, if op = 0x8B then set_r reg (get16 c1 rm) c1 else put8 c1 reg (get8_rm c1 rm)))"

definition op_mov_from_sreg :: "u16 option \<Rightarrow> 'a cpu_scheme \<Rightarrow> 'a stop" where
  "op_mov_from_sreg override c =
     (let (rm, reg, c1) = decode_ov override c in (CPU_OK, put16 c1 rm (sreg c1 (reg mod 4))))"

text \<open>LEA of a register operand reads an offset that was never set.\<close>

definition op_lea :: "'a cpu_scheme \<Rightarrow> 'a stop option" where
  "op_lea c =
     (case decode_rm c of
        (OpMem seg off, reg, c1) \<Rightarrow> Some (CPU_OK, set_r reg off c1)
      | (OpReg i, reg, c1) \<Rightarrow> None)"

definition op_mov_to_sreg :: "u16 option \<Rightarrow> 'a cpu_scheme \<Rightarrow> 'a stop" where
  "op_mov_to_sreg override c =
     (let (rm, reg, c1) = decode_ov override c;
          c2 = set_sreg (reg mod 4) (get16 c1 rm) c1
      in (CPU_OK, if reg mod 4 = 2 then c2\<lparr>irq_shadow := 1\<rparr> else c2))"

definition op_pop_rm :: "u16 option \<Rightarrow> 'a cpu_scheme \<Rightarrow> 'a stop" where
  "op_pop_rm override c =
     (let (rm, reg, c1) = decode_ov override c; (v, c2) = pop16 c1 in (CPU_OK, put16 c2 rm v))"

definition op_xchg_ax :: "nat \<Rightarrow> 'a cpu_scheme \<Rightarrow> 'a stop" where
  "op_xchg_ax op c =
     (let i = op mod 8; t = r_lo c AX in (CPU_OK, set_r i t (set_r AX (r_lo c i) c)))"

definition op_call_far :: "'a cpu_scheme \<Rightarrow> 'a stop" where
  "op_call_far c =
     (let off = rd16 c (sreg c 1) (ip c);
          seg = rd16 c (sreg c 1) (ip c + 2);
          c1 = add_ip 4 c;
          c2 = push16 c1 (sreg c1 1);
          c3 = push16 c2 (ip c2)
      in (CPU_OK, (set_sreg 1 seg c3)\<lparr>ip := off\<rparr>))"

text \<open>CBW, CWD and the transfers of the flags: 98, 99 and 9C to 9F.\<close>

definition op_cbw :: "'a cpu_scheme \<Rightarrow> 'a stop" where
  "op_cbw c = (CPU_OK, set_r AX (scast (ucast (r_lo c AX) :: u8)) c)"

definition op_cwd :: "'a cpu_scheme \<Rightarrow> 'a stop" where
  "op_cwd c = (CPU_OK, set_r DX (if r_lo c AX AND 0x8000 \<noteq> 0 then 0xFFFF else 0) c)"

definition op_pushf :: "'a cpu_scheme \<Rightarrow> 'a stop" where
  "op_pushf c = (CPU_OK, push16 c ((flags c AND 0x7FD7) OR 2))"

definition op_popf :: "'a cpu_scheme \<Rightarrow> 'a stop" where
  "op_popf c = (let (v, c1) = pop16 c in (CPU_OK, c1\<lparr>flags := (v AND 0x7FD7) OR 2\<rparr>))"

definition op_sahf :: "'a cpu_scheme \<Rightarrow> 'a stop" where
  "op_sahf c = (CPU_OK, c\<lparr>flags := (flags c AND NOT 0x00D5) OR (drop_bit 8 (r_lo c AX) AND 0xD5) OR 0x02\<rparr>)"

definition op_lahf :: "'a cpu_scheme \<Rightarrow> 'a stop" where
  "op_lahf c = (CPU_OK, set_r AX ((r_lo c AX AND 0x00FF) OR push_bit 8 ((flags c AND 0xD5) OR 0x02)) c)"

text \<open>Decimal adjustment.\<close>

definition op_daa :: "'a cpu_scheme \<Rightarrow> 'a stop" where
  "op_daa c =
     (let old = get8 c 0;
          old_cf = has c FLAG_CF;
          low = (old AND 15 > 9 \<or> has c FLAG_AF);
          v1 = (if low then old + 6 else old);
          v = (if old > 0x99 \<or> old_cf then v1 + 0x60 else v1);
          c1 = set_af low (set_cf (old > 0x99 \<or> old_cf) c)
      in (CPU_OK, cpu_set_flags (put8 c1 0 v) (ucast v) 8))"

definition op_das :: "'a cpu_scheme \<Rightarrow> 'a stop" where
  "op_das c =
     (let old = get8 c 0;
          old_cf = has c FLAG_CF;
          adjust_low = (old AND 15 > 9 \<or> has c FLAG_AF);
          v1 = (if adjust_low then old - 6 else old);
          carry1 = (adjust_low \<and> (old_cf \<or> old < 6));
          v = (if old > 0x99 \<or> old_cf then v1 - 0x60 else v1);
          carry = (if old > 0x99 \<or> old_cf then True else carry1);
          c1 = set_cf carry c;
          c2 = c1\<lparr>flags := if adjust_low then flags c1 OR FLAG_AF else flags c1 AND NOT FLAG_AF\<rparr>
      in (CPU_OK, cpu_set_flags (put8 c2 0 v) (ucast v) 8))"

text \<open>A0 to A3, A8 and A9: the accumulator and a memory offset, and TEST with an immediate.\<close>

definition op_moffs :: "nat \<Rightarrow> u16 option \<Rightarrow> 'a cpu_scheme \<Rightarrow> 'a stop" where
  "op_moffs op override c =
     (let seg = seg_or override (sreg c 3);
          off = rd16 c (sreg c 1) (ip c);
          c1 = (if op = 0xA0 then set_r AX ((r_lo c AX AND 0xFF00) OR ucast (rd8 c seg off)) c
                else if op = 0xA1 then set_r AX (rd16 c seg off) c
                else if op = 0xA2 then wr8 c seg off (get8 c 0)
                else wr16 c seg off (r_lo c AX))
      in (CPU_OK, add_ip 2 c1))"

definition op_test_acc :: "nat \<Rightarrow> 'a cpu_scheme \<Rightarrow> 'a stop" where
  "op_test_acc op c =
     (if op = 0xA8 then (CPU_OK, snd (alu8 (add_ip 1 c) ALU_AND (get8 c 0) (rd8 c (sreg c 1) (ip c))))
      else (CPU_OK, add_ip 2 (snd (alu16 c ALU_AND (r_lo c AX) (rd16 c (sreg c 1) (ip c))))))"

definition op_mov_imm :: "nat \<Rightarrow> 'a cpu_scheme \<Rightarrow> 'a stop" where
  "op_mov_imm op c =
     (if op < 0xB8 then (CPU_OK, put8 (add_ip 1 c) (op mod 8) (rd8 c (sreg c 1) (ip c)))
      else (CPU_OK, add_ip 2 (set_r (op mod 8) (rd16 c (sreg c 1) (ip c)) c)))"

text \<open>C2, C3, CA and CB: the returns.\<close>

definition op_ret :: "nat \<Rightarrow> 'a cpu_scheme \<Rightarrow> 'a stop" where
  "op_ret op c =
     (let n = (if op = 0xC2 \<or> op = 0xCA then rd16 c (sreg c 1) (ip c) else 0);
          (off, c1) = pop16 c;
          c2 = c1\<lparr>ip := off\<rparr>;
          c3 = (if op = 0xCA \<or> op = 0xCB then let (seg, c4) = pop16 c2 in set_sreg 1 seg c4 else c2)
      in (CPU_OK, if op = 0xC2 \<or> op = 0xCA then set_r SP (r_lo c3 SP + n) c3 else c3))"

text \<open>LES and LDS of a register operand read an address that was never set.\<close>

definition op_load_far :: "nat \<Rightarrow> u16 option \<Rightarrow> 'a cpu_scheme \<Rightarrow> 'a stop option" where
  "op_load_far op override c =
     (case decode_ov override c of
        (OpMem seg off, reg, c1) \<Rightarrow>
          let c2 = set_r reg (rd16 c1 seg off) c1
          in Some (CPU_OK, set_sreg (if op = 0xC4 then 0 else 3) (rd16 c2 seg (off + 2)) c2)
      | (OpReg i, reg, c1) \<Rightarrow> None)"

definition op_mov_rm_imm :: "nat \<Rightarrow> u16 option \<Rightarrow> 'a cpu_scheme \<Rightarrow> 'a stop" where
  "op_mov_rm_imm op override c =
     (let (rm, reg, c1) = decode_ov override c
      in if op = 0xC7 then (CPU_OK, add_ip 2 (put16 c1 rm (rd16 c1 (sreg c1 1) (ip c1))))
         else (CPU_OK, put8_rm (add_ip 1 c1) rm (rd8 c1 (sreg c1 1) (ip c1))))"

text \<open>The loop of ENTER that copies the display, \<open>level\<close> times.\<close>

fun enter_display :: "nat \<Rightarrow> 'a cpu_scheme \<Rightarrow> 'a cpu_scheme" where
  "enter_display 0 c = c"
| "enter_display (Suc n) c =
     (let c1 = set_r BP (r_lo c BP - 2) c
      in enter_display n (push16 c1 (rd16 c1 (sreg c1 2) (r_lo c1 BP))))"

definition op_enter :: "'a cpu_scheme \<Rightarrow> 'a stop" where
  "op_enter c =
     (let sz = rd16 c (sreg c 1) (ip c);
          level = unat (rd8 c (sreg c 1) (ip c + 2));
          c1 = add_ip 3 c;
          c2 = push16 c1 (r_lo c1 BP);
          frame = r_lo c2 SP;
          c3 = enter_display level c2;
          c4 = push16 c3 frame;
          c5 = set_r BP frame c4
      in (CPU_OK, set_r SP (r_lo c5 SP - sz) c5))"

definition op_leave :: "'a cpu_scheme \<Rightarrow> 'a stop" where
  "op_leave c = (let (v, c1) = pop16 (set_r SP (r_lo c BP) c) in (CPU_OK, set_r BP v c1))"

text \<open>AAM, AAD and XLAT; AAM with base 0 is the divide error.\<close>

definition op_aam :: "'a cpu_scheme \<Rightarrow> 'a stop" where
  "op_aam c =
     (let base = rd8 c (sreg c 1) (ip c); c1 = add_ip 1 c
      in if base = 0 then let c2 = c1\<lparr>int_no := 0\<rparr> in (CPU_INT, cpu_enter_interrupt c2 (int_no c2))
         else let al = get8 c1 0;
                  c2 = put8 (put8 c1 4 (al div base)) 0 (al mod base)
              in (CPU_OK, cpu_set_flags c2 (ucast (get8 c2 0)) 8))"

definition op_aad :: "'a cpu_scheme \<Rightarrow> 'a stop" where
  "op_aad c =
     (let base = rd8 c (sreg c 1) (ip c); c1 = add_ip 1 c;
          c2 = set_r AX (ucast (get8 c1 0 + get8 c1 4 * base)) c1
      in (CPU_OK, cpu_set_flags c2 (ucast (r_lo c2 AX)) 8))"

definition op_xlat :: "u16 option \<Rightarrow> 'a cpu_scheme \<Rightarrow> 'a stop" where
  "op_xlat override c =
     (CPU_OK, put8 c 0 (rd8 c (seg_or override (sreg c 3)) (r_lo c BX + ucast (get8 c 0))))"

text \<open>INT, INTO and IRET.\<close>

definition op_into :: "'a cpu_scheme \<Rightarrow> 'a stop" where
  "op_into c =
     (if \<not> has c FLAG_OF then (CPU_OK, c)
      else let c1 = c\<lparr>int_no := 4\<rparr> in (CPU_INT, cpu_enter_interrupt c1 (int_no c1)))"

definition op_int :: "'a cpu_scheme \<Rightarrow> 'a stop" where
  "op_int c =
     (let c1 = (add_ip 1 c)\<lparr>int_no := rd8 c (sreg c 1) (ip c)\<rparr>
      in (CPU_INT, cpu_enter_interrupt c1 (int_no c1)))"

definition op_iret :: "'a cpu_scheme \<Rightarrow> 'a stop" where
  "op_iret c =
     (let (off, c1) = pop16 c; c2 = c1\<lparr>ip := off\<rparr>;
          (seg, c3) = pop16 c2; c4 = set_sreg 1 seg c3;
          (f, c5) = pop16 c4
      in (CPU_IRET, c5\<lparr>flags := f\<rparr>))"

definition op_shift :: "nat \<Rightarrow> u16 option \<Rightarrow> u16 \<Rightarrow> 'a cpu_scheme \<Rightarrow> 'a stop" where
  "op_shift op override start c =
     (let (rm, reg, c1) = decode_ov override c
      in if reg = 6 then (CPU_FAULT, c1\<lparr>ip := start\<rparr>)
         else let (count, c2) = (if op = 0xD0 \<or> op = 0xD1 then (1, c1)
                                 else if op = 0xD2 \<or> op = 0xD3 then (unat (r_lo c1 CX), c1)
                                 else fetch8 c1)
              in if op = 0xC1 \<or> op = 0xD1 \<or> op = 0xD3
                 then let (v, c3) = shift c2 reg (ucast (get16 c2 rm)) count 16 in (CPU_OK, put16 c3 rm (ucast v))
                 else let (v, c3) = shift c2 reg (ucast (get8_rm c2 rm)) count 8 in (CPU_OK, put8_rm c3 rm (ucast v)))"

definition op_loop :: "nat \<Rightarrow> 'a cpu_scheme \<Rightarrow> 'a stop" where
  "op_loop op c =
     (let rel = rd8 c (sreg c 1) (ip c);
          c1 = add_ip 1 c;
          c2 = set_r CX (r_lo c1 CX - 1) c1;
          zf = has c2 FLAG_ZF;
          take = (op = 0xE2 \<or> op = 0xE0 \<and> \<not> zf \<or> op = 0xE1 \<and> zf)
      in (CPU_OK, if r_lo c2 CX \<noteq> 0 \<and> take then add_ip (scast rel) c2 else c2))"

definition op_jcxz :: "'a cpu_scheme \<Rightarrow> 'a stop" where
  "op_jcxz c =
     (let rel = rd8 c (sreg c 1) (ip c); c1 = add_ip 1 c
      in (CPU_OK, if r_lo c1 CX = 0 then add_ip (scast rel) c1 else c1))"

definition op_in :: "'a devices \<Rightarrow> nat \<Rightarrow> 'a cpu_scheme \<Rightarrow> 'a stop" where
  "op_in d op c =
     (let port = (if op = 0xE4 then ucast (rd8 c (sreg c 1) (ip c)) else r_lo c DX)
      in case port_in8 d of
           None \<Rightarrow> (CPU_FAULT, c)
         | Some f \<Rightarrow>
             let (rc, v, c1) = f c port
             in if rc \<noteq> 0 then (CPU_FAULT, c1)
                else let c2 = (if op = 0xE4 then add_ip 1 c1 else c1)
                     in (CPU_OK, set_r AX ((r_lo c2 AX AND 0xFF00) OR ucast v) c2))"

definition op_out :: "'a devices \<Rightarrow> nat \<Rightarrow> 'a cpu_scheme \<Rightarrow> 'a stop" where
  "op_out d op c =
     (let port = (if op = 0xE6 then ucast (rd8 c (sreg c 1) (ip c)) else r_lo c DX)
      in case port_out8 d of
           None \<Rightarrow> (CPU_FAULT, c)
         | Some f \<Rightarrow>
             let (rc, c1) = f c port (ucast (r_lo c AX))
             in if rc \<noteq> 0 then (CPU_FAULT, c1)
                else (CPU_OK, if op = 0xE6 then add_ip 1 c1 else c1))"

text \<open>E8 to EB: the direct call and jumps.\<close>

definition op_call_near :: "'a cpu_scheme \<Rightarrow> 'a stop" where
  "op_call_near c =
     (let rel = rd16 c (sreg c 1) (ip c);
          c1 = add_ip 2 c;
          c2 = push16 c1 (ip c1)
      in (CPU_OK, add_ip rel c2))"

definition op_jmp :: "nat \<Rightarrow> 'a cpu_scheme \<Rightarrow> 'a stop" where
  "op_jmp op c =
     (if op = 0xE9 then (CPU_OK, add_ip (2 + rd16 c (sreg c 1) (ip c)) c)
      else if op = 0xEA
      then let off = rd16 c (sreg c 1) (ip c); seg = rd16 c (sreg c 1) (ip c + 2)
           in (CPU_OK, set_sreg 1 seg (c\<lparr>ip := off\<rparr>))
      else (CPU_OK, add_ip (scast (rd8 c (sreg c 1) (ip c))) (add_ip 1 c)))"

subsection \<open>Group 3\<close>

definition op_neg :: "bool \<Rightarrow> operand \<Rightarrow> 'a cpu_scheme \<Rightarrow> 'a cpu_scheme" where
  "op_neg w rm c =
     (if w then let v = get16 c rm
                in cpu_set_flags (set_of (v = 0x8000) (set_cf (v \<noteq> 0) (put16 c rm (0 - v)))) (ucast (0 - v)) 16
      else let v = get8_rm c rm
           in cpu_set_flags (set_of (v = 0x80) (set_cf (v \<noteq> 0) (put8_rm c rm (0 - v)))) (ucast (0 - v)) 8)"

definition op_mul :: "bool \<Rightarrow> operand \<Rightarrow> 'a cpu_scheme \<Rightarrow> 'a cpu_scheme" where
  "op_mul w rm c =
     (if w then let p = ucast (r_lo c AX) * ucast (get16 c rm) :: u32;
                    c1 = set_r DX (ucast (drop_bit 16 p)) (set_r AX (ucast p) c)
                in set_of (r_lo c1 DX \<noteq> 0) (set_cf (r_lo c1 DX \<noteq> 0) c1)
      else let p = ucast (get8 c 0) * ucast (get8_rm c rm) :: u16
           in set_of (drop_bit 8 p \<noteq> 0) (set_cf (drop_bit 8 p \<noteq> 0) (set_r AX p c)))"

definition op_imul1 :: "bool \<Rightarrow> operand \<Rightarrow> 'a cpu_scheme \<Rightarrow> 'a cpu_scheme" where
  "op_imul1 w rm c =
     (if w then let p = sint (r_lo c AX) * sint (get16 c rm);
                    c1 = set_r DX (of_int (p div 0x10000)) (set_r AX (of_int p) c);
                    over = (p \<noteq> sint (of_int p :: u16))
                in set_of over (set_cf over c1)
      else let p = sint (get8 c 0) * sint (get8_rm c rm);
               over = (p \<noteq> sint (of_int p :: u8))
           in set_of over (set_cf over (set_r AX (of_int p) c)))"

definition op_div :: "bool \<Rightarrow> operand \<Rightarrow> u16 \<Rightarrow> 'a cpu_scheme \<Rightarrow> 'a stop" where
  "op_div w rm start c =
     (if w then let d = get16 c rm
                in if d = 0 then divide_error c start
                   else let n = push_bit 16 (ucast (r_lo c DX)) OR ucast (r_lo c AX) :: u32
                        in if n div ucast d > 0xFFFF then divide_error c start
                           else (CPU_OK, set_r DX (ucast (n mod ucast d)) (set_r AX (ucast (n div ucast d)) c))
      else let d = get8_rm c rm
           in if d = 0 then divide_error c start
              else let n = r_lo c AX
                   in if n div ucast d > 0xFF then divide_error c start
                      else (CPU_OK, put8 (put8 c 0 (ucast (n div ucast d))) 4 (ucast (n mod ucast d))))"

text \<open>C's signed division truncates towards zero.\<close>

definition cdiv :: "int \<Rightarrow> int \<Rightarrow> int" where
  "cdiv n d = sgn n * sgn d * (\<bar>n\<bar> div \<bar>d\<bar>)"

definition cmod :: "int \<Rightarrow> int \<Rightarrow> int" where
  "cmod n d = n - cdiv n d * d"

definition op_idiv :: "bool \<Rightarrow> operand \<Rightarrow> u16 \<Rightarrow> 'a cpu_scheme \<Rightarrow> 'a stop" where
  "op_idiv w rm start c =
     (if w then let d = sint (get16 c rm)
                in if d = 0 then divide_error c start
                   else let n = sint (push_bit 16 (ucast (r_lo c DX)) OR ucast (r_lo c AX) :: u32)
                        in if n = - 0x80000000 \<and> d = - 1 then divide_error c start
                           else if cdiv n d > 32767 \<or> cdiv n d < - 32768 then divide_error c start
                           else (CPU_OK, set_r DX (of_int (cmod n d)) (set_r AX (of_int (cdiv n d)) c))
      else let d = sint (get8_rm c rm)
           in if d = 0 then divide_error c start
              else let n = sint (r_lo c AX); q = sint (of_int (cdiv n d) :: u16)
                   in if q > 127 \<or> q < - 128 then divide_error c start
                      else (CPU_OK, put8 (put8 c 0 (of_int q)) 4 (of_int (cmod n d))))"

definition op_group3 :: "nat \<Rightarrow> u16 option \<Rightarrow> u16 \<Rightarrow> 'a cpu_scheme \<Rightarrow> 'a stop" where
  "op_group3 op override start c =
     (let (rm, reg, c1) = decode_ov override c; w = (op = 0xF7)
      in if reg = 0 \<or> reg = 1
         then (CPU_OK, if w then add_ip 2 (snd (alu16 c1 ALU_AND (get16 c1 rm) (rd16 c1 (sreg c1 1) (ip c1))))
                       else snd (alu8 (add_ip 1 c1) ALU_AND (get8_rm c1 rm) (rd8 c1 (sreg c1 1) (ip c1))))
         else if reg = 2
         then (CPU_OK, if w then put16 c1 rm (NOT (get16 c1 rm)) else put8_rm c1 rm (NOT (get8_rm c1 rm)))
         else if reg = 3 then (CPU_OK, op_neg w rm c1)
         else if reg = 4 then (CPU_OK, op_mul w rm c1)
         else if reg = 5 then (CPU_OK, op_imul1 w rm c1)
         else if reg = 6 then op_div w rm start c1
         else op_idiv w rm start c1)"

subsection \<open>Groups 4 and 5\<close>

definition op_inc_dec8 :: "u16 option \<Rightarrow> 'a cpu_scheme \<Rightarrow> 'a stop" where
  "op_inc_dec8 override c =
     (let (rm, reg, c1) = decode_ov override c;
          v = get8_rm c1 rm;
          cf = has c1 FLAG_CF;
          res = (if reg = 0 then v + 1 else v - 1);
          c2 = set_cf cf (cpu_set_flags c1 (ucast res) 8);
          c3 = set_of (if reg = 0 then res = 0x80 else res = 0x7F) c2;
          c4 = set_af (if reg = 0 then v AND 15 = 15 else v AND 15 = 0) c3
      in (CPU_OK, put8_rm c4 rm res))"

definition op_inc_dec16 :: "operand \<Rightarrow> nat \<Rightarrow> 'a cpu_scheme \<Rightarrow> 'a cpu_scheme" where
  "op_inc_dec16 rm reg c1 =
     (let v = get16 c1 rm;
          cf = has c1 FLAG_CF;
          res = (if reg = 0 then v + 1 else v - 1);
          c2 = set_cf cf (cpu_set_flags c1 (ucast res) 16);
          c3 = set_of (if reg = 0 then res = 0x8000 else res = 0x7FFF) c2;
          c4 = set_af (if reg = 0 then v AND 15 = 15 else v AND 15 = 0) c3
      in put16 c4 rm res)"

text \<open>A far CALL or JMP through a register operand reads an address that was never set.\<close>

definition op_group5 :: "u16 option \<Rightarrow> 'a cpu_scheme \<Rightarrow> 'a stop option" where
  "op_group5 override c =
     (let (rm, reg, c1) = decode_ov override c
      in if reg = 0 \<or> reg = 1 then Some (CPU_OK, op_inc_dec16 rm reg c1)
         else if reg = 2
         then let target = get16 c1 rm; c2 = push16 c1 (ip c1) in Some (CPU_OK, c2\<lparr>ip := target\<rparr>)
         else if reg = 3
         then (case rm of
                 OpReg i \<Rightarrow> None
               | OpMem s a \<Rightarrow>
                   let off = rd16 c1 s a; seg = rd16 c1 s (a + 2);
                       c2 = push16 c1 (sreg c1 1);
                       c3 = push16 c2 (ip c2)
                   in Some (CPU_OK, set_sreg 1 seg (c3\<lparr>ip := off\<rparr>)))
         else if reg = 4 then Some (CPU_OK, c1\<lparr>ip := get16 c1 rm\<rparr>)
         else if reg = 5
         then (case rm of
                 OpReg i \<Rightarrow> None
               | OpMem s a \<Rightarrow>
                   let off = rd16 c1 s a; seg = rd16 c1 s (a + 2)
                   in Some (CPU_OK, set_sreg 1 seg (c1\<lparr>ip := off\<rparr>)))
         else if reg = 6 then Some (CPU_OK, push16 c1 (get16 c1 rm))
         else Some (CPU_FAULT, c1))"

section \<open>The step\<close>

text \<open>The switch over the one-byte opcodes.\<close>

definition op_switch :: "'a devices \<Rightarrow> nat \<Rightarrow> u16 option \<Rightarrow> u16 \<Rightarrow> 'a cpu_scheme \<Rightarrow> 'a stop option" where
  "op_switch d op override start c =
     (if op = 0x06 then Some (op_push_sreg 0 c)
      else if op = 0x07 then Some (op_pop_sreg 0 c)
      else if op = 0x0E then Some (op_push_sreg 1 c)
      else if op = 0x16 then Some (op_push_sreg 2 c)
      else if op = 0x17 then Some (op_pop_sreg 2 c)
      else if op = 0x1E then Some (op_push_sreg 3 c)
      else if op = 0x1F then Some (op_pop_sreg 3 c)
      else if op = 0x60 then Some (op_pusha c)
      else if op = 0x61 then Some (op_popa c)
      else if op = 0x68 \<or> op = 0x6A then Some (op_push_imm op c)
      else if op = 0x69 \<or> op = 0x6B then Some (op_imul3 op override c)
      else if 0x70 \<le> op \<and> op \<le> 0x7F then Some (op_jcc8 op c)
      else if 0x80 \<le> op \<and> op \<le> 0x83 then Some (op_alu_imm op override c)
      else if op = 0x84 \<or> op = 0x85 then Some (op_test op override c)
      else if op = 0x86 \<or> op = 0x87 then Some (op_xchg op override c)
      else if op = 0x88 \<or> op = 0x89 then Some (op_mov_store op override c)
      else if op = 0x8A \<or> op = 0x8B then Some (op_mov_load op override c)
      else if op = 0x8C then Some (op_mov_from_sreg override c)
      else if op = 0x8D then op_lea c
      else if op = 0x8E then Some (op_mov_to_sreg override c)
      else if op = 0x8F then Some (op_pop_rm override c)
      else if op = 0x90 then Some (CPU_OK, c)
      else if 0x91 \<le> op \<and> op \<le> 0x97 then Some (op_xchg_ax op c)
      else if op = 0x9A then Some (op_call_far c)
      else if op = 0x98 then Some (op_cbw c)
      else if op = 0x99 then Some (op_cwd c)
      else if op = 0x9C then Some (op_pushf c)
      else if op = 0x9D then Some (op_popf c)
      else if op = 0x9E then Some (op_sahf c)
      else if op = 0x9F then Some (op_lahf c)
      else if op = 0x27 then Some (op_daa c)
      else if op = 0x2F then Some (op_das c)
      else if 0xA0 \<le> op \<and> op \<le> 0xA3 then Some (op_moffs op override c)
      else if op = 0xA8 \<or> op = 0xA9 then Some (op_test_acc op c)
      else if 0xB0 \<le> op \<and> op \<le> 0xBF then Some (op_mov_imm op c)
      else if op \<in> {0xC2, 0xC3, 0xCA, 0xCB} then Some (op_ret op c)
      else if op = 0xC4 \<or> op = 0xC5 then op_load_far op override c
      else if op = 0xC6 \<or> op = 0xC7 then Some (op_mov_rm_imm op override c)
      else if op = 0xC8 then Some (op_enter c)
      else if op = 0xC9 then Some (op_leave c)
      else if op = 0xD4 then Some (op_aam c)
      else if op = 0xCE then Some (op_into c)
      else if op = 0xCD then Some (op_int c)
      else if op = 0xCF then Some (op_iret c)
      else if op = 0xD5 then Some (op_aad c)
      else if op = 0xD7 then Some (op_xlat override c)
      else if op \<in> {0xC0, 0xC1, 0xD0, 0xD1, 0xD2, 0xD3} then Some (op_shift op override start c)
      else if op \<in> {0xE0, 0xE1, 0xE2} then Some (op_loop op c)
      else if op = 0xE3 then Some (op_jcxz c)
      else if op = 0xE4 \<or> op = 0xEC then Some (op_in d op c)
      else if op = 0xE6 \<or> op = 0xEE then Some (op_out d op c)
      else if op \<in> {0xE5, 0xE7, 0xED, 0xEF} then Some (CPU_FAULT, c)
      else if op = 0xE8 then Some (op_call_near c)
      else if op \<in> {0xE9, 0xEA, 0xEB} then Some (op_jmp op c)
      else if op = 0xF4 then Some (CPU_HALT, c)
      else if op = 0xF5 then Some (CPU_OK, c\<lparr>flags := flags c XOR FLAG_CF\<rparr>)
      else if op = 0xF6 \<or> op = 0xF7 then Some (op_group3 op override start c)
      else if op = 0xF8 then Some (CPU_OK, set_cf False c)
      else if op = 0xF9 then Some (CPU_OK, set_cf True c)
      else if op = 0xFA then Some (CPU_OK, c\<lparr>flags := flags c AND NOT FLAG_IF\<rparr>)
      else if op = 0xFB then Some (CPU_OK, c\<lparr>flags := flags c OR FLAG_IF, irq_shadow := 1\<rparr>)
      else if op = 0xFC then Some (CPU_OK, c\<lparr>flags := flags c AND NOT FLAG_DF\<rparr>)
      else if op = 0xFD then Some (CPU_OK, c\<lparr>flags := flags c OR FLAG_DF\<rparr>)
      else if op = 0xFE then Some (op_inc_dec8 override c)
      else if op = 0xFF then op_group5 override c
      else Some (CPU_FAULT, c))"

text \<open>The instruction after its prefixes.\<close>

definition run_op :: "'a devices \<Rightarrow> nat \<Rightarrow> u16 option \<Rightarrow> bool \<Rightarrow> nat \<Rightarrow> u16 \<Rightarrow> 'a cpu_scheme \<Rightarrow> 'a stop option" where
  "run_op d op override operand32 rep start c0 =
     (let c = c0\<lparr>insns := insns c0 + 1, fault_opcode := of_nat op\<rparr>
      in if operand32
         then let (result, c1) = (if op \<in> {0xA5, 0xAB, 0xAD} then string32 c op rep override
                                  else if rep \<noteq> 0 then (CPU_FAULT, c) else op32 op override start c)
              in Some (result, if result = CPU_FAULT then c1\<lparr>fault_opcode := 0x66, ip := start\<rparr> else c1)
         else if 0xA4 \<le> op \<and> op \<le> 0xA7 \<or> 0xAA \<le> op \<and> op \<le> 0xAF
         then Some (CPU_OK, do_string c op rep (seg_or override (sreg c 3)))
         else if rep \<noteq> 0 then Some (CPU_FAULT, c)
         else if op = 0x0F then Some (op_0f override c)
         else if op < 0x40 \<and> op mod 8 \<le> 3 then Some (op_alu_rm op override c)
         else if op < 0x40 \<and> 4 \<le> op mod 8 \<and> op mod 8 \<le> 5 then Some (op_alu_acc op c)
         else if 0x40 \<le> op \<and> op \<le> 0x5F then Some (op_reg op c)
         else op_switch d op override start c)"

definition cpu_step :: "'a devices \<Rightarrow> 'a cpu_scheme \<Rightarrow> 'a stop option" where
  "cpu_step d c0 =
     (let (taken, c) = take_irq d c0
      in if taken then Some (CPU_INT, c)
         else case read_prefixes 15 None False 0 c of
                Inl (op, operand32, c1) \<Rightarrow>
                  Some (CPU_FAULT, c1\<lparr>fault_opcode := if operand32 then 0x66 else of_nat op, ip := ip c\<rparr>)
              | Inr (op, override, operand32, rep, c1) \<Rightarrow> run_op d op override operand32 rep (ip c) c1)"

section \<open>Fault names\<close>

definition hex_digit :: "nat \<Rightarrow> char" where
  "hex_digit n = ''0123456789ABCDEF'' ! n"

definition cpu_fault_name :: "nat \<Rightarrow> string" where
  "cpu_fault_name opcode =
     (if opcode = 0x0F then ''two-byte opcode (0F)''
      else if opcode = 0x0B then ''UD2''
      else if opcode = 0x27 then ''DAA''
      else if opcode = 0x2F then ''DAS''
      else if opcode = 0x37 then ''AAA''
      else if opcode = 0x3F then ''AAS''
      else if opcode = 0xD4 then ''AAM''
      else if opcode = 0xD5 then ''AAD''
      else if opcode = 0xD7 then ''XLAT''
      else if opcode = 0x66 then ''unsupported operand-size override (66)''
      else if opcode = 0x62 then ''BOUND''
      else if opcode = 0x63 then ''ARPL''
      else if opcode = 0x9B then ''FWAIT''
      else if opcode = 0xCC then ''INT3''
      else if opcode = 0xCE then ''INTO''
      else if opcode = 0xF1 then ''INT1''
      else ''opcode '' @ [hex_digit (opcode div 16 mod 16), hex_digit (opcode mod 16)])"

end
