(* ===== verification/Dos_Div.thy ===== *)
theory Dos_Div
  imports Dos_Exec Dos_Alu
begin

text \<open>
  The 32-bit DIV and IDIV of \<open>divide32\<close> (\<open>userland/dosrun/cpu.c\<close>). The code divides the
  magnitudes bit by bit, since a 64-bit division would need a helper of the compiler's run-time
  library, and puts the signs back afterwards. Here the shift-and-subtract loop is shown to be
  division, and the whole routine to be division truncating towards zero that faults exactly when
  the divisor is zero or the quotient does not fit its register.
\<close>

section \<open>The loop\<close>

lemma uint_or_disjoint: "x AND y = 0 \<Longrightarrow> uint (x OR y) = uint x + uint y" for x y :: "'a::len word"
  by (metis disjunctive_add_eq_or unsigned_0 unsigned_and_eq unsigned_or_eq)

lemma divide_bits_spec:
  fixes low q :: u32 and d rem :: u64
  assumes "uint rem < uint d" "uint d < 2 ^ 32" "take_bit n q = 0" "n \<le> 32"
  defines "N \<equiv> uint rem * 2 ^ n + uint low mod 2 ^ n"
  shows "uint (fst (divide_bits n low d rem q)) = N mod uint d \<and> uint (snd (divide_bits n low d rem q)) = uint q + N div uint d"
  using assms(1,3,4) unfolding N_def
proof (induction n arbitrary: rem q)
  case 0
  then show ?case by simp
next
  case (Suc i)
  define rem1 where "rem1 = push_bit 1 rem OR ucast (drop_bit i low AND 1)"
  define b where "b = (of_bool (bit low i) :: int)"
  have "uint (push_bit 1 rem) = 2 * uint rem"
    using Suc.prems(1) assms(2) by (simp add: uint_word_ariths mult.commute)
  moreover have "uint (ucast (drop_bit i low AND 1) :: u64) = b"
    by (simp add: b_def and_one_eq mod_2_eq_odd bit_iff_odd_drop_bit)
  moreover have "push_bit 1 rem AND ucast (drop_bit i low AND 1) = 0"
    by (rule bit_word_eqI) (auto simp: bit_simps simp del: One_nat_def)
  ultimately have rem1: "uint rem1 = 2 * uint rem + b" unfolding rem1_def by (simp add: uint_or_disjoint del: push_bit_of_1)
  have lo: "uint low mod 2 ^ Suc i = b * 2 ^ i + uint low mod 2 ^ i"
    using take_bit_Suc_from_most [of i "uint low"] Suc.prems(3) by (simp add: b_def take_bit_eq_mod mult.commute bit_uint_iff)
  have N: "uint rem * 2 ^ Suc i + uint low mod 2 ^ Suc i = uint rem1 * 2 ^ i + uint low mod 2 ^ i"
    unfolding lo rem1 by (simp add: algebra_simps)
  have qb: "\<not> bit q j" if "j < Suc i" for j
    using Suc.prems(2) that by (metis bit_0_eq bit_take_bit_iff bot_apply bot_bool_def)
  have q: "take_bit i q = 0" by (rule bit_word_eqI) (auto simp: bit_simps qb)
  have step: "divide_bits (Suc i) low d rem q = (if d \<le> rem1 then divide_bits i low d (rem1 - d) (q OR push_bit i 1)
                                                else divide_bits i low d rem1 q)"
    by (simp only: divide_bits.simps Let_def rem1_def)
  show ?case
  proof (cases "rem1 \<ge> d")
    case True
    have r2: "uint (rem1 - d) = uint rem1 - uint d" using True by (simp add: uint_minus_simple_alt word_le_def)
    have q2: "uint (q OR push_bit i 1) = uint q + 2 ^ i" "take_bit i (q OR push_bit i 1) = 0"
    proof -
      have "q AND push_bit i 1 = 0" by (rule bit_word_eqI) (auto simp: bit_simps qb simp del: push_bit_of_1)
      moreover have "uint (push_bit i 1 :: u32) = 2 ^ i" using Suc.prems(3)
        by (intro bit_eqI) (auto simp: bit_uint_iff bit_simps simp del: push_bit_of_1)
      ultimately show "uint (q OR push_bit i 1) = uint q + 2 ^ i" by (simp only: uint_or_disjoint)
      show "take_bit i (q OR push_bit i 1) = 0" by (rule bit_word_eqI) (auto simp: bit_simps qb simp del: push_bit_of_1)
    qed
    have lt: "uint (rem1 - d) < uint d" using r2 rem1 Suc.prems(1) by (simp add: b_def)
    have d0: "uint d \<noteq> 0" using Suc.prems(1) by (metis not_less unsigned_greater_eq)
    define A where "A = uint (rem1 - d) * 2 ^ i + uint low mod 2 ^ i"
    have A: "uint rem1 * 2 ^ i + uint low mod 2 ^ i = A + 2 ^ i * uint d"
      by (simp add: A_def r2 algebra_simps)
    show ?thesis using Suc.IH [OF lt q2(2)] Suc.prems(3) True d0 unfolding N step A A_def [symmetric]
      by (simp add: q2(1) del: push_bit_of_1)
  next
    case False
    then have "uint rem1 < uint d" by (simp add: word_le_def)
    then show ?thesis using Suc.IH [OF _ q] Suc.prems(3) False unfolding N step by simp
  qed
qed

section \<open>Signs and magnitudes\<close>

lemma sint_sign: "sint (x::'a::len word) = uint x - (if bit x (LENGTH('a) - 1) then 2 ^ LENGTH('a) else 0)"
  using signed_take_bit_eq_take_bit_minus [of "LENGTH('a) - 1" "uint x"]
    bintr_uint [of "LENGTH('a)" x]
  by (simp add: sint_uint bit_uint_iff of_bool_def)

definition magnitude :: "bool \<Rightarrow> 'a::len word \<Rightarrow> 'a word" where
  "magnitude s x = (if s \<and> bit x (LENGTH('a) - 1) then - x else x)"

definition number :: "bool \<Rightarrow> 'a::len word \<Rightarrow> int" where
  "number s x = (if s then sint x else uint x)"

lemma magnitude_abs: "uint (magnitude s x) = \<bar>number s x\<bar>"
  for x :: "'a::len word"
proof (cases "s \<and> bit x (LENGTH('a) - 1)")
  case True
  then have "x \<noteq> 0" by (metis bit_0_eq bot_apply bot_bool_def)
  then have "0 < uint x" using uint_ge_0 [of x] by (metis order_less_le unsigned_eq_0_iff)
  moreover have "uint x < 2 ^ LENGTH('a)" by (rule uint_bounded)
  ultimately show ?thesis using True
    by (simp add: magnitude_def number_def sint_sign uint_word_ariths zmod_zminus1_eq_if abs_if)
next
  case False
  then show ?thesis by (auto simp: magnitude_def number_def sint_sign)
qed

lemma drop_bit_top: "drop_bit (LENGTH('a) - 1) x \<noteq> 0 \<longleftrightarrow> bit x (LENGTH('a) - 1)" for x :: "'a::len word"
  by (metis One_nat_def drop_bit_eq_zero_iff_not_bit_last)

lemma le_div_iff: "0 < m \<Longrightarrow> b \<le> a div m \<longleftrightarrow> b * m \<le> a" for a b m :: int
proof
  assume m: "0 < m" and "b \<le> a div m"
  then have "b * m \<le> a div m * m" by simp
  also have "\<dots> \<le> a" using m by (metis div_mult_mod_eq le_add_same_cancel1 pos_mod_sign)
  finally show "b * m \<le> a" .
next
  assume m: "0 < m" and "b * m \<le> a"
  then have "b * m div m \<le> a div m" by (intro zdiv_mono1)
  then show "b \<le> a div m" using m by simp
qed

lemma cdiv_signs: "d \<noteq> 0 \<Longrightarrow> cdiv n d = (if (n < 0) \<noteq> (d < 0) then - (\<bar>n\<bar> div \<bar>d\<bar>) else \<bar>n\<bar> div \<bar>d\<bar>)"
  by (cases "n = 0") (auto simp: cdiv_def sgn_if)

lemma cmod_signs: "d \<noteq> 0 \<Longrightarrow> cmod n d = (if n < 0 then - (\<bar>n\<bar> mod \<bar>d\<bar>) else \<bar>n\<bar> mod \<bar>d\<bar>)"
proof -
  assume "d \<noteq> 0"
  then have "cdiv n d * d = (if n < 0 then - (\<bar>n\<bar> div \<bar>d\<bar> * \<bar>d\<bar>) else \<bar>n\<bar> div \<bar>d\<bar> * \<bar>d\<bar>)"
    unfolding cdiv_signs [OF \<open>d \<noteq> 0\<close>] by (cases "d < 0") simp_all
  then show ?thesis
    unfolding cmod_def by (simp add: minus_div_mult_eq_mod [symmetric])
qed

lemma number_neg: "number s x < 0 \<longleftrightarrow> s \<and> bit x (LENGTH('a) - 1)" for x :: "'a::len word"
  using uint_bounded [of x] by (auto simp: number_def sint_sign not_less split: if_splits)

definition dividend_of :: "'a cpu_scheme \<Rightarrow> u64" where
  "dividend_of c = push_bit 32 (ucast (cpu_reg32 c DX)) OR ucast (cpu_reg32 c AX)"

definition quotient_fits :: "bool \<Rightarrow> int \<Rightarrow> bool" where
  "quotient_fits s q = (if s then - (2 ^ 31) \<le> q \<and> q < 2 ^ 31 else q < 2 ^ 32)"

lemma divide32_eq:
  fixes c :: "'a cpu_scheme" and divisor :: u32 and s :: bool
  defines "m \<equiv> magnitude s (dividend_of c)" and "e \<equiv> magnitude s divisor"
    and "neg \<equiv> number s (dividend_of c) < 0" and "negd \<equiv> number s divisor < 0"
  shows "divide32 c divisor s start =
     (if e = 0 \<or> drop_bit 32 m \<ge> ucast e then divide_error c start
      else let (r, q) = divide_bits 32 (ucast m) (ucast e) (drop_bit 32 m) 0
           in if s \<and> q > (if neg \<noteq> negd then 0x80000000 else 0x7FFFFFFF) then divide_error c start
              else (CPU_OK, cpu_put_reg32 (cpu_put_reg32 c AX (if neg \<noteq> negd then - q else q))
                              DX (if neg then - ucast r else ucast r)))"
proof -
  have "(s \<and> drop_bit 63 (dividend_of c) \<noteq> 0) = neg" "(s \<and> divisor AND 0x80000000 \<noteq> 0) = negd"
    using drop_bit_top [of "dividend_of c"] by (simp_all add: neg_def negd_def number_neg and_numeral_bit)
  moreover have "(if neg then NOT (dividend_of c) + 1 else dividend_of c) = m" "(if negd then 0 - divisor else divisor) = e"
    by (simp_all add: m_def e_def neg_def negd_def number_neg magnitude_def minus_eq_not_plus_1)
  ultimately show ?thesis
    unfolding divide32_def Let_def dividend_of_def [symmetric] by (simp only: diff_0)
qed

lemma hi_part: "uint (drop_bit 32 m) = uint m div 2 ^ 32" for m :: u64
  using bintr_uint [of 64 m] unfolding unsigned_drop_bit_eq by (simp add: drop_bit_eq_div)

lemma divide_magnitudes:
  fixes m :: u64 and e :: u32
  assumes "uint m div 2 ^ 32 < uint e"
  shows "uint (fst (divide_bits 32 (ucast m) (ucast e) (drop_bit 32 m) 0)) = uint m mod uint e"
    and "uint (snd (divide_bits 32 (ucast m) (ucast e) (drop_bit 32 m) 0)) = uint m div uint e"
proof -
  have "uint (ucast m :: u32) = uint m mod 2 ^ 32" by (simp add: unsigned_ucast_eq take_bit_eq_mod)
  moreover have ue: "uint (ucast e :: u64) = uint e" "uint e < 2 ^ 32"
    using uint_bounded [of e] by (simp_all add: unsigned_ucast_eq take_bit_eq_mod)
  ultimately show "uint (fst (divide_bits 32 (ucast m) (ucast e) (drop_bit 32 m) 0)) = uint m mod uint e"
    "uint (snd (divide_bits 32 (ucast m) (ucast e) (drop_bit 32 m) 0)) = uint m div uint e"
    using divide_bits_spec [of "drop_bit 32 m" "ucast e" 32 0 "ucast m", unfolded hi_part ue(1)] assms by simp_all
qed

lemma if_swap: "(if \<not> b then x else y) = (if b then y else x)"
  by simp

text \<open>
  C15: The 32-bit DIV and IDIV compute division truncating towards zero of the 64-bit number in
  EDX:EAX, quotient into EAX and remainder into EDX, for every register content; the divide fault
  is taken exactly when the divisor is zero or the quotient does not fit 32 bits, so that neither
  the bit-by-bit loop nor the handling of signs loses a case, the most negative numbers included.
\<close>

theorem divide32_correct:
  "divide32 c divisor s start =
    (let n = number s (dividend_of c); d = number s divisor in
       if d \<noteq> 0 \<and> quotient_fits s (cdiv n d)
       then (CPU_OK, cpu_put_reg32 (cpu_put_reg32 c AX (word_of_int (cdiv n d))) DX (word_of_int (cmod n d)))
       else divide_error c start)"
proof -
  define n d where nd: "n = number s (dividend_of c)" "d = number s divisor"
  define m e where me: "m = magnitude s (dividend_of c)" "e = magnitude s divisor"
  have abs: "uint m = \<bar>n\<bar>" "uint e = \<bar>d\<bar>" by (simp_all add: me nd magnitude_abs)
  have e0: "e = 0 \<longleftrightarrow> d = 0" using abs by (metis abs_eq_0 unsigned_eq_0_iff)
  have ge: "drop_bit 32 m \<ge> ucast e \<longleftrightarrow> \<bar>d\<bar> \<le> \<bar>n\<bar> div 2 ^ 32"
    using uint_bounded [of e] abs by (simp only: word_le_def hi_part) (simp add: unsigned_ucast_eq take_bit_eq_mod)
  note dv = divide32_eq [of c divisor s start, folded me nd]
  have unsigned: "n \<ge> 0" "d \<ge> 0" if "\<not> s" using that by (simp_all add: nd number_def)
  show ?thesis unfolding nd [symmetric] Let_def
  proof (cases "e = 0 \<or> drop_bit 32 m \<ge> ucast e")
    case True
    have "\<not> (d \<noteq> 0 \<and> quotient_fits s (cdiv n d))"
    proof (cases "d = 0")
      case False
      then have "2 ^ 32 \<le> \<bar>n\<bar> div \<bar>d\<bar>" using True by (simp only: e0 ge le_div_iff) (simp add: le_div_iff mult.commute)
      then show ?thesis using False unsigned by (auto simp: quotient_fits_def cdiv_signs)
    qed simp
    then show "divide32 c divisor s start = (if d \<noteq> 0 \<and> quotient_fits s (cdiv n d)
       then (CPU_OK, cpu_put_reg32 (cpu_put_reg32 c AX (word_of_int (cdiv n d))) DX (word_of_int (cmod n d)))
       else divide_error c start)"
      unfolding dv if_P [OF True] by (rule if_not_P [symmetric])
  next
    case False
    obtain r q where rq: "divide_bits 32 (ucast m) (ucast e) (drop_bit 32 m) 0 = (r, q)" by (metis surj_pair)
    have d0: "\<not> d = 0" using False e0 by blast
    have r: "uint r = \<bar>n\<bar> mod \<bar>d\<bar>" and q: "uint q = \<bar>n\<bar> div \<bar>d\<bar>"
      using divide_magnitudes [of m e, unfolded rq abs] False by (simp_all only: ge de_Morgan_disj not_le fst_conv snd_conv simp_thms)
    have "quotient_fits s (cdiv n d) \<longleftrightarrow> \<not> (s \<and> q > (if (n < 0) \<noteq> (d < 0) then 0x80000000 else 0x7FFFFFFF))"
      using q uint_bounded [of q] unsigned uint_ge_0 [of q] unfolding quotient_fits_def cdiv_signs [OF d0]
      by (auto simp: word_less_def)
    moreover have "word_of_int (cdiv n d) = (if (n < 0) \<noteq> (d < 0) then - q else q)"
      "word_of_int (cmod n d) = (if n < 0 then - ucast r else ucast r :: u32)"
      unfolding cdiv_signs [OF d0] cmod_signs [OF d0] r [symmetric] q [symmetric] by simp_all
    ultimately show "divide32 c divisor s start = (if d \<noteq> 0 \<and> quotient_fits s (cdiv n d)
       then (CPU_OK, cpu_put_reg32 (cpu_put_reg32 c AX (word_of_int (cdiv n d))) DX (word_of_int (cmod n d)))
       else divide_error c start)"
      using d0 unfolding dv if_not_P [OF False] rq prod.case Let_def by (simp only: simp_thms if_swap)
  qed
qed

end
