(* ===== verification/Dos_Frame.thy ===== *)
theory Dos_Frame
  imports Dos_Exec Dos_Alu
begin

text \<open>
  What an instruction of \<open>dosrun\<close>'s processor may touch. The guest's memory is the megabyte
  below \<open>MEM_SIZE\<close>, which \<open>cpu_init\<close> allocates; \<open>outside\<close> is everything else, and every
  operation of \<open>cpu.c\<close> leaves it alone. The second projection, \<open>arch\<close>, is the processor up to
  the instruction pointer and the interpreter's own counters, which decoding moves.
\<close>

section \<open>Memory outside the guest\<close>

definition outside :: "'a cpu_scheme \<Rightarrow> u32 \<Rightarrow> u8" where
  "outside c = (\<lambda>a. if a < MEM_SIZE then 0 else mem c a)"

lemma in_memory: "a AND (MEM_SIZE - 1) < MEM_SIZE"
proof -
  have "a AND 0xFFFFF \<le> 0xFFFFF" by (rule word_and_le1)
  then show ?thesis by (simp add: MEM_SIZE_def word_le_nat_alt word_less_nat_alt)
qed

named_theorems outside_simps

lemma outside_fields [outside_simps]:
  "outside (c\<lparr>r_lo := a\<rparr>) = outside c" "outside (c\<lparr>r_hi := a\<rparr>) = outside c" "outside (c\<lparr>sreg := a\<rparr>) = outside c"
  "outside (c\<lparr>ip := v\<rparr>) = outside c" "outside (c\<lparr>flags := v\<rparr>) = outside c" "outside (c\<lparr>flags_hi := v\<rparr>) = outside c"
  "outside (c\<lparr>int_no := b\<rparr>) = outside c" "outside (c\<lparr>fault_opcode := b\<rparr>) = outside c" "outside (c\<lparr>insns := w\<rparr>) = outside c"
  "outside (c\<lparr>irq_pending := v\<rparr>) = outside c" "outside (c\<lparr>irq_shadow := b\<rparr>) = outside c"
  by (auto simp: outside_def)

lemma outside_if [outside_simps]: "outside (if b then x else y) = (if b then outside x else outside y)"
  "snd (if b then p else q) = (if b then snd p else snd q)"
  "map_option f (if b then p1 else q1) = (if b then map_option f p1 else map_option f q1)"
  by simp_all

lemma outside_prims [outside_simps]:
  "outside (set_r i v c) = outside c" "outside (set_sreg i v c) = outside c" "outside (add_ip v c) = outside c"
  "outside (mem_w8 c a b) = outside c" "outside (mem_w16 c a v) = outside c"
  "outside (set_flag f on c) = outside c"
  "outside (cpu_put_reg32 c i w) = outside c"
  "outside (cpu_set_flags c w n) = outside c"
  using in_memory [of a] in_memory [of "(a AND (MEM_SIZE - 1)) + 1"]
  by (auto simp: outside_def set_r_def set_sreg_def add_ip_def mem_w8_def mem_w16_def set_flag_def cpu_put_reg32_def
     cpu_set_flags_def Let_def fun_eq_iff)

lemma outside_ops [outside_simps]:
  "outside (wr8 c s o1 b) = outside c" "outside (wr16 c s o1 v) = outside c" "outside (push16 c v) = outside c"
  "outside (snd (pop16 c)) = outside c" "outside (set_cf on c) = outside c" "outside (set_of on c) = outside c"
  "outside (set_af on c) = outside c" "outside (snd (fetch8 c)) = outside c"
  "outside (put8 c i b) = outside c" "outside (write32 c s o1 w) = outside c"
  by (simp_all add: wr8_def wr16_def push16_def pop16_def set_cf_def set_of_def set_af_def fetch8_def put8_def write32_def Let_def outside_simps)

lemma outside_operands [outside_simps]:
  "outside (put16 c rm v) = outside c" "outside (put8_rm c rm b) = outside c" "outside (put32 c rm w) = outside c"
  by (simp_all add: put16_def put8_rm_def put32_def outside_simps split: operand.split)

lemma outside_decode [outside_simps]:
  "outside (snd (snd (decode_rm c))) = outside c" "outside (snd (snd (decode_ov ov c))) = outside c"
  by (simp_all add: decode_ov_def decode_rm_def Let_def split_def outside_simps)

lemma outside_alu [outside_simps]:
  "outside (snd (alu16 c op a b)) = outside c" "outside (snd (alu8 c op x y)) = outside c" "outside (snd (alu32 c op u v)) = outside c"
  by (simp_all add: alu16_def alu8_def alu32_def Let_def split_def outside_simps)

lemma outside_iter: "(\<And>x. outside (snd (f x)) = outside (snd x)) \<Longrightarrow> outside (snd ((f ^^ n) x)) = outside (snd x)"
  for f :: "'b \<times> 'a cpu_scheme \<Rightarrow> 'b \<times> 'a cpu_scheme"
  by (induction n) simp_all

lemma outside_shift_step [outside_simps]: "outside (snd (shift_step op bits x)) = outside (snd x)"
  by (simp add: shift_step_def Let_def split_def outside_simps)

lemma outside_shift [outside_simps]: "outside (snd (shift c op v n bits)) = outside c"
  by (simp add: shift_def Let_def split_def outside_simps outside_iter)

lemma outside_double_loop [outside_simps]: "outside (snd (double_shift_loop bits r n v src c)) = outside c"
  by (induction bits r n v src c rule: double_shift_loop.induct) (simp_all add: Let_def outside_simps)

lemma outside_double [outside_simps]: "outside (snd (double_shift c v src n bits r)) = outside c"
  by (simp add: double_shift_def Let_def split_def outside_simps)

lemma outside_interrupt [outside_simps]: "outside (cpu_enter_interrupt c v) = outside c"
   "outside (snd (divide_error c start)) = outside c"
  by (simp_all add: cpu_enter_interrupt_def divide_error_def Let_def outside_simps)

lemma outside_string [outside_simps]: "outside (string_unit op src c) = outside c"
  by (simp add: string_unit_def Let_def outside_simps)

lemma outside_rep [outside_simps]: "outside (string_rep op rep src c) = outside c"
proof (induction op rep src c rule: string_rep.induct)
  case (1 op rep src c)
  then show ?case by (subst string_rep.simps) (simp add: Let_def outside_simps)
qed

lemma outside_do_string [outside_simps]: "outside (do_string c op rep src) = outside c"
  by (simp add: do_string_def outside_simps)

lemma outside_two_byte [outside_simps]:
  "outside (snd (op_rdtsc c)) = outside c" "outside (snd (op_cpuid c)) = outside c"
  "outside (snd (op_cmov op ov c)) = outside c" "outside (snd (op_jcc16 op c)) = outside c"
  "outside (snd (op_setcc op ov c)) = outside c" "outside (snd (op_double16 op ov c)) = outside c"
  "outside (imul_into i a b c) = outside c" "outside (snd (op_imul2 ov c)) = outside c"
  "outside (snd (op_cmpxchg op ov c)) = outside c" "outside (snd (op_movzx16 op ov c)) = outside c"
  "outside (snd (op_bitscan op ov c)) = outside c" "outside (snd (op_movsx16 op ov c)) = outside c"
  "outside (snd (op_xadd op ov c)) = outside c" "outside (snd (op_bswap16 op c)) = outside c"
  by (simp_all add: op_rdtsc_def op_cpuid_def op_cmov_def op_jcc16_def op_setcc_def op_double16_def imul_into_def
      op_imul2_def op_cmpxchg_def op_movzx16_def op_bitscan_def op_movsx16_def op_xadd_def op_bswap16_def
      Let_def split_def outside_simps)

lemma outside_bits16 [outside_simps]: "outside (snd (op_bits16 op ov c)) = outside c"
  by (simp add: op_bits16_def Let_def split_def outside_simps split: option.split)

lemma outside_0f [outside_simps]: "outside (snd (op_0f ov c)) = outside c"
  by (simp add: op_0f_def Let_def split_def outside_simps)

lemma outside_string32: "outside (snd (string32_rep op ov c)) = outside c"
  and outside_string32_unit: "string32_unit op ov c = Some c1 \<Longrightarrow> outside c1 = outside c"
proof -
  show unit: "string32_unit op ov c = Some c1 \<Longrightarrow> outside c1 = outside c" for op ov and c c1 :: "'a cpu_scheme"
    by (auto simp: string32_unit_def Let_def outside_simps split: if_splits)
  show "outside (snd (string32_rep op ov c)) = outside c"
  proof (induction op ov c rule: string32_rep.induct)
    case (1 op ov c)
    then show ?case by (subst string32_rep.simps) (auto simp: outside_simps unit split: option.split)
  qed
qed

lemma outside_string32_op [outside_simps]: "outside (snd (string32 c op rep ov)) = outside c"
  by (auto simp: string32_def outside_simps outside_string32 outside_string32_unit split: option.split)

lemma outside_divide32 [outside_simps]: "outside (snd (divide32 c d s start)) = outside c"
  by (simp add: divide32_def Let_def split_def outside_simps)

lemma outside_exec32 [outside_simps]:
  "outside (snd (op32_imul rm reg f c)) = outside c" "outside (op32_alu op rm reg modrm b c) = outside c"
  "outside (op32_push op rm b c) = outside c" "outside (op32_pop op rm c) = outside c"
  "outside (op32_xchg op c) = outside c" "outside (snd (op32_group3 rm reg b start c)) = outside c"
  "outside (snd (op32_ext ext ov rm reg b c)) = outside c"
  by (simp_all add: op32_imul_def op32_alu_def op32_push_def op32_pop_def op32_xchg_def op32_group3_def op32_ext_def
      Let_def split_def outside_simps)

lemma outside_op32_exec [outside_simps]: "outside (snd (op32_exec op ov start rm reg modrm ext b c)) = outside c"
  by (simp add: op32_exec_def Let_def split_def outside_simps)

section \<open>Decoding\<close>

definition arch :: "'a cpu_scheme \<Rightarrow> 'a cpu_scheme" where
  "arch c = c\<lparr>ip := 0, fault_opcode := 0, insns := 0, irq_shadow := 0\<rparr>"

named_theorems arch_simps

lemma arch_outside: "arch c1 = arch c \<Longrightarrow> outside c1 = outside c"
  by (metis arch_def outside_fields(4,8,9,11))

lemma arch_prims [arch_simps]:
  "arch (c\<lparr>ip := v\<rparr>) = arch c" "arch (c\<lparr>fault_opcode := b\<rparr>) = arch c" "arch (c\<lparr>insns := n\<rparr>) = arch c"
  "arch (c\<lparr>irq_shadow := b\<rparr>) = arch c" "arch (add_ip v c) = arch c"
  "arch (snd (fetch8 c)) = arch c" "arch (if p then c else c1) = (if p then arch c else arch c1)"
  "snd (if p then x else y) = (if p then snd x else snd y)" "fst (if p then x else y) = (if p then fst x else fst y)"
  by (simp_all add: arch_def add_ip_def fetch8_def)

lemma arch_decode [arch_simps]: "arch (snd (snd (decode_rm c))) = arch c" "arch (snd (snd (decode_ov ov c))) = arch c"
  by (simp_all add: decode_ov_def decode_rm_def Let_def split_def arch_simps)

definition operand_state :: "'c + 'x \<times> 'y \<times> 'z \<times> 'c \<Rightarrow> 'c" where
  "operand_state r = (case r of Inl c \<Rightarrow> c | Inr (x, y, z, c) \<Rightarrow> c)"

lemma operand_state_simps: "operand_state (Inl c) = c" "operand_state (Inr (x, y, z, c)) = c"
  "operand_state (if p then q else r) = (if p then operand_state q else operand_state r)"
  by (simp_all add: operand_state_def)

lemma arch_form_state: "arch (operand_state (op32_form op c)) = arch c"
  by (simp add: op32_form_def Let_def split_def operand_state_simps arch_simps split del: if_split cong del: if_weak_cong)

lemma arch_form: "op32_form op c = Inl c1 \<Longrightarrow> arch c1 = arch c" "op32_form op c = Inr (m, n, e, c2) \<Longrightarrow> arch c2 = arch c"
  using arch_form_state [of op c] by (simp_all add: operand_state_simps)

lemma arch_operand_state: "arch (operand_state (op32_operand op ov e n c)) = arch c"
  by (simp add: op32_operand_def Let_def split_def operand_state_simps arch_simps
      split: option.split operand.split split del: if_split cong del: if_weak_cong)

lemma arch_operand: "op32_operand op ov e n c = Inl c1 \<Longrightarrow> arch c1 = arch c"
  "op32_operand op ov e n c = Inr (rm, reg, imm, c2) \<Longrightarrow> arch c2 = arch c"
  using arch_operand_state [of op ov e n c] by (simp_all add: operand_state_simps)

lemma arch_op32_decode: "op32_decode op ov start c = Inl c1 \<Longrightarrow> arch c1 = arch c"
  "op32_decode op ov start c = Inr (rm, reg, modrm, e, b, c2) \<Longrightarrow> arch c2 = arch c"
  by (auto simp: op32_decode_def Let_def arch_simps arch_form(1) dest!: arch_form(2) arch_operand split: if_splits sum.splits)

definition prefix_state :: "'x \<times> 'y \<times> 'c + 'x \<times> 'z \<times> 'y \<times> 'w \<times> 'c \<Rightarrow> 'c" where
  "prefix_state r = (case r of Inl (x, y, c) \<Rightarrow> c | Inr (x, z, y, w, c) \<Rightarrow> c)"

lemma prefix_state_simps: "prefix_state (Inl (x, y, c)) = c" "prefix_state (Inr (x, z, y, w, c)) = c"
  "prefix_state (if p then q else r) = (if p then prefix_state q else prefix_state r)"
  by (simp_all add: prefix_state_def)

lemma arch_prefix_state: "arch (prefix_state (read_prefixes n ov w rep c)) = arch c"
  by (induction n arbitrary: ov w rep c)
    (simp_all add: Let_def split_def prefix_state_simps arch_simps split del: if_split cong del: if_weak_cong)

lemma arch_prefixes: "read_prefixes n ov w rep c = Inl (op, w1, c1) \<Longrightarrow> arch c1 = arch c"
  "read_prefixes n ov w rep c = Inr (op, ov1, w1, rep1, c1) \<Longrightarrow> arch c1 = arch c"
  using arch_prefix_state [of n ov w rep c] by (simp_all add: prefix_state_simps)

section \<open>The instructions\<close>

lemma outside_op32 [outside_simps]: "outside (snd (op32 op ov start c)) = outside c"
  by (auto simp: op32_def outside_simps dest!: arch_op32_decode arch_outside split: sum.split)

lemma outside_stacks [outside_simps]:
  "outside (snd (op_push_sreg i c)) = outside c" "outside (snd (op_pop_sreg i c)) = outside c"
  "outside (snd (op_pusha c)) = outside c" "outside (snd (op_popa c)) = outside c"
  "outside (enter_display n c) = outside c"
  "outside (snd (op_enter c)) = outside c" "outside (snd (op_leave c)) = outside c"
proof -
  show e: "outside (enter_display n c) = outside c" for n and c :: "'a cpu_scheme"
    by (induction n c rule: enter_display.induct) (simp_all add: Let_def outside_simps)
  show "outside (snd (op_push_sreg i c)) = outside c" "outside (snd (op_pop_sreg i c)) = outside c"
    "outside (snd (op_enter c)) = outside c" "outside (snd (op_leave c)) = outside c"
    by (simp_all add: op_push_sreg_def op_pop_sreg_def op_enter_def op_leave_def Let_def split_def outside_simps e)
  have fold: "outside (fold f xs c) = outside c" if "\<And>x c. outside (f x c) = outside c" for f :: "nat \<Rightarrow> _" and xs and c :: "'a cpu_scheme"
    by (induction xs arbitrary: c) (simp_all add: that)
  show "outside (snd (op_pusha c)) = outside c" "outside (snd (op_popa c)) = outside c"
    by (simp_all add: op_pusha_def op_popa_def Let_def split_def outside_simps fold)
qed

lemma outside_one_byte [outside_simps]:
  "outside (snd (op_alu_rm op ov c)) = outside c" "outside (snd (op_alu_acc op c)) = outside c"
  "outside (snd (op_reg op c)) = outside c" "outside (snd (op_push_imm op c)) = outside c"
  "outside (snd (op_imul3 op ov c)) = outside c" "outside (snd (op_jcc8 op c)) = outside c"
  "outside (snd (op_alu_imm op ov c)) = outside c" "outside (snd (op_test op ov c)) = outside c"
  "outside (snd (op_xchg op ov c)) = outside c" "outside (snd (op_mov_store op ov c)) = outside c"
  "outside (snd (op_mov_load op ov c)) = outside c" "outside (snd (op_mov_from_sreg ov c)) = outside c"
  "outside (snd (op_mov_to_sreg ov c)) = outside c" "outside (snd (op_pop_rm ov c)) = outside c"
  "outside (snd (op_xchg_ax op c)) = outside c" "outside (snd (op_call_far c)) = outside c"
  "outside (snd (op_cbw c)) = outside c" "outside (snd (op_cwd c)) = outside c" "outside (snd (op_pushf c)) = outside c"
  "outside (snd (op_popf c)) = outside c" "outside (snd (op_sahf c)) = outside c" "outside (snd (op_lahf c)) = outside c"
  "outside (snd (op_daa c)) = outside c" "outside (snd (op_das c)) = outside c" "outside (snd (op_moffs op ov c)) = outside c"
  "outside (snd (op_test_acc op c)) = outside c" "outside (snd (op_mov_imm op c)) = outside c" "outside (snd (op_ret op c)) = outside c"
  "outside (snd (op_mov_rm_imm op ov c)) = outside c" "outside (snd (op_aam c)) = outside c" "outside (snd (op_aad c)) = outside c"
  "outside (snd (op_xlat ov c)) = outside c" "outside (snd (op_into c)) = outside c" "outside (snd (op_int c)) = outside c"
  "outside (snd (op_iret c)) = outside c" "outside (snd (op_shift op ov start c)) = outside c" "outside (snd (op_loop op c)) = outside c"
  "outside (snd (op_jcxz c)) = outside c" "outside (snd (op_call_near c)) = outside c" "outside (snd (op_jmp op c)) = outside c"
  "outside (op_neg w rm c) = outside c" "outside (op_mul w rm c) = outside c" "outside (op_imul1 w rm c) = outside c"
  "outside (snd (op_div w rm start c)) = outside c" "outside (snd (op_idiv w rm start c)) = outside c"
  "outside (snd (op_inc_dec8 ov c)) = outside c" "outside (op_inc_dec16 rm reg c) = outside c"
  by (simp_all add: op_alu_rm_def op_alu_acc_def op_reg_def op_push_imm_def op_imul3_def op_jcc8_def op_alu_imm_def
     op_test_def op_xchg_def op_mov_store_def op_mov_load_def op_mov_from_sreg_def op_mov_to_sreg_def op_pop_rm_def
     op_xchg_ax_def op_call_far_def op_cbw_def op_cwd_def op_pushf_def op_popf_def op_sahf_def op_lahf_def op_daa_def
     op_das_def op_moffs_def op_test_acc_def op_mov_imm_def op_ret_def op_mov_rm_imm_def op_aam_def op_aad_def
     op_xlat_def op_into_def op_int_def op_iret_def op_shift_def op_loop_def op_jcxz_def op_call_near_def op_jmp_def
     op_neg_def op_mul_def op_imul1_def op_div_def op_idiv_def op_inc_dec8_def op_inc_dec16_def
     Let_def split_def outside_simps split del: if_split cong del: if_weak_cong)

lemma outside_group3 [outside_simps]: "outside (snd (op_group3 op ov start c)) = outside c"
  by (simp add: op_group3_def Let_def split_def outside_simps split del: if_split cong del: if_weak_cong)

lemma outside_decoded:
  "snd (decode_rm c) = (i, c1) \<Longrightarrow> outside c1 = outside c" "snd (decode_ov ov c) = (i, c1) \<Longrightarrow> outside c1 = outside c"
  by (metis outside_decode snd_conv)+

lemma outside_options:
  "op_lea c = Some (r, c1) \<Longrightarrow> outside c1 = outside c"
  "op_load_far op ov c = Some (r, c1) \<Longrightarrow> outside c1 = outside c"
  "op_group5 ov c = Some (r, c1) \<Longrightarrow> outside c1 = outside c"
  by (auto simp: op_lea_def op_load_far_def op_group5_def Let_def split_def outside_simps outside_decoded
     split: prod.splits operand.splits if_splits)

section \<open>The step\<close>

text \<open>The callbacks of the devices keep \<open>p\<close>.\<close>

definition devices_keep :: "('a cpu_scheme \<Rightarrow> 'b) \<Rightarrow> 'a devices \<Rightarrow> bool" where
  "devices_keep p d \<longleftrightarrow>
     (\<forall>f. port_in8 d = Some f \<longrightarrow> (\<forall>c port. p (snd (snd (f c port))) = p c)) \<and>
     (\<forall>f. port_out8 d = Some f \<longrightarrow> (\<forall>c port v. p (snd (f c port v)) = p c)) \<and>
     (\<forall>f. irq_ack d = Some f \<longrightarrow> (\<forall>c. p (snd (f c)) = p c))"

lemma outside_ports:
  "devices_keep outside d \<Longrightarrow> outside (snd (op_in d op c)) = outside c"
  "devices_keep outside d \<Longrightarrow> outside (snd (op_out d op c)) = outside c"
  by (auto simp: op_in_def op_out_def devices_keep_def Let_def split_def outside_simps split: option.split)

definition kept :: "'a cpu_scheme \<Rightarrow> 'a stop option \<Rightarrow> bool" where
  "kept c r \<longleftrightarrow> (case r of Some (stop, c1) \<Rightarrow> outside c1 = outside c | None \<Rightarrow> True)"

lemma kept_simps: "kept c (Some x) \<longleftrightarrow> outside (snd x) = outside c" "kept c (if p then r1 else r2) = (if p then kept c r1 else kept c r2)"
  by (simp_all add: kept_def split_def)

lemma kept_options: "kept c (op_lea c)" "kept c (op_load_far op ov c)" "kept c (op_group5 ov c)"
  by (auto simp: kept_def outside_options split: option.split)

lemma outside_switch:
  assumes "devices_keep outside d" "op_switch d op ov start c = Some (r, c1)"
  shows "outside c1 = outside c"
proof -
  have "kept c (op_switch d op ov start c)"
    by (simp add: op_switch_def kept_simps kept_options outside_ports [OF assms(1)] outside_simps
      split del: if_split cong del: if_weak_cong)
  then show ?thesis using assms(2) by (simp add: kept_simps)
qed

lemma outside_run_op:
  assumes "devices_keep outside d" "run_op d op ov w rep start c = Some (r, c1)"
  shows "outside c1 = outside c"
proof -
  have "kept c (op_switch d op ov start (c\<lparr>insns := n, fault_opcode := b\<rparr>))" for n b
    using outside_switch [OF assms(1)] by (fastforce simp: kept_def outside_simps split: option.split)
  then have "kept c (run_op d op ov w rep start c)"
    by (simp add: run_op_def Let_def kept_simps outside_simps split_def split del: if_split cong del: if_weak_cong)
  then show ?thesis using assms(2) by (simp add: kept_simps)
qed

lemma outside_take_irq: "devices_keep outside d \<Longrightarrow> outside (snd (take_irq d c)) = outside c"
  by (auto simp: take_irq_def take_vector_def devices_keep_def Let_def split_def outside_simps split: option.split)

text \<open>
  C4: Whatever the guest executes, one step of the processor changes no byte outside the guest's
  megabyte: every store of every instruction, the pushes of an interrupt and the repeated string
  operations included, wraps its address first. The callbacks of the devices are assumed not to
  touch that memory.
\<close>

theorem cpu_step_contained:
  assumes "devices_keep outside d" "cpu_step d c = Some (r, c1)"
  shows "outside c1 = outside c"
proof -
  obtain taken c0 where t: "take_irq d c = (taken, c0)" by force
  have c0: "outside c0 = outside c" using outside_take_irq [OF assms(1), of c] by (simp add: t)
  show ?thesis using assms(2) c0
    by (auto simp: cpu_step_def t outside_simps dest!: arch_prefixes [THEN arch_outside] outside_run_op [OF assms(1)] split: if_splits sum.splits)
qed

definition no_devices :: "unit devices" where
  "no_devices = \<lparr>port_in8 = None, port_out8 = None, irq_ack = None\<rparr>"

text \<open>\<open>MOV [FFFF], AL\<close> with \<open>DS\<close> the last segment: the address passes the end of memory and wraps.\<close>

definition cpu_wrapping :: cpu where
  "cpu_wrapping = cpu_blank\<lparr>mem := (\<lambda>a. if a = 0 then 0xA2 else 0xFF), sreg := (\<lambda>_. 0)(3 := 0xFFFF)\<rparr>"

lemma cpu_wrapping_step: "cpu_step no_devices cpu_wrapping \<noteq> None"
proof -
  have f: "fetch8 cpu_wrapping = (0xA2, add_ip 1 cpu_wrapping)"
    by (simp add: fetch8_def rd8_def mem_r8_def lin_def cpu_wrapping_def cpu_blank_def)
  have i: "take_irq no_devices cpu_wrapping = (False, cpu_wrapping)"
    by (simp add: take_irq_def cpu_wrapping_def cpu_blank_def has_def FLAG_IF_def)
  have "read_prefixes 15 None False 0 cpu_wrapping = Inr (0xA2, None, False, 0, add_ip 1 cpu_wrapping)"
    by (simp add: eval_nat_numeral f)
  then show ?thesis by (simp add: cpu_step_def i run_op_def op_switch_def)
qed

theorem cpu_step_contained_witness:
  "devices_keep outside no_devices \<and> cpu_step no_devices cpu_wrapping \<noteq> None
   \<and> outside (snd (the (cpu_step no_devices cpu_wrapping))) = outside cpu_wrapping"
proof -
  have d: "devices_keep outside no_devices" by (simp add: devices_keep_def no_devices_def)
  note s = cpu_wrapping_step
  then obtain r c1 where "cpu_step no_devices cpu_wrapping = Some (r, c1)" by (metis not_None_eq surj_pair)
  then show ?thesis using cpu_step_contained [OF d] d s by simp
qed

end
