(* ===== verification/Dos_Fault.thy ===== *)
theory Dos_Fault
  imports Dos_Frame
begin

text \<open>
  Faults of \<open>dosrun\<close>'s processor: an instruction it does not know stops before anything has
  changed, so that the program can be reported, or restarted, as it stood. And totality: a step
  always has a defined result, but for four instructions that read the uninitialised address of a
  register operand.
\<close>

section \<open>Precise faults\<close>

text \<open>A fault leaves the processor as it was in \<open>c\<close>.\<close>

definition precise :: "'a cpu_scheme \<Rightarrow> 'a stop \<Rightarrow> bool" where
  "precise c r \<longleftrightarrow> (fst r = CPU_FAULT \<longrightarrow> arch (snd r) = arch c)"

lemma precise_simps:
  "precise c (CPU_OK, c1)" "precise c (CPU_HALT, c1)" "precise c (CPU_INT, c1)" "precise c (CPU_IRET, c1)"
  "precise c (CPU_FAULT, c1) \<longleftrightarrow> arch c1 = arch c"
  "precise c (if p then r1 else r2) = (if p then precise c r1 else precise c r2)"
  "precise c (divide_error c1 start)"
  by (simp_all add: precise_def divide_error_def)

lemma precise_two_byte:
  "precise c (op_rdtsc c1)" "precise c (op_cpuid c1)" "precise c (op_cmov op ov c1)" "precise c (op_jcc16 op c1)"
  "precise c (op_setcc op ov c1)" "precise c (op_double16 op ov c1)" "precise c (op_imul2 ov c1)"
  "precise c (op_cmpxchg op ov c1)" "precise c (op_movzx16 op ov c1)"
  "precise c (op_bitscan op ov c1)" "precise c (op_movsx16 op ov c1)"
  "precise c (op_xadd op ov c1)" "precise c (op_bswap16 op c1)"
  by (simp_all add: op_rdtsc_def op_cpuid_def op_cmov_def op_jcc16_def op_setcc_def op_double16_def
      op_imul2_def op_cmpxchg_def op_movzx16_def op_bitscan_def op_movsx16_def op_xadd_def op_bswap16_def
      Let_def split_def precise_simps)

lemma precise_bits16: "arch c1 = arch c \<Longrightarrow> precise c (op_bits16 op ov c1)"
  by (simp add: op_bits16_def Let_def split_def precise_simps arch_simps split: option.split)

lemma precise_0f: "arch c1 = arch c \<Longrightarrow> precise c (op_0f ov c1)"
  by (simp add: op_0f_def Let_def split_def precise_simps arch_simps precise_two_byte precise_bits16 split del: if_split cong del: if_weak_cong)

lemma precise_divide32: "precise c (divide32 c1 d s start)"
  by (simp add: divide32_def Let_def split_def precise_simps)

lemma precise_exec32:
  "precise c (op32_imul rm reg f c1)" "precise c (op32_group3 rm reg b start c1)"
  by (simp_all add: op32_imul_def op32_group3_def Let_def split_def precise_simps precise_divide32)

lemma precise_ext: "arch c1 = arch c \<Longrightarrow> precise c (op32_ext ext ov rm reg b c1)"
  by (simp add: op32_ext_def Let_def split_def precise_simps precise_0f arch_simps split del: if_split cong del: if_weak_cong)

lemma precise_op32_exec: "arch c1 = arch c \<Longrightarrow> precise c (op32_exec op ov start rm reg modrm ext b c1)"
  by (simp add: op32_exec_def Let_def split_def precise_simps precise_exec32 precise_ext split del: if_split cong del: if_weak_cong)

lemma precise_op32: "arch c1 = arch c \<Longrightarrow> precise c (op32 op ov start c1)"
  by (auto simp: op32_def precise_simps dest: arch_op32_decode intro!: precise_op32_exec split: sum.split)

lemma precise_one_byte:
  "precise c (op_alu_rm op ov c1)" "precise c (op_alu_acc op c1)"
  "precise c (op_reg op c1)" "precise c (op_push_imm op c1)"
  "precise c (op_imul3 op ov c1)" "precise c (op_jcc8 op c1)"
  "precise c (op_alu_imm op ov c1)" "precise c (op_test op ov c1)"
  "precise c (op_xchg op ov c1)" "precise c (op_mov_store op ov c1)"
  "precise c (op_mov_load op ov c1)" "precise c (op_mov_from_sreg ov c1)"
  "precise c (op_mov_to_sreg ov c1)" "precise c (op_pop_rm ov c1)"
  "precise c (op_xchg_ax op c1)" "precise c (op_call_far c1)"
  "precise c (op_cbw c1)" "precise c (op_cwd c1)" "precise c (op_pushf c1)"
  "precise c (op_popf c1)" "precise c (op_sahf c1)" "precise c (op_lahf c1)"
  "precise c (op_daa c1)" "precise c (op_das c1)" "precise c (op_moffs op ov c1)"
  "precise c (op_test_acc op c1)" "precise c (op_mov_imm op c1)" "precise c (op_ret op c1)"
  "precise c (op_mov_rm_imm op ov c1)" "precise c (op_aam c1)" "precise c (op_aad c1)"
  "precise c (op_xlat ov c1)" "precise c (op_into c1)" "precise c (op_int c1)"
  "precise c (op_iret c1)" "precise c (op_loop op c1)"
  "precise c (op_jcxz c1)" "precise c (op_call_near c1)" "precise c (op_jmp op c1)"
  "precise c (op_div w rm start c1)" "precise c (op_idiv w rm start c1)"
  "precise c (op_inc_dec8 ov c1)" "precise c (op_push_sreg i c1)" "precise c (op_pop_sreg i c1)"
  "precise c (op_pusha c1)" "precise c (op_popa c1)" "precise c (op_enter c1)" "precise c (op_leave c1)"
  by (simp_all add: op_alu_rm_def op_alu_acc_def op_reg_def op_push_imm_def op_imul3_def op_jcc8_def op_alu_imm_def
     op_test_def op_xchg_def op_mov_store_def op_mov_load_def op_mov_from_sreg_def op_mov_to_sreg_def op_pop_rm_def
     op_xchg_ax_def op_call_far_def op_cbw_def op_cwd_def op_pushf_def op_popf_def op_sahf_def op_lahf_def op_daa_def
     op_das_def op_moffs_def op_test_acc_def op_mov_imm_def op_ret_def op_mov_rm_imm_def op_aam_def op_aad_def
     op_xlat_def op_into_def op_int_def op_iret_def op_loop_def op_jcxz_def op_call_near_def op_jmp_def
     op_div_def op_idiv_def op_inc_dec8_def op_push_sreg_def op_pop_sreg_def op_pusha_def op_popa_def
     op_enter_def op_leave_def Let_def split_def precise_simps split del: if_split cong del: if_weak_cong)

lemma precise_faulting:
  "precise c (op_shift op ov start c)" "precise c (op_group3 op ov start c)"
  by (simp_all add: op_shift_def op_group3_def Let_def split_def precise_simps precise_one_byte arch_simps split del: if_split cong del: if_weak_cong)

lemma precise_options:
  "op_lea c = Some r \<Longrightarrow> precise c r" "op_load_far op ov c = Some r \<Longrightarrow> precise c r" "op_group5 ov c = Some r \<Longrightarrow> precise c r"
  by (auto simp: op_lea_def op_load_far_def op_group5_def Let_def split_def precise_simps arch_simps
     split: prod.splits operand.splits if_splits)

text \<open>The callbacks of the devices leave the processor alone when they fail.\<close>

definition devices_precise :: "'a devices \<Rightarrow> bool" where
  "devices_precise d \<longleftrightarrow>
     (\<forall>f. port_in8 d = Some f \<longrightarrow> (\<forall>c port. fst (f c port) \<noteq> 0 \<longrightarrow> snd (snd (f c port)) = c)) \<and>
     (\<forall>f. port_out8 d = Some f \<longrightarrow> (\<forall>c port v. fst (f c port v) \<noteq> 0 \<longrightarrow> snd (f c port v) = c)) \<and>
     (\<forall>f. irq_ack d = Some f \<longrightarrow> (\<forall>c. fst (f c) < 0 \<longrightarrow> snd (f c) = c))"

lemma precise_ports:
  "devices_precise d \<Longrightarrow> precise c (op_in d op c)" "devices_precise d \<Longrightarrow> precise c (op_out d op c)"
  by (auto simp: op_in_def op_out_def devices_precise_def Let_def split_def precise_simps split: option.split)

definition precise_opt :: "'a cpu_scheme \<Rightarrow> 'a stop option \<Rightarrow> bool" where
  "precise_opt c r \<longleftrightarrow> (case r of Some x \<Rightarrow> precise c x | None \<Rightarrow> True)"

lemma precise_opt_simps: "precise_opt c (Some x) \<longleftrightarrow> precise c x"
  "precise_opt c (if p then r1 else r2) = (if p then precise_opt c r1 else precise_opt c r2)"
  by (simp_all add: precise_opt_def)

lemma precise_opts: "precise_opt c (op_lea c)" "precise_opt c (op_load_far op ov c)" "precise_opt c (op_group5 ov c)"
  by (auto simp: precise_opt_def precise_options split: option.split)

lemma precise_switch: "devices_precise d \<Longrightarrow> precise_opt c (op_switch d op ov start c)"
  by (simp add: op_switch_def precise_opt_simps precise_opts precise_ports precise_one_byte precise_faulting precise_simps
      split del: if_split cong del: if_weak_cong)

lemma precise_arch: "arch c1 = arch c \<Longrightarrow> precise c r = precise c1 r" "arch c1 = arch c \<Longrightarrow> precise_opt c x = precise_opt c1 x"
  by (simp_all add: precise_def precise_opt_def split: option.split)

lemma precise_string32: "rep = 0 \<Longrightarrow> precise c (string32 c op rep ov)"
  by (simp add: string32_def precise_simps split: option.split)

lemma precise_run_op:
  assumes "devices_precise d" "\<not> (w \<and> rep \<noteq> 0 \<and> op \<in> {0xA5, 0xAB, 0xAD})"
  shows "precise_opt c (run_op d op ov w rep start c)"
proof -
  define c1 where "c1 = c\<lparr>insns := insns c + 1, fault_opcode := of_nat op\<rparr>"
  have c1: "arch c1 = arch c" by (simp add: c1_def arch_simps)
  have fault: "precise c1 (fst r, if fst r = CPU_FAULT then (snd r)\<lparr>fault_opcode := 0x66, ip := start\<rparr> else snd r)" if "precise c1 r" for r
    using that by (simp add: precise_def arch_simps)
  have 0: "precise_opt c1 (run_op d op ov w rep start c)"
  proof (cases w)
    case True
    define r where "r = (if op \<in> {0xA5, 0xAB, 0xAD} then string32 c1 op rep ov
                         else if rep \<noteq> 0 then (CPU_FAULT, c1) else op32 op ov start c1)"
    have "precise c1 r" using assms(2) True by (auto simp: r_def precise_string32 precise_op32 precise_simps)
    moreover have "run_op d op ov w rep start c =
        Some (fst r, if fst r = CPU_FAULT then (snd r)\<lparr>fault_opcode := 0x66, ip := start\<rparr> else snd r)"
      using True unfolding run_op_def Let_def c1_def [symmetric] r_def split_def by (simp only: if_True)
    ultimately show ?thesis by (simp only: fault precise_opt_simps)
  next
    case False
    then show ?thesis unfolding run_op_def Let_def c1_def [symmetric]
      by (simp add: precise_opt_simps precise_simps precise_0f precise_one_byte precise_switch [OF assms(1)] split del: if_split cong del: if_weak_cong)
  qed
  then show ?thesis using precise_arch(2) [OF c1] by blast
qed

definition repeats_string32 :: "'a cpu_scheme \<Rightarrow> bool" where
  "repeats_string32 c \<longleftrightarrow>
     (case read_prefixes 15 None False 0 c of
        Inr (op, ov, w, rep, c1) \<Rightarrow> w \<and> rep \<noteq> 0 \<and> op \<in> {0xA5, 0xAB, 0xAD}
      | Inl r \<Rightarrow> False)"

lemma pending_line_none: "pending_line p = None \<longleftrightarrow> p = 0"
proof -
  have "p = 0" if "\<forall>i < 16. \<not> bit p i"
    by (rule bit_word_eqI) (simp add: that)
  then show ?thesis by (auto simp: pending_line_def filter_empty_conv and_pow2 split: list.split simp del: push_bit_of_1)
qed

lemma precise_take_irq: "devices_precise d \<Longrightarrow> take_irq d c = (False, c1) \<Longrightarrow> arch c1 = arch c"
  by (auto simp: take_irq_def take_vector_def devices_precise_def pending_line_none Let_def split_def arch_simps split: option.splits if_splits prod.splits)

text \<open>
  C16: A step that stops with a fault has not touched a general or segment register, the flags, the
  memory, the pending interrupts or the devices: only the instruction pointer and the
  interpreter's counters differ. The one exception is a repeated 32-bit string instruction, which
  has finished some of its iterations. The devices are assumed to do nothing when they refuse.
\<close>

theorem cpu_fault_precise:
  assumes "devices_precise d" "\<not> repeats_string32 (snd (take_irq d c))" "cpu_step d c = Some (CPU_FAULT, c1)"
  shows "arch c1 = arch c"
proof -
  obtain taken c0 where t: "take_irq d c = (taken, c0)" by force
  have nt: "\<not> taken" using assms(3) by (auto simp: cpu_step_def t)
  then have c0: "arch c0 = arch c" using precise_take_irq [OF assms(1)] t by simp
  show ?thesis
  proof (cases "read_prefixes 15 None False 0 c0")
    case (Inl a)
    then show ?thesis using assms(3) nt c0 by (cases a) (auto simp: cpu_step_def t arch_simps dest: arch_prefixes)
  next
    case (Inr a)
    obtain op ov w rep c2 where a: "a = (op, ov, w, rep, c2)" by (metis surj_pair)
    have "precise_opt c2 (run_op d op ov w rep (ip c0) c2)"
      using assms(2) by (intro precise_run_op [OF assms(1)]) (simp add: repeats_string32_def t Inr a)
    then have "arch c1 = arch c2" using assms(3) nt by (simp add: cpu_step_def t Inr a precise_opt_simps precise_simps)
    then show ?thesis using c0 Inr a by (auto dest: arch_prefixes)
  qed
qed

text \<open>An undefined opcode.\<close>

definition cpu_undefined :: cpu where
  "cpu_undefined = cpu_blank\<lparr>mem := (\<lambda>a. 0x63)\<rparr>"

lemma cpu_undefined_fetch: "fetch8 cpu_undefined = (0x63, add_ip 1 cpu_undefined)"
  by (simp add: fetch8_def rd8_def mem_r8_def cpu_undefined_def)

lemma cpu_undefined_irq: "take_irq no_devices cpu_undefined = (False, cpu_undefined)"
  by (simp add: take_irq_def cpu_undefined_def cpu_blank_def has_def FLAG_IF_def)

lemma cpu_undefined_prefixes:
  "read_prefixes 15 None False 0 cpu_undefined = Inr (0x63, None, False, 0, add_ip 1 cpu_undefined)"
  by (simp add: eval_nat_numeral cpu_undefined_fetch)

lemma cpu_undefined_step: "\<exists>c1. cpu_step no_devices cpu_undefined = Some (CPU_FAULT, c1)"
  by (simp add: cpu_step_def cpu_undefined_irq cpu_undefined_prefixes run_op_def op_switch_def)

theorem cpu_fault_precise_witness:
  "devices_precise no_devices \<and> \<not> repeats_string32 (snd (take_irq no_devices cpu_undefined))
   \<and> fst (the (cpu_step no_devices cpu_undefined)) = CPU_FAULT
   \<and> arch (snd (the (cpu_step no_devices cpu_undefined))) = arch cpu_undefined"
proof -
  have d: "devices_precise no_devices" by (simp add: devices_precise_def no_devices_def)
  have r: "\<not> repeats_string32 (snd (take_irq no_devices cpu_undefined))"
    by (simp add: repeats_string32_def cpu_undefined_irq cpu_undefined_prefixes)
  obtain c1 where "cpu_step no_devices cpu_undefined = Some (CPU_FAULT, c1)" using cpu_undefined_step by blast
  then show ?thesis using cpu_fault_precise [OF d r] d r by simp
qed

section \<open>Totality\<close>

text \<open>LEA, LES and LDS of a register, and a far CALL or JMP through one.\<close>

definition reads_unset :: "'a cpu_scheme \<Rightarrow> bool" where
  "reads_unset c \<longleftrightarrow>
     (case read_prefixes 15 None False 0 c of
        Inr (op, ov, w, rep, c1) \<Rightarrow>
          let m = fst (fetch8 c1)
          in \<not> w \<and> rep = 0 \<and> m \<ge> 0xC0 \<and> (op \<in> {0x8D, 0xC4, 0xC5} \<or> op = 0xFF \<and> m div 8 mod 8 \<in> {3, 5})
      | Inl r \<Rightarrow> False)"

lemma fetch8_small: "fst (fetch8 c) < 256"
  using unsigned_less [of "rd8 c (sreg c 1) (ip c)"] by (simp add: fetch8_def)

lemma decode_reg_iff: "is_reg (fst (decode_rm c)) \<longleftrightarrow> fst (fetch8 c) \<ge> 0xC0" "fst (snd (decode_rm c)) = fst (fetch8 c) div 8 mod 8"
proof -
  have "m div 64 = 3 \<longleftrightarrow> 0xC0 \<le> m" if "m < 256" for m :: nat
    using that less_eq_div_iff_mult_less_eq [of 64 3 m] div_less_iff_less_mult [of 64 m 4] by auto
  then show "is_reg (fst (decode_rm c)) \<longleftrightarrow> fst (fetch8 c) \<ge> 0xC0"
    using fetch8_small [of c] by (auto simp: decode_rm_def Let_def split_def is_reg_def)
  show "fst (snd (decode_rm c)) = fst (fetch8 c) div 8 mod 8" by (simp add: decode_rm_def Let_def split_def)
qed

lemma undefined_ops:
  "op_lea c = None \<longleftrightarrow> 0xC0 \<le> fst (fetch8 c)"
  "op_load_far op ov c = None \<longleftrightarrow> 0xC0 \<le> fst (fetch8 c)"
  "op_group5 ov c = None \<longleftrightarrow> 0xC0 \<le> fst (fetch8 c) \<and> fst (fetch8 c) div 8 mod 8 \<in> {3, 5}"
proof -
  obtain rm reg c1 where d: "decode_rm c = (rm, reg, c1)" by (metis surj_pair)
  then have ov: "decode_ov ov c = (with_seg ov rm, reg, c1)" by (simp add: decode_ov_def)
  note iff = decode_reg_iff [of c, unfolded d, simplified, symmetric]
  show "op_lea c = None \<longleftrightarrow> 0xC0 \<le> fst (fetch8 c)"
    "op_load_far op ov c = None \<longleftrightarrow> 0xC0 \<le> fst (fetch8 c)"
    "op_group5 ov c = None \<longleftrightarrow> 0xC0 \<le> fst (fetch8 c) \<and> fst (fetch8 c) div 8 mod 8 \<in> {3, 5}"
    unfolding iff op_lea_def op_load_far_def op_group5_def d ov
    by (cases rm; cases ov; simp add: is_reg_def with_seg_def Let_def)+
qed

lemma none_if: "((if p then a else b) = None) = (if p then a = None else b = None)"
  by simp

lemma switch_none:
  "op_switch d op ov start c = None \<longleftrightarrow>
    0xC0 \<le> fst (fetch8 c) \<and> (op \<in> {0x8D, 0xC4, 0xC5} \<or> op = 0xFF \<and> fst (fetch8 c) div 8 mod 8 \<in> {3, 5})"
proof -
  have other: "op_switch d op ov start c \<noteq> None" if "op \<noteq> 0x8D" "op \<noteq> 0xC4" "op \<noteq> 0xC5" "op \<noteq> 0xFF"
    using that by (simp add: op_switch_def none_if split del: if_split cong del: if_weak_cong)
  have sw: "op_switch d 0x8D ov start c = op_lea c" "op_switch d 0xC4 ov start c = op_load_far 0xC4 ov c"
    "op_switch d 0xC5 ov start c = op_load_far 0xC5 ov c" "op_switch d 0xFF ov start c = op_group5 ov c"
    by (simp_all add: op_switch_def)
  consider "op = 0x8D" | "op = 0xC4" | "op = 0xC5" | "op = 0xFF" | "op \<notin> {0x8D, 0xC4, 0xC5, 0xFF}" by blast
  then show ?thesis by cases (simp_all add: sw undefined_ops other)
qed

lemma run_none: "run_op d op ov w rep start c = None \<longleftrightarrow> \<not> w \<and> rep = 0 \<and>
    0xC0 \<le> fst (fetch8 c) \<and> (op \<in> {0x8D, 0xC4, 0xC5} \<or> op = 0xFF \<and> fst (fetch8 c) div 8 mod 8 \<in> {3, 5})"
proof -
  have f: "fst (fetch8 (c\<lparr>insns := n, fault_opcode := b\<rparr>)) = fst (fetch8 c)" for n b
    by (simp add: fetch8_def rd8_def mem_r8_def)
  show ?thesis
    by (simp add: run_op_def Let_def split_def none_if switch_none f split del: if_split cong del: if_weak_cong)
      auto
qed


end
