(* ===== verification/Dos_Stack.thy ===== *)
theory Dos_Stack
  imports Dos_Exec Dos_Alu
begin

text \<open>
  The stack of \<open>dosrun\<close>'s processor. A word is stored at \<open>SS:SP\<close> in two bytes of the megabyte,
  whose addresses wrap, while \<open>SP\<close> wraps at 64 KiB; the words of one stack nevertheless never
  overlap. From this the instructions that save and restore the machine are shown to be inverse to
  each other at every stack pointer.
\<close>

section \<open>Words in memory\<close>

definition addr20 :: "u16 \<Rightarrow> u16 \<Rightarrow> int \<Rightarrow> int" where
  "addr20 s off k = (16 * uint s + uint off + k) mod 2 ^ 20"

lemma uint_mask20: "uint (x AND (MEM_SIZE - 1)) = uint x mod 2 ^ 20" for x :: u32
proof -
  have "x AND (MEM_SIZE - 1) = take_bit 20 x" by (simp add: MEM_SIZE_def take_bit_eq_mask mask_eq_exp_minus_1)
  then show ?thesis by (simp only: unsigned_take_bit_eq) (simp add: take_bit_eq_mod)
qed

lemma uint_lin: "uint (lin s off) = 16 * uint s + uint off"
proof -
  have "uint s < 2 ^ 16" "uint off < 2 ^ 16" using uint_bounded [of s] uint_bounded [of off] by simp_all
  then show ?thesis
    by (simp add: lin_def push_bit_eq_mult uint_word_ariths unsigned_ucast_eq take_bit_eq_mod)
qed

lemma lin_addr: "uint (lin s off AND (MEM_SIZE - 1)) = addr20 s off 0"
  "uint (((lin s off AND (MEM_SIZE - 1)) + 1) AND (MEM_SIZE - 1)) = addr20 s off 1"
proof -
  show a: "uint (lin s off AND (MEM_SIZE - 1)) = addr20 s off 0" by (simp only: uint_mask20 uint_lin addr20_def) simp
  then have "uint (lin s off AND (MEM_SIZE - 1)) < 2 ^ 20" by (simp add: addr20_def)
  then have "uint ((lin s off AND (MEM_SIZE - 1)) + 1) = uint (lin s off AND (MEM_SIZE - 1)) + 1"
    by (simp add: uint_word_ariths)
  then show "uint (((lin s off AND (MEM_SIZE - 1)) + 1) AND (MEM_SIZE - 1)) = addr20 s off 1"
    unfolding uint_mask20 [of "(lin s off AND (MEM_SIZE - 1)) + 1"] a by (simp add: addr20_def mod_simps)
qed

lemma mod_inj: "x mod m = y mod m \<Longrightarrow> \<bar>x - y\<bar> < m \<Longrightarrow> x = y" for x y m :: int
proof -
  assume "x mod m = y mod m" "\<bar>x - y\<bar> < m"
  then have "m dvd x - y" by (simp add: mod_eq_dvd_iff)
  then show "x = y" using \<open>\<bar>x - y\<bar> < m\<close> zdvd_not_zless [of "\<bar>x - y\<bar>" m] by auto
qed

lemma addr20_neq:
  assumes "j \<in> {0, 1}" "k \<in> {0, 1}" "uint a + j \<noteq> uint b + k"
  shows "addr20 s a j \<noteq> addr20 s b k"
proof
  assume "addr20 s a j = addr20 s b k"
  then have m: "(16 * uint s + uint a + j) mod 1048576 = (16 * uint s + uint b + k) mod 1048576" by (simp add: addr20_def)
  have "uint a < 65536" "uint b < 65536" "0 \<le> uint a" "0 \<le> uint b" using uint_bounded [of a] uint_bounded [of b] by simp_all
  moreover have "0 \<le> j" "j \<le> 1" "0 \<le> k" "k \<le> 1" using assms(1,2) by auto
  ultimately have "\<bar>(16 * uint s + uint a + j) - (16 * uint s + uint b + k)\<bar> < 1048576"
    unfolding abs_less_iff by (intro conjI; linarith)
  from mod_inj [OF m this] show False using assms(3) by simp
qed

lemma ucast_parts: "(ucast (ucast v :: u8) :: u16) OR push_bit 8 (ucast (ucast (drop_bit 8 v) :: u8)) = v" for v :: u16
  by (rule bit_word_eqI) (auto simp: bit_simps)

lemma rd16_wr16_same [simp]: "rd16 (wr16 c s off v) s off = v"
proof -
  have "lin s off AND (MEM_SIZE - 1) \<noteq> ((lin s off AND (MEM_SIZE - 1)) + 1) AND (MEM_SIZE - 1)"
    using addr20_neq [of 0 1 off off s] lin_addr [of s off] by (metis add.right_neutral add_left_cancel insertCI zero_neq_one)
  then show ?thesis
    by (simp add: rd16_def wr16_def mem_r16_def mem_w16_def Let_def ucast_parts)
qed

lemma rd16_wr16_other:
  assumes "a \<noteq> b" "uint a \<noteq> uint b + 1" "uint b \<noteq> uint a + 1"
  shows "rd16 (wr16 c s a v) s b = rd16 c s b"
proof -
  have "uint a \<noteq> uint b" using assms(1) by (simp add: word_uint_eq_iff)
  then have "addr20 s a j \<noteq> addr20 s b k" if "j \<in> {0, 1}" "k \<in> {0, 1}" for j k
    using assms(2,3) that by (intro addr20_neq) auto
  then have "lin s a AND (MEM_SIZE - 1) \<noteq> lin s b AND (MEM_SIZE - 1)"
    "lin s a AND (MEM_SIZE - 1) \<noteq> ((lin s b AND (MEM_SIZE - 1)) + 1) AND (MEM_SIZE - 1)"
    "((lin s a AND (MEM_SIZE - 1)) + 1) AND (MEM_SIZE - 1) \<noteq> lin s b AND (MEM_SIZE - 1)"
    "((lin s a AND (MEM_SIZE - 1)) + 1) AND (MEM_SIZE - 1) \<noteq> ((lin s b AND (MEM_SIZE - 1)) + 1) AND (MEM_SIZE - 1)"
    by (metis insertCI lin_addr)+
  then show ?thesis
    by (simp add: rd16_def wr16_def mem_r16_def mem_w16_def Let_def)
qed

section \<open>Pushing and popping\<close>

lemma push16_sel [simp]:
  "r_lo (push16 c v) = (r_lo c)(SP := r_lo c SP - 2)" "r_hi (push16 c v) = r_hi c" "sreg (push16 c v) = sreg c" "ip (push16 c v) = ip c"
  "flags (push16 c v) = flags c" "flags_hi (push16 c v) = flags_hi c" "int_no (push16 c v) = int_no c"
  "fault_opcode (push16 c v) = fault_opcode c" "exit_code (push16 c v) = exit_code c" "insns (push16 c v) = insns c"
  "irq_pending (push16 c v) = irq_pending c" "irq_shadow (push16 c v) = irq_shadow c" "cpu.more (push16 c v) = cpu.more c"
  by (simp_all add: push16_def wr16_def mem_w16_def set_r_def Let_def)

lemma rd16_push_same: "rd16 (push16 c v) (sreg c 2) (r_lo c SP - 2) = v"
  by (simp add: push16_def Let_def)

lemma rd16_set_r [simp]: "rd16 (set_r i v c) s off = rd16 c s off"
  by (simp add: rd16_def mem_r16_def)

lemma even_apart: "even (a - b) \<Longrightarrow> uint a \<noteq> uint b + 1" for a b :: u16
proof
  assume e: "even (a - b)" and "uint a = uint b + 1"
  then have "a = b + 1" by (metis of_int_add of_int_1 word_of_int_uint)
  then show False using e by simp
qed

lemma rd16_push_other:
  assumes "off \<noteq> r_lo c SP - 2" "even (off - r_lo c SP)"
  shows "rd16 (push16 c v) (sreg c 2) off = rd16 c (sreg c 2) off"
proof -
  define a where "a = r_lo c SP - 2"
  have "even (off - a)" "even (a - off)" using assms(2) by (auto simp: a_def even_diff)
  then have "rd16 (wr16 c1 s a v) s off = rd16 c1 s off" for c1 :: "'a cpu_scheme" and s
    using assms(1) by (intro rd16_wr16_other even_apart) (simp_all add: a_def)
  then show ?thesis by (simp add: push16_def Let_def a_def)
qed

text \<open>The words \<open>vs\<close> lie on the stack, the last one pushed at its top.\<close>

definition stacked :: "'a cpu_scheme \<Rightarrow> u16 \<Rightarrow> u16 list \<Rightarrow> bool" where
  "stacked c base vs \<longleftrightarrow> r_lo c SP = base - 2 * of_nat (length vs) \<and>
     (\<forall>i < length vs. rd16 c (sreg c 2) (base - 2 * of_nat (Suc i)) = vs ! i)"

lemma stacked_push:
  assumes "stacked c base vs" "length vs < 2 ^ 15"
  shows "stacked (push16 c v) base (vs @ [v])"
proof -
  define n where "n = length vs"
  have sp: "r_lo c SP = base - 2 * of_nat n" using assms(1) by (simp add: stacked_def n_def)
  have "rd16 (push16 c v) (sreg c 2) (base - 2 * of_nat (Suc i)) = vs ! i" if i: "i < n" for i
  proof -
    have "(of_nat (2 * Suc i) :: u16) \<noteq> of_nat (2 * Suc n)"
      using i assms(2) unfolding word_of_nat_eq_iff take_bit_eq_mod by (cases "Suc n = 2 ^ 15") (auto simp: n_def)
    then have "base - 2 * of_nat (Suc i) \<noteq> r_lo c SP - 2" by (simp add: sp algebra_simps)
    moreover have "even (base - 2 * of_nat (Suc i) - r_lo c SP)" by (simp add: sp)
    ultimately have "rd16 (push16 c v) (sreg c 2) (base - 2 * of_nat (Suc i)) = rd16 c (sreg c 2) (base - 2 * of_nat (Suc i))"
      by (rule rd16_push_other)
    then show ?thesis using assms(1) i by (simp add: stacked_def n_def)
  qed
  moreover have "rd16 (push16 c v) (sreg c 2) (base - 2 * of_nat (Suc n)) = v"
    using rd16_push_same [of c v] by (simp add: sp algebra_simps)
  ultimately show ?thesis using sp by (auto simp: stacked_def n_def nth_append less_Suc_eq)
qed

lemma stacked_pop:
  assumes "stacked c base (vs @ [v])"
  shows "fst (pop16 c) = v" "stacked (snd (pop16 c)) base vs"
  using assms by (auto simp: stacked_def pop16_def nth_append algebra_simps)

lemma stacked_start: "stacked c (r_lo c SP) []"
  by (simp add: stacked_def)

text \<open>What only moves the instruction pointer, the flags or a register other than the stack pointer.\<close>

lemma stacked_cong: "r_lo c1 SP = r_lo c SP \<Longrightarrow> sreg c1 2 = sreg c 2 \<Longrightarrow> mem c1 = mem c \<Longrightarrow> stacked c1 base vs = stacked c base vs"
  by (simp add: stacked_def rd16_def mem_r16_def)

lemma pop16_sel [simp]:
  "r_lo (snd (pop16 c)) = (r_lo c)(SP := r_lo c SP + 2)" "sreg (snd (pop16 c)) = sreg c" "ip (snd (pop16 c)) = ip c"
  "flags (snd (pop16 c)) = flags c" "r_hi (snd (pop16 c)) = r_hi c" "mem (snd (pop16 c)) = mem c"
  by (simp_all add: pop16_def set_r_def)

lemma stacked_fold: "stacked c base vs \<Longrightarrow> length vs + length ws \<le> 2 ^ 15 \<Longrightarrow> stacked (fold (\<lambda>v c. push16 c v) ws c) base (vs @ ws)"
proof (induction ws arbitrary: c vs)
  case (Cons w ws)
  then show ?case using stacked_push [of c base vs w] by (fastforce simp: Cons.IH)
qed simp

lemma pop16_stacked:
  assumes "stacked c base (vs @ [v])"
  shows "pop16 c = (v, set_r SP (base - 2 * of_nat (length vs)) c)"
  using assms by (auto simp: stacked_def pop16_def nth_append algebra_simps)

lemma rd16_frame [simp]: "rd16 (c\<lparr>ip := v\<rparr>) s off = rd16 c s off" "rd16 (c\<lparr>flags := v\<rparr>) s off = rd16 c s off"
  "rd16 (c\<lparr>int_no := b\<rparr>) s off = rd16 c s off" "rd16 (set_sreg i v c) s off = rd16 c s off" "rd16 (add_ip v c) s off = rd16 c s off"
  by (simp_all add: rd16_def mem_r16_def set_sreg_def add_ip_def)

lemma set_sreg_sel [simp]: "r_lo (set_sreg i v c) = r_lo c" "r_hi (set_sreg i v c) = r_hi c" "sreg (set_sreg i v c) = (sreg c)(i := v)"
  "ip (set_sreg i v c) = ip c" "flags (set_sreg i v c) = flags c" "mem (set_sreg i v c) = mem c"
  by (simp_all add: set_sreg_def)

lemma add_ip_sel [simp]: "r_lo (add_ip v c) = r_lo c" "r_hi (add_ip v c) = r_hi c" "sreg (add_ip v c) = sreg c"
  "ip (add_ip v c) = ip c + v" "flags (add_ip v c) = flags c" "mem (add_ip v c) = mem c"
  by (simp_all add: add_ip_def)

lemma three_pushes:
  fixes c :: "'a cpu_scheme" and x y z :: u16
  defines "p \<equiv> push16 (push16 (push16 c x) y) z"
  shows "rd16 p (sreg c 2) (r_lo c SP - 6) = z" "rd16 p (sreg c 2) (r_lo c SP - 4) = y" "rd16 p (sreg c 2) (r_lo c SP - 2) = x"
proof -
  have "stacked p (r_lo c SP) ([] @ [x, y, z])"
    using stacked_fold [OF stacked_start, of "[x, y, z]" c] by (simp add: p_def)
  then have s: "\<forall>i < 3. rd16 p (sreg c 2) (r_lo c SP - 2 * of_nat (Suc i)) = [x, y, z] ! i" by (simp add: stacked_def p_def)
  show "rd16 p (sreg c 2) (r_lo c SP - 6) = z" "rd16 p (sreg c 2) (r_lo c SP - 4) = y" "rd16 p (sreg c 2) (r_lo c SP - 2) = x"
    using s [rule_format, of 2] s [rule_format, of 1] s [rule_format, of 0] by simp_all
qed

section \<open>The instructions that save and restore\<close>

text \<open>The program goes on \<open>n\<close> bytes further with every register as it was.\<close>

definition resumes :: "'a cpu_scheme \<Rightarrow> u16 \<Rightarrow> 'a cpu_scheme \<Rightarrow> bool" where
  "resumes c n c2 \<longleftrightarrow>
     r_lo c2 = r_lo c \<and> r_hi c2 = r_hi c \<and> sreg c2 = sreg c \<and> flags c2 = flags c \<and> ip c2 = ip c + n"

lemma interrupt_resumes: "resumes c 1 (snd (op_iret (snd (op_int c))))"
  using three_pushes [of "(add_ip 1 c)\<lparr>int_no := rd8 c (sreg c 1) (ip c)\<rparr>" "flags c" "sreg c 1" "ip c + 1"]
  by (simp add: resumes_def op_int_def op_iret_def cpu_enter_interrupt_def pop16_def Let_def fun_eq_iff)

lemma interrupt_masks: "\<not> has (snd (op_int c)) FLAG_IF" "\<not> has (snd (op_int c)) FLAG_TF"
proof -
  have "flags (snd (op_int c)) = flags c AND NOT (FLAG_IF OR FLAG_TF)"
    by (simp add: op_int_def cpu_enter_interrupt_def Let_def)
  then have "flags (snd (op_int c)) AND FLAG_IF = 0" "flags (snd (op_int c)) AND FLAG_TF = 0"
    by (auto intro!: bit_word_eqI simp: bit_simps)
  then show "\<not> has (snd (op_int c)) FLAG_IF" "\<not> has (snd (op_int c)) FLAG_TF" unfolding has_def by simp_all
qed

lemma two_pushes: "rd16 (push16 (push16 c x) y) (sreg c 2) (r_lo c SP - 4) = y" "rd16 (push16 (push16 c x) y) (sreg c 2) (r_lo c SP - 2) = x"
proof -
  have "\<forall>i < 2. rd16 (push16 (push16 c x) y) (sreg c 2) (r_lo c SP - 2 * of_nat (Suc i)) = [x, y] ! i"
    using stacked_fold [OF stacked_start, of "[x, y]" c] by (simp add: stacked_def)
  from this [rule_format, of 1] this [rule_format, of 0]
  show "rd16 (push16 (push16 c x) y) (sreg c 2) (r_lo c SP - 4) = y" "rd16 (push16 (push16 c x) y) (sreg c 2) (r_lo c SP - 2) = x"
    by simp_all
qed

lemma near_resumes: "resumes c 2 (snd (op_ret 0xC3 (snd (op_call_near c))))"
  using rd16_push_same [of "add_ip 2 c" "ip c + 2"]
  by (simp add: resumes_def op_call_near_def op_ret_def pop16_def Let_def fun_eq_iff)

lemma far_resumes: "resumes c 4 (snd (op_ret 0xCB (snd (op_call_far c))))"
  using two_pushes [of "add_ip 4 c" "sreg c 1" "ip c + 4"]
  by (simp add: resumes_def op_call_far_def op_ret_def pop16_def Let_def fun_eq_iff)

lemma pusha_eq: "snd (op_pusha c) = fold (\<lambda>v c. push16 c v) (map (r_lo c) [0 ..< 8]) c"
  by (simp add: op_pusha_def upt8 reg_nums)

lemma popa_resumes: "resumes c 0 (snd (op_popa (snd (op_pusha c))))"
proof -
  define p where "p = snd (op_pusha c)"
  have st: "stacked p (r_lo c SP) ([] @ map (r_lo c) [0 ..< 8])"
    unfolding p_def pusha_eq by (rule stacked_fold [OF stacked_start]) simp
  have p: "r_lo p = (r_lo c)(SP := r_lo c SP - 16)" "sreg p = sreg c" "flags p = flags c" "ip p = ip c" "r_hi p = r_hi c"
    by (simp_all add: p_def op_pusha_def upt8 reg_nums)
  have "rd16 p (sreg c 2) (r_lo c SP - 2 * of_nat (Suc i)) = r_lo c i" if "i < 8" for i
    using st that by (simp add: stacked_def p)
  from this [of 0] this [of 1] this [of 2] this [of 3] this [of 4] this [of 5] this [of 6] this [of 7]
  show ?thesis unfolding p_def [symmetric]
    by (simp add: resumes_def op_popa_def upt8 pop16_def reg_nums p Let_def fun_eq_iff)
qed

lemma enter_display_stacked:
  assumes "stacked c base vs" "length vs + n \<le> 2 ^ 15"
  shows "\<exists>ws. length ws = n \<and> stacked (enter_display n c) base (vs @ ws)"
  using assms
proof (induction n arbitrary: c vs)
  case (Suc n)
  define c1 where "c1 = set_r BP (r_lo c BP - 2) c"
  define v where "v = rd16 c1 (sreg c1 2) (r_lo c1 BP)"
  have "stacked c1 base vs" using Suc.prems(1) by (simp add: c1_def reg_nums cong: stacked_cong)
  then have "stacked (push16 c1 v) base (vs @ [v])" using Suc.prems(2) by (intro stacked_push) simp_all
  then obtain ws where "length ws = n" "stacked (enter_display n (push16 c1 v)) base ((vs @ [v]) @ ws)"
    using Suc.IH [of "push16 c1 v" "vs @ [v]"] Suc.prems(2) by auto
  then show ?case by (intro exI [of _ "v # ws"]) (simp add: c1_def v_def Let_def)
qed simp

lemma enter_display_sel [simp]:
  "i \<noteq> SP \<Longrightarrow> i \<noteq> BP \<Longrightarrow> r_lo (enter_display n c) i = r_lo c i" "sreg (enter_display n c) = sreg c"
  "flags (enter_display n c) = flags c" "ip (enter_display n c) = ip c" "r_hi (enter_display n c) = r_hi c"
  by (induction n c rule: enter_display.induct) (simp_all add: Let_def)

lemma enter_resumes: "resumes c 3 (snd (op_leave (snd (op_enter c))))"
proof -
  define level where "level = unat (rd8 c (sreg c 1) (ip c + 2))"
  define b where "b = r_lo c SP"
  define c2 where "c2 = push16 (add_ip 3 c) (r_lo c BP)"
  define c4 where "c4 = push16 (enter_display level c2) (b - 2)"
  have level: "level < 256" using unsigned_less [of "rd8 c (sreg c 1) (ip c + 2)"] by (simp add: level_def)
  have "stacked c2 b [r_lo c BP]"
    using stacked_push [OF stacked_start, of "add_ip 3 c" "r_lo c BP"] by (simp add: c2_def b_def)
  then obtain ws where "length ws = level" "stacked (enter_display level c2) b ([r_lo c BP] @ ws)"
    using enter_display_stacked [of c2 b "[r_lo c BP]" level] level by auto
  then have "stacked c4 b ([r_lo c BP] @ ws @ [b - 2])"
    using stacked_push [of "enter_display level c2" b "[r_lo c BP] @ ws" "b - 2"] level by (simp add: c4_def)
  then have "rd16 c4 (sreg c 2) (b - 2) = r_lo c BP" by (auto simp: stacked_def c4_def c2_def)
  moreover have "snd (op_enter c) = (let c5 = set_r BP (b - 2) c4 in set_r SP (r_lo c5 SP - rd16 c (sreg c 1) (ip c)) c5)"
    by (simp add: op_enter_def c4_def c2_def level_def b_def Let_def)
  ultimately show ?thesis
    by (auto simp: resumes_def op_leave_def pop16_def Let_def fun_eq_iff c4_def c2_def b_def reg_nums)
qed


text \<open>
  ENTER with nesting level 0 takes four bytes besides the locals, the frame pointer being pushed at
  every level; the processor's own takes two, the saved BP alone.
\<close>

lemma enter_level_zero:
  "rd8 c (sreg c 1) (ip c + 2) = 0 \<Longrightarrow> r_lo (snd (op_enter c)) SP = r_lo c SP - 4 - rd16 c (sreg c 1) (ip c)"
  by (simp add: op_enter_def Let_def reg_nums)

end
