(* ===== verification/Dos_Bcd.thy ===== *)
theory Dos_Bcd
  imports Dos_Exec Dos_Alu
begin

text \<open>
  Decimal arithmetic of \<open>dosrun\<close>'s processor: \<open>op_daa\<close> and \<open>op_das\<close> after the additions and
  subtractions of \<open>alu8\<close>. The adjustment is computed on integers first and the flags of the
  arithmetic theory give its inputs.
\<close>

section \<open>Digits\<close>

definition bcd :: "int \<Rightarrow> int" where
  "bcd n = 16 * (n div 10) + n mod 10"

lemma bcd_digits: "0 \<le> l \<Longrightarrow> l \<le> 9 \<Longrightarrow> bcd (10 * h + l) = 16 * h + l"
  by (simp add: bcd_def)

lemma digits: "0 \<le> n \<Longrightarrow> n < 100 \<Longrightarrow> \<exists>h l. n = 10 * h + l \<and> 0 \<le> h \<and> h \<le> 9 \<and> 0 \<le> l \<and> l \<le> 9" for n :: int
  by (rule exI [of _ "n div 10"], rule exI [of _ "n mod 10"]) auto

lemma digit_ge: "10 * z + l \<ge> 100 \<Longrightarrow> l \<le> 9 \<Longrightarrow> z \<ge> 10" for z l :: int
  by presburger

lemma digit_lt: "10 * z + l < 0 \<Longrightarrow> 0 \<le> l \<Longrightarrow> z < 0" for z l :: int
  by presburger

lemma digit_nonneg: "10 * z + l \<ge> 0 \<Longrightarrow> l \<le> 9 \<Longrightarrow> z \<ge> 0" for z l :: int
  by presburger

lemma mod_range: "x = m * j + r \<Longrightarrow> 0 \<le> r \<Longrightarrow> r < m \<Longrightarrow> x mod m = r" for x m j r :: int
  by simp

text \<open>What DAA and DAS leave in \<open>AL\<close>, over the integers.\<close>

definition daa_value :: "int \<Rightarrow> bool \<Rightarrow> bool \<Rightarrow> int" where
  "daa_value v af cf = (v + (if v mod 16 > 9 \<or> af then 6 else 0) + (if v > 0x99 \<or> cf then 0x60 else 0)) mod 256"

definition das_value :: "int \<Rightarrow> bool \<Rightarrow> bool \<Rightarrow> int" where
  "das_value v af cf = (v - (if v mod 16 > 9 \<or> af then 6 else 0) - (if v > 0x99 \<or> cf then 0x60 else 0)) mod 256"

lemma daa_arith:
  fixes x y k :: int
  assumes "0 \<le> x" "x < 100" "0 \<le> y" "y < 100" "0 \<le> k" "k \<le> 1"
  defines "S \<equiv> bcd x + bcd y + k"
  defines "v \<equiv> S mod 256" and "af \<equiv> bcd x mod 16 + bcd y mod 16 + k \<ge> 16" and "cf \<equiv> S \<ge> 256"
  shows "daa_value v af cf = bcd ((x + y + k) mod 100)" "v > 0x99 \<or> cf \<longleftrightarrow> x + y + k \<ge> 100"
proof -
  obtain a b where x: "x = 10 * a + b" "0 \<le> a" "a \<le> 9" "0 \<le> b" "b \<le> 9" using digits [OF assms(1,2)] by blast
  obtain p q where y: "y = 10 * p + q" "0 \<le> p" "p \<le> 9" "0 \<le> q" "q \<le> 9" using digits [OF assms(3,4)] by blast
  have S: "S = 16 * (a + p) + (b + q + k)" unfolding S_def x(1) y(1) using x y by (simp add: bcd_digits)
  have af: "af \<longleftrightarrow> b + q + k \<ge> 16" unfolding af_def x(1) y(1) using x y by (simp add: bcd_digits)
  have v: "v = (if cf then S - 256 else S)"
    using S x y assms(5,6) by (auto simp: v_def cf_def intro!: mod_range [where j = 1] mod_pos_pos_trivial)
  define t where "t = (if b + q + k \<ge> 10 then 1 else 0 :: int)"
  have low: "v mod 16 > 9 \<or> af \<longleftrightarrow> t = 1"
  proof -
    have "v mod 16 = S mod 16" by (simp add: v_def mod_mod_cancel)
    also have "\<dots> = (b + q + k) mod 16" unfolding S by (rule mod_mult_self4)
    also have "\<dots> = (if b + q + k \<ge> 16 then b + q + k - 16 else b + q + k)"
      using x y assms(5,6) by (auto intro!: mod_range [where j = 1] mod_pos_pos_trivial)
    finally show ?thesis using x y assms(5,6) by (auto simp: af t_def)
  qed
  have n: "x + y + k = 10 * (a + p + t) + (b + q + k - 10 * t)" by (simp add: x y)
  have d: "0 \<le> b + q + k - 10 * t" "b + q + k - 10 * t \<le> 9" using x y assms(5,6) by (auto simp: t_def)
  show hi: "v > 0x99 \<or> cf \<longleftrightarrow> x + y + k \<ge> 100"
  proof -
    consider "a + p \<le> 8" | "a + p = 9" | "a + p \<ge> 10" by linarith
    then show ?thesis using S v x y assms(5,6) by cases (auto simp: cf_def)
  qed
  show "daa_value v af cf = bcd ((x + y + k) mod 100)"
  proof (cases "x + y + k \<ge> 100")
    case True
    have "(x + y + k) mod 100 = 10 * (a + p + t - 10) + (b + q + k - 10 * t)"
      using True n d x y by (intro mod_range [where j = 1]) (auto simp: t_def split: if_splits)
    then have "bcd ((x + y + k) mod 100) = 16 * (a + p + t - 10) + (b + q + k - 10 * t)" using d by (simp only: bcd_digits)
    moreover have "daa_value v af cf = \<dots>"
      unfolding daa_value_def low
    proof (rule mod_range)
      have "v + (if t = 1 then 6 else 0) + 0x60 = 256 * (if cf then 0 else 1) + (16 * (a + p + t - 10) + (b + q + k - 10 * t))"
        using v S by (simp add: t_def)
      then show "v + (if t = 1 then 6 else 0) + (if 0x99 < v \<or> cf then 0x60 else 0)
          = 256 * (if cf then 0 else 1) + (16 * (a + p + t - 10) + (b + q + k - 10 * t))" using hi True by simp
      have "a + p + t - 10 \<ge> 0" using digit_ge [of "a + p + t" "b + q + k - 10 * t"] True n d by linarith
      moreover have "a + p + t - 10 \<le> 9" using x(3) y(3) by (simp add: t_def)
      ultimately
      show "0 \<le> 16 * (a + p + t - 10) + (b + q + k - 10 * t)" "16 * (a + p + t - 10) + (b + q + k - 10 * t) < 256"
        using d by simp_all
    qed
    ultimately show ?thesis by simp
  next
    case False
    have "(x + y + k) mod 100 = 10 * (a + p + t) + (b + q + k - 10 * t)"
      using False n d x y assms(5) by simp
    then have "bcd ((x + y + k) mod 100) = 16 * (a + p + t) + (b + q + k - 10 * t)" using d by (simp only: bcd_digits)
    moreover have "daa_value v af cf = \<dots>"
      unfolding daa_value_def low using hi False v S n d x y
      by (intro mod_range [where j = 0]) (auto simp: t_def split: if_splits)
    ultimately show ?thesis by simp
  qed
qed

lemma das_arith:
  fixes x y k :: int
  assumes "0 \<le> x" "x < 100" "0 \<le> y" "y < 100" "0 \<le> k" "k \<le> 1"
  defines "S \<equiv> bcd x - bcd y - k"
  defines "v \<equiv> S mod 256" and "af \<equiv> bcd x mod 16 < bcd y mod 16 + k" and "cf \<equiv> bcd x < bcd y + k"
  shows "das_value v af cf = bcd ((x - y - k) mod 100)" "v > 0x99 \<or> cf \<longleftrightarrow> x < y + k"
    "(v > 0x99 \<or> cf) \<or> (v mod 16 > 9 \<or> af) \<and> (cf \<or> v < 6) \<longleftrightarrow> x < y + k"
proof -
  obtain a b where x: "x = 10 * a + b" "0 \<le> a" "a \<le> 9" "0 \<le> b" "b \<le> 9" using digits [OF assms(1,2)] by blast
  obtain p q where y: "y = 10 * p + q" "0 \<le> p" "p \<le> 9" "0 \<le> q" "q \<le> 9" using digits [OF assms(3,4)] by blast
  have S: "S = 16 * (a - p) + (b - q - k)" unfolding S_def x(1) y(1) using x y by (simp add: bcd_digits)
  have cf: "cf \<longleftrightarrow> S < 0" by (auto simp: cf_def S_def)
  define t where "t = (if b < q + k then 1 else 0 :: int)"
  have af: "af \<longleftrightarrow> t = 1" unfolding af_def x(1) y(1) t_def using x y by (simp add: bcd_digits)
  have v: "v = (if cf then S + 256 else S)"
    using S x y assms(5,6) by (auto simp: v_def cf intro!: mod_range [where j = "- 1"] mod_pos_pos_trivial)
  have low: "v mod 16 > 9 \<or> af \<longleftrightarrow> t = 1"
  proof -
    have "v mod 16 = S mod 16" by (simp add: v_def mod_mod_cancel)
    also have "\<dots> = (b - q - k) mod 16" unfolding S by (rule mod_mult_self4)
    also have "\<dots> = (if b < q + k then b - q - k + 16 else b - q - k)"
      using x y assms(5,6) by (auto intro!: mod_range [where j = "- 1"] mod_pos_pos_trivial)
    finally show ?thesis using x y assms(5,6) by (auto simp: af t_def)
  qed
  have n: "x - y - k = 10 * (a - p - t) + (b - q - k + 10 * t)" by (simp add: x y)
  have d: "0 \<le> b - q - k + 10 * t" "b - q - k + 10 * t \<le> 9" using x y assms(5,6) by (auto simp: t_def)
  show hi: "v > 0x99 \<or> cf \<longleftrightarrow> x < y + k"
  proof -
    consider "a < p" | "a = p" | "a > p" by linarith
    then show ?thesis using S v x y assms(5,6) by cases (auto simp: cf)
  qed
  show "(v > 0x99 \<or> cf) \<or> (v mod 16 > 9 \<or> af) \<and> (cf \<or> v < 6) \<longleftrightarrow> x < y + k"
  proof -
    consider "a < p" | "a = p" | "a > p" by linarith
    then show ?thesis unfolding low hi using S v x y assms(5,6) by cases (auto simp: cf t_def split: if_splits)
  qed
  show "das_value v af cf = bcd ((x - y - k) mod 100)"
  proof (cases "x < y + k")
    case True
    have "(x - y - k) mod 100 = 10 * (a - p - t + 10) + (b - q - k + 10 * t)"
      using True n d x y assms(5,6) by (intro mod_range [where j = "- 1"]) (auto simp: t_def split: if_splits)
    then have "bcd ((x - y - k) mod 100) = 16 * (a - p - t + 10) + (b - q - k + 10 * t)" using d by (simp only: bcd_digits)
    moreover have "das_value v af cf = \<dots>"
      unfolding das_value_def low
    proof (rule mod_range)
      have "v - (if t = 1 then 6 else 0) - 0x60 = 256 * (if cf then 0 else - 1) + (16 * (a - p - t + 10) + (b - q - k + 10 * t))"
        using v S by (simp add: t_def)
      then show "v - (if t = 1 then 6 else 0) - (if 0x99 < v \<or> cf then 0x60 else 0)
          = 256 * (if cf then 0 else - 1) + (16 * (a - p - t + 10) + (b - q - k + 10 * t))" using hi True by simp
      have "a - p - t + 10 \<le> 9" using digit_lt [of "a - p - t" "b - q - k + 10 * t"] True n d by linarith
      moreover have "a - p - t + 10 \<ge> 0" using x(2) y(3) by (simp add: t_def)
      ultimately
      show "0 \<le> 16 * (a - p - t + 10) + (b - q - k + 10 * t)" "16 * (a - p - t + 10) + (b - q - k + 10 * t) < 256"
        using d by simp_all
    qed
    ultimately show ?thesis by simp
  next
    case False
    have "(x - y - k) mod 100 = 10 * (a - p - t) + (b - q - k + 10 * t)"
      using False n d x y assms(5) by simp
    then have "bcd ((x - y - k) mod 100) = 16 * (a - p - t) + (b - q - k + 10 * t)" using d by (simp only: bcd_digits)
    moreover have "das_value v af cf = \<dots>"
      unfolding das_value_def low
    proof (rule mod_range)
      have "\<not> cf" "\<not> 0x99 < v" using hi False by simp_all
      then show "v - (if t = 1 then 6 else 0) - (if 0x99 < v \<or> cf then 0x60 else 0)
          = 256 * 0 + (16 * (a - p - t) + (b - q - k + 10 * t))" using v S by (simp add: t_def)
      have "a - p - t \<ge> 0" using digit_nonneg [of "a - p - t" "b - q - k + 10 * t"] False n d by linarith
      moreover have "a - p - t \<le> 9" using x(3) y(2) by (simp add: t_def)
      ultimately
      show "0 \<le> 16 * (a - p - t) + (b - q - k + 10 * t)" "16 * (a - p - t) + (b - q - k + 10 * t) < 256"
        using d by simp_all
    qed
    ultimately show ?thesis by simp
  qed
qed

section \<open>The instructions\<close>

lemma byte_masks: "bit (0xFF00 :: u16) n \<longleftrightarrow> 8 \<le> n \<and> n < 16" "bit (0x00FF :: u16) n \<longleftrightarrow> n < 8"
proof -
  have "(0xFF00 :: u16) = push_bit 8 (mask 8)" "(0x00FF :: u16) = mask 8" by (simp_all add: mask_eq_exp_minus_1)
  then show "bit (0xFF00 :: u16) n \<longleftrightarrow> 8 \<le> n \<and> n < 16" "bit (0x00FF :: u16) n \<longleftrightarrow> n < 8"
    by (auto simp only: bit_push_bit_iff bit_mask_iff) auto
qed

lemma low_byte: "(ucast ((old AND 0xFF00) OR ucast v) :: u8) = v" for old :: u16
  by (rule bit_word_eqI, auto simp only: bit_unsigned_iff bit_or_iff bit_and_iff byte_masks possible_bit_word, auto)

lemma get8_put8 [simp]: "get8 (put8 c 0 v) 0 = v" "get8 (cpu_set_flags c w n) i = get8 c i"
  by (simp_all only: get8_def put8_def Let_def set_r_sel regs_kept) (simp add: low_byte)

lemma uint_and15: "uint (x AND 15) = uint x mod 16" for x :: u8
proof -
  have "x AND 15 = take_bit 4 x" by (simp add: take_bit_eq_mask mask_eq_exp_minus_1)
  then show ?thesis by (simp only: unsigned_take_bit_eq) (simp add: take_bit_eq_mod)
qed

lemma flags_put8 [simp]: "flags (put8 c i b) = flags c"
  by (simp add: put8_def Let_def)

lemma op_daa_value: "uint (get8 (snd (op_daa c)) 0) = daa_value (uint (get8 c 0)) (has c FLAG_AF) (has c FLAG_CF)"
  "has (snd (op_daa c)) FLAG_CF \<longleftrightarrow> uint (get8 c 0) > 0x99 \<or> has c FLAG_CF"
proof -
  show "has (snd (op_daa c)) FLAG_CF \<longleftrightarrow> uint (get8 c 0) > 0x99 \<or> has c FLAG_CF"
    by (simp add: op_daa_def Let_def word_less_def bit_cpu_set_flags)
  show "uint (get8 (snd (op_daa c)) 0) = daa_value (uint (get8 c 0)) (has c FLAG_AF) (has c FLAG_CF)"
    by (simp add: op_daa_def Let_def word_less_def uint_and15 daa_value_def uint_word_ariths mod_simps add.assoc)
qed

lemma op_das_value: "uint (get8 (snd (op_das c)) 0) = das_value (uint (get8 c 0)) (has c FLAG_AF) (has c FLAG_CF)"
  "has (snd (op_das c)) FLAG_CF \<longleftrightarrow> (uint (get8 c 0) > 0x99 \<or> has c FLAG_CF)
     \<or> (uint (get8 c 0) mod 16 > 9 \<or> has c FLAG_AF) \<and> (has c FLAG_CF \<or> uint (get8 c 0) < 6)"
proof -
  show "has (snd (op_das c)) FLAG_CF \<longleftrightarrow> (uint (get8 c 0) > 0x99 \<or> has c FLAG_CF)
     \<or> (uint (get8 c 0) mod 16 > 9 \<or> has c FLAG_AF) \<and> (has c FLAG_CF \<or> uint (get8 c 0) < 6)"
    by (simp add: op_das_def Let_def word_less_def uint_and15 bit_cpu_set_flags bit_simps FLAG_AF_def)
  show "uint (get8 (snd (op_das c)) 0) = das_value (uint (get8 c 0)) (has c FLAG_AF) (has c FLAG_CF)"
    by (simp add: op_das_def Let_def word_less_def uint_and15 das_value_def uint_word_ariths mod_simps)
qed

lemma alu8_ok: "alu_ok 8 op (uint a) (uint b) c (uint (fst (alu8 c op a b))) (snd (alu8 c op a b))"
  using unsigned_less [of a] unsigned_less [of b]
  by (intro alu_eq_ok [OF _ _ _ _ _ refl alu8_eq]) (simp_all add: uint_ucast_take)

definition packed :: "nat \<Rightarrow> u8" where
  "packed n = of_nat (16 * (n div 10) + n mod 10)"

lemma uint_packed: "n < 100 \<Longrightarrow> uint (packed n) = bcd (int n)"
proof -
  assume "n < 100"
  then have "n div 10 < 10" by (simp add: div_less_iff_less_mult)
  then have "16 * (n div 10) + n mod 10 < 256" using mod_less_divisor [of 10 n] by linarith
  then have "uint (of_nat (16 * (n div 10) + n mod 10) :: u8) = int (16 * (n div 10) + n mod 10)"
    unfolding unsigned_of_nat take_bit_eq_mod by simp
  then show ?thesis unfolding packed_def bcd_def by (simp only:) (simp add: zdiv_int zmod_int)
qed

text \<open>The pair of instructions a program adds or subtracts one byte of packed decimal with.\<close>

definition adc_daa :: "'a cpu_scheme \<Rightarrow> u8 \<Rightarrow> u8 \<Rightarrow> 'a cpu_scheme" where
  "adc_daa c a b = (let (v, c1) = alu8 c ALU_ADC a b in snd (op_daa (put8 c1 0 v)))"

definition sbb_das :: "'a cpu_scheme \<Rightarrow> u8 \<Rightarrow> u8 \<Rightarrow> 'a cpu_scheme" where
  "sbb_das c a b = (let (v, c1) = alu8 c ALU_SBB a b in snd (op_das (put8 c1 0 v)))"

lemma has_put8: "has (put8 c i b) f = has c f"
  by (simp add: has_def)

lemma adc_daa_ok:
  fixes c :: "'a cpu_scheme" and x y :: nat
  assumes "x < 100" "y < 100"
  defines "k \<equiv> of_bool (has c FLAG_CF) :: nat"
  shows "get8 (adc_daa c (packed x) (packed y)) 0 = packed ((x + y + k) mod 100)"
    "has (adc_daa c (packed x) (packed y)) FLAG_CF \<longleftrightarrow> x + y + k \<ge> 100"
proof -
  obtain v c1 where a: "alu8 c ALU_ADC (packed x) (packed y) = (v, c1)" by force
  have k: "int k = of_bool (has c FLAG_CF)" "int k \<le> 1" by (simp_all add: k_def)
  have "alu_ok 8 ALU_ADC (bcd (int x)) (bcd (int y)) c (uint v) c1"
    using alu8_ok [of ALU_ADC "packed x" "packed y" c] assms(1,2) by (simp add: a uint_packed)
  then have v: "uint v = (bcd (int x) + bcd (int y) + int k) mod 256"
    and cf: "has c1 FLAG_CF \<longleftrightarrow> bcd (int x) + bcd (int y) + int k \<ge> 256"
    and af: "has c1 FLAG_AF \<longleftrightarrow> bcd (int x) mod 16 + bcd (int y) mod 16 + int k \<ge> 16"
    unfolding alu_ok_def Let_def k(1) [symmetric] by (simp_all add: alu_ref alu_nums del: has_bit)
  note ar = daa_arith [of "int x" "int y" "int k", folded v cf af]
  have r: "adc_daa c (packed x) (packed y) = snd (op_daa (put8 c1 0 v))" by (simp add: adc_daa_def a)
  have "uint (get8 (adc_daa c (packed x) (packed y)) 0) = uint (packed ((x + y + k) mod 100))"
    unfolding r op_daa_value has_put8 get8_put8 using ar(1) assms k(2) by (simp add: uint_packed zmod_int del: has_bit)
  then show "get8 (adc_daa c (packed x) (packed y)) 0 = packed ((x + y + k) mod 100)" by (rule word_uint_eqI)
  show "has (adc_daa c (packed x) (packed y)) FLAG_CF \<longleftrightarrow> x + y + k \<ge> 100"
    unfolding r op_daa_value has_put8 get8_put8 using ar(2) assms k(2) by (simp del: has_bit) linarith
qed

lemma sbb_das_ok:
  fixes c :: "'a cpu_scheme" and x y :: nat
  assumes "x < 100" "y < 100"
  defines "k \<equiv> of_bool (has c FLAG_CF) :: nat"
  shows "get8 (sbb_das c (packed x) (packed y)) 0 = packed ((x + 100 - y - k) mod 100)"
    "has (sbb_das c (packed x) (packed y)) FLAG_CF \<longleftrightarrow> x < y + k"
proof -
  obtain v c1 where a: "alu8 c ALU_SBB (packed x) (packed y) = (v, c1)" by force
  have k: "int k = of_bool (has c FLAG_CF)" "int k \<le> 1" by (simp_all add: k_def)
  have "alu_ok 8 ALU_SBB (bcd (int x)) (bcd (int y)) c (uint v) c1"
    using alu8_ok [of ALU_SBB "packed x" "packed y" c] assms(1,2) by (simp add: a uint_packed)
  then have v: "uint v = (bcd (int x) - bcd (int y) - int k) mod 256"
    and cf: "has c1 FLAG_CF \<longleftrightarrow> bcd (int x) < bcd (int y) + int k"
    and af: "has c1 FLAG_AF \<longleftrightarrow> bcd (int x) mod 16 < bcd (int y) mod 16 + int k"
    unfolding alu_ok_def Let_def k(1) [symmetric] by (simp_all add: alu_ref alu_nums del: has_bit)
  note ar = das_arith [of "int x" "int y" "int k", folded v cf af]
  have r: "sbb_das c (packed x) (packed y) = snd (op_das (put8 c1 0 v))" by (simp add: sbb_das_def a)
  have "int ((x + 100 - y - k) mod 100) = (int x - int y - int k) mod 100"
  proof -
    have "int (x + 100 - y - k) = int x - int y - int k + 100" using assms k(2) by simp
    then show ?thesis by (simp only: zmod_int) simp
  qed
  then have "uint (get8 (sbb_das c (packed x) (packed y)) 0) = uint (packed ((x + 100 - y - k) mod 100))"
    unfolding r op_das_value has_put8 get8_put8 using ar(1) assms k(2) by (simp add: uint_packed del: has_bit)
  then show "get8 (sbb_das c (packed x) (packed y)) 0 = packed ((x + 100 - y - k) mod 100)" by (rule word_uint_eqI)
  show "has (sbb_das c (packed x) (packed y)) FLAG_CF \<longleftrightarrow> x < y + k"
    unfolding r op_das_value has_put8 get8_put8 using ar(3) assms k(2) by (simp del: has_bit) linarith
qed

text \<open>
  C36: Adding two packed decimal bytes and the carry with ADC and then DAA gives the packed decimal
  sum modulo 100 with the decimal carry out, and subtracting with SBB and then DAS the difference
  modulo 100 with the borrow, for all operands below 100: the step of a decimal addition of any
  length.
\<close>

theorem decimal_adjust:
  assumes "x < 100" "y < 100" "k = of_bool (has c FLAG_CF)"
  shows "get8 (adc_daa c (packed x) (packed y)) 0 = packed ((x + y + k) mod 100)
    \<and> (has (adc_daa c (packed x) (packed y)) FLAG_CF \<longleftrightarrow> x + y + k \<ge> 100)
    \<and> get8 (sbb_das c (packed x) (packed y)) 0 = packed ((x + 100 - y - k) mod 100)
    \<and> (has (sbb_das c (packed x) (packed y)) FLAG_CF \<longleftrightarrow> x < y + k)"
  unfolding assms(3) using adc_daa_ok [OF assms(1,2), of c] sbb_das_ok [OF assms(1,2), of c] by (intro conjI)

theorem decimal_adjust_witness: "get8 (adc_daa cpu_blank (packed 47) (packed 85)) 0 = 0x32"
proof -
  have "0 = (of_bool (has cpu_blank FLAG_CF) :: nat)" by (simp add: cpu_blank_def)
  then show ?thesis using decimal_adjust [of 47 85 0 cpu_blank] by (simp add: packed_def)
qed

end
