(* ===== verification/Sha256.thy ===== *)
theory Sha256
  imports Zkt_Prelude
begin

text \<open>
  SHA-256 and HMAC, \<open>zkt/kernel/sha256.c\<close>, which authenticate the sessions of the network file
  protocol. The context is a record; a byte array is a list; a write outside the 64-byte buffer
  would be \<open>None\<close>. The second half states the standards the code cites and shows the incremental
  code equal to them.
\<close>

section \<open>The compression function\<close>

definition K :: "u32 list" where
  "K = [
    0x428a2f98, 0x71374491, 0xb5c0fbcf, 0xe9b5dba5, 0x3956c25b, 0x59f111f1, 0x923f82a4, 0xab1c5ed5,
    0xd807aa98, 0x12835b01, 0x243185be, 0x550c7dc3, 0x72be5d74, 0x80deb1fe, 0x9bdc06a7, 0xc19bf174,
    0xe49b69c1, 0xefbe4786, 0x0fc19dc6, 0x240ca1cc, 0x2de92c6f, 0x4a7484aa, 0x5cb0a9dc, 0x76f988da,
    0x983e5152, 0xa831c66d, 0xb00327c8, 0xbf597fc7, 0xc6e00bf3, 0xd5a79147, 0x06ca6351, 0x14292967,
    0x27b70a85, 0x2e1b2138, 0x4d2c6dfc, 0x53380d13, 0x650a7354, 0x766a0abb, 0x81c2c92e, 0x92722c85,
    0xa2bfe8a1, 0xa81a664b, 0xc24b8b70, 0xc76c51a3, 0xd192e819, 0xd6990624, 0xf40e3585, 0x106aa070,
    0x19a4c116, 0x1e376c08, 0x2748774c, 0x34b0bcb5, 0x391c0cb3, 0x4ed8aa4a, 0x5b9cca4f, 0x682e6ff3,
    0x748f82ee, 0x78a5636f, 0x84c87814, 0x8cc70208, 0x90befffa, 0xa4506ceb, 0xbef9a3f7, 0xc67178f2]"

definition ror :: "u32 \<Rightarrow> nat \<Rightarrow> u32" where
  "ror x n = drop_bit n x OR push_bit (32 - n) x"

text \<open>\<open>w[t]\<close> for the first 16, one step of the second loop, and both.\<close>

definition be_word :: "u8 list \<Rightarrow> nat \<Rightarrow> u32" where
  "be_word p t = push_bit 24 (ucast (p ! (4 * t))) OR push_bit 16 (ucast (p ! (4 * t + 1)))
     OR push_bit 8 (ucast (p ! (4 * t + 2))) OR ucast (p ! (4 * t + 3))"

definition schedule_step :: "nat \<Rightarrow> u32 list \<Rightarrow> u32 list" where
  "schedule_step t w =
     (let s0 = ror (w ! (t - 15)) 7 XOR ror (w ! (t - 15)) 18 XOR drop_bit 3 (w ! (t - 15));
          s1 = ror (w ! (t - 2)) 17 XOR ror (w ! (t - 2)) 19 XOR drop_bit 10 (w ! (t - 2))
      in w @ [w ! (t - 16) + s0 + w ! (t - 7) + s1])"

definition schedule :: "u8 list \<Rightarrow> u32 list" where
  "schedule p = fold schedule_step [16 ..< 64] (map (be_word p) [0 ..< 16])"

type_synonym working = "u32 \<times> u32 \<times> u32 \<times> u32 \<times> u32 \<times> u32 \<times> u32 \<times> u32"

definition round_step :: "u32 list \<Rightarrow> nat \<Rightarrow> working \<Rightarrow> working" where
  "round_step w t v =
     (let (a, b, cc, d, e, f, g, h) = v;
          t1 = h + (ror e 6 XOR ror e 11 XOR ror e 25) + ((e AND f) XOR (NOT e AND g)) + K ! t + w ! t;
          t2 = (ror a 2 XOR ror a 13 XOR ror a 22) + ((a AND b) XOR (a AND cc) XOR (b AND cc))
      in (t1 + t2, a, b, cc, d + t1, e, f, g))"

definition compress :: "u32 list \<Rightarrow> u8 list \<Rightarrow> u32 list" where
  "compress c_h p =
     (let w = schedule p;
          (a, b, cc, d, e, f, g, h) = fold (round_step w) [0 ..< 64]
            (c_h ! 0, c_h ! 1, c_h ! 2, c_h ! 3, c_h ! 4, c_h ! 5, c_h ! 6, c_h ! 7)
      in [c_h ! 0 + a, c_h ! 1 + b, c_h ! 2 + cc, c_h ! 3 + d, c_h ! 4 + e, c_h ! 5 + f, c_h ! 6 + g, c_h ! 7 + h])"

section \<open>Hashing\<close>

text \<open>\<open>h\<close> is \<open>hash\<close> and \<open>block\<close> is \<open>chunk\<close>.\<close>

definition SHA256_BLOCK :: nat where "SHA256_BLOCK = 64"
definition SHA256_BYTES :: nat where "SHA256_BYTES = 32"

record sha256_ctx =
  hash :: "u32 list"
  chunk :: "u8 list"
  used :: nat
  bits_lo :: u32
  bits_hi :: u32

definition H0 :: "u32 list" where
  "H0 = [0x6a09e667, 0xbb67ae85, 0x3c6ef372, 0xa54ff53a, 0x510e527f, 0x9b05688c, 0x1f83d9ab, 0x5be0cd19]"

definition sha256_init :: "sha256_ctx \<Rightarrow> sha256_ctx" where
  "sha256_init c = c\<lparr>hash := H0, used := 0, bits_lo := 0, bits_hi := 0\<rparr>"

text \<open>\<open>memcpy(dst + off, src, n)\<close> and \<open>memset(c, 0, sizeof *c)\<close>.\<close>

definition memcpy_at :: "u8 list \<Rightarrow> nat \<Rightarrow> u8 list \<Rightarrow> u8 list" where
  "memcpy_at dst off src = take off dst @ src @ drop (off + length src) dst"

lemma room_left: "u < SHA256_BLOCK \<Longrightarrow> sub32 SHA256_BLOCK u = SHA256_BLOCK - u" "sub32 SHA256_BLOCK SHA256_BLOCK = 0"
  by (simp_all add: sub32_exact SHA256_BLOCK_def)

text \<open>
  The loop of \<open>sha256_update\<close>. The room left is computed in \<open>size_t\<close>; with more than a block in
  use the copy would run over the buffer.
\<close>

function update_loop :: "sha256_ctx \<Rightarrow> u8 list \<Rightarrow> sha256_ctx option" where
  "update_loop c p =
     (if p = [] then Some c
      else let n = min (sub32 SHA256_BLOCK (used c)) (length p)
           in if used c + n > SHA256_BLOCK then None
              else let c1 = c\<lparr>chunk := memcpy_at (chunk c) (used c) (take n p), used := used c + n\<rparr>;
                       c2 = (if used c1 = SHA256_BLOCK then c1\<lparr>hash := compress (hash c1) (chunk c1), used := 0\<rparr> else c1)
                   in update_loop c2 (drop n p))"
  by pat_completeness auto

termination
proof (relation "measure (\<lambda>(c, p). 2 * length p + (if used c = SHA256_BLOCK then 1 else 0))", goal_cases)
  case (2 c p n c1 c2)
  consider "used c = SHA256_BLOCK" | "used c < SHA256_BLOCK" using 2(2,3) by (meson add_leD1 linorder_neqE_nat not_less)
  then show ?case
  proof cases
    case 1
    then have "n = 0" "used c2 = 0" using 2 room_left(2) by simp_all
    then show ?thesis using 1 by (simp add: SHA256_BLOCK_def)
  next
    case 2
    then have "0 < n" using \<open>n = min _ _\<close> \<open>p \<noteq> []\<close> room_left(1) [of "used c"] by simp
    then have "length (drop n p) < length p" using \<open>p \<noteq> []\<close> by simp
    then show ?thesis by simp
  qed
qed simp

declare update_loop.simps [simp del]

definition sha256_update :: "sha256_ctx \<Rightarrow> u8 list \<Rightarrow> sha256_ctx option" where
  "sha256_update c p =
     (let add = push_bit 3 (of_nat (length p)) :: u32;
          c1 = c\<lparr>bits_hi := bits_hi c + of_nat (length p div 2 ^ 29) + (if bits_lo c + add < bits_lo c then 1 else 0)\<rparr>
      in update_loop (c1\<lparr>bits_lo := bits_lo c1 + add\<rparr>) p)"

text \<open>The loop of \<open>sha256_final\<close> that feeds zeros until 8 bytes of the block are left.\<close>

partial_function (option) pad_zeros :: "sha256_ctx \<Rightarrow> sha256_ctx option" where
  "pad_zeros c = (if used c = SHA256_BLOCK - 8 then Some c else Option.bind (sha256_update c [0]) pad_zeros)"

definition sha256_zero :: sha256_ctx where
  "sha256_zero = \<lparr>hash = replicate 8 0, chunk = replicate SHA256_BLOCK 0, used = 0, bits_lo = 0, bits_hi = 0\<rparr>"

definition sha256_final :: "sha256_ctx \<Rightarrow> (u8 list \<times> sha256_ctx) option" where
  "sha256_final c =
     (let lo = bits_lo c; hi = bits_hi c
      in Option.bind (sha256_update c [0x80]) (\<lambda>c1.
         Option.bind (pad_zeros c1) (\<lambda>c2.
         let len8 = map (\<lambda>i. ucast (drop_bit (24 - 8 * i) hi)) [0 ..< 4] @ map (\<lambda>i. ucast (drop_bit (24 - 8 * i) lo)) [0 ..< 4]
         in Option.bind (sha256_update c2 len8) (\<lambda>c3.
            Some (concat (map (\<lambda>i. map (\<lambda>k. ucast (drop_bit (24 - 8 * k) (hash c3 ! i))) [0 ..< 4]) [0 ..< 8]),
                  sha256_zero)))))"

text \<open>The context of \<open>sha256\<close> is a local variable, whose content before \<open>sha256_init\<close> is \<open>c\<close>.\<close>

definition sha256 :: "sha256_ctx \<Rightarrow> u8 list \<Rightarrow> u8 list option" where
  "sha256 c p = Option.bind (sha256_update (sha256_init c) p) (\<lambda>c1. Option.bind (sha256_final c1) (\<lambda>(out, c2). Some out))"

text \<open>The context of \<open>sha256\<close> in \<open>hmac_sha256_init\<close> and \<open>outer\<close> are local variables too.\<close>

record hmac_ctx =
  inner :: sha256_ctx
  outer_key :: "u8 list"

definition hmac_sha256_init :: "sha256_ctx \<Rightarrow> hmac_ctx \<Rightarrow> u8 list \<Rightarrow> hmac_ctx option" where
  "hmac_sha256_init local h key =
     Option.bind (if length key > SHA256_BLOCK
                  then Option.bind (sha256 local key) (\<lambda>d. Some (memcpy_at (replicate SHA256_BLOCK 0) 0 d))
                  else Some (memcpy_at (replicate SHA256_BLOCK 0) 0 key)) (\<lambda>k.
     let inner_key = map (\<lambda>x. x XOR 0x36) k; h1 = h\<lparr>outer_key := map (\<lambda>x. x XOR 0x5c) k\<rparr>
     in Option.bind (sha256_update (sha256_init (inner h1)) inner_key) (\<lambda>c. Some (h1\<lparr>inner := c\<rparr>)))"

definition hmac_sha256_update :: "hmac_ctx \<Rightarrow> u8 list \<Rightarrow> hmac_ctx option" where
  "hmac_sha256_update h p = Option.bind (sha256_update (inner h) p) (\<lambda>c. Some (h\<lparr>inner := c\<rparr>))"

definition hmac_sha256_final :: "sha256_ctx \<Rightarrow> hmac_ctx \<Rightarrow> (u8 list \<times> hmac_ctx) option" where
  "hmac_sha256_final outer h =
     Option.bind (sha256_final (inner h)) (\<lambda>(d, c).
     Option.bind (sha256_update (sha256_init outer) (outer_key h)) (\<lambda>o1.
     Option.bind (sha256_update o1 d) (\<lambda>o2.
     Option.bind (sha256_final o2) (\<lambda>(out, o3).
       Some (out, \<lparr>inner = sha256_zero, outer_key = replicate SHA256_BLOCK 0\<rparr>)))))"

definition equal_secret :: "u8 list \<Rightarrow> u8 list \<Rightarrow> nat \<Rightarrow> bool" where
  "equal_secret a b len = (fold (\<lambda>i diff. diff OR (a ! i XOR b ! i)) [0 ..< len] 0 = 0)"

section \<open>Blocks\<close>

text \<open>The whole blocks of a byte string, the hash after them, and the bytes left over.\<close>

function blocks :: "u8 list \<Rightarrow> u8 list list" where
  "blocks p = (if length p < 64 then [] else take 64 p # blocks (drop 64 p))"
  by pat_completeness auto
termination by (relation "measure length") auto

declare blocks.simps [simp del]

definition absorb :: "u32 list \<Rightarrow> u8 list \<Rightarrow> u32 list" where
  "absorb hv p = fold (\<lambda>b hv. compress hv b) (blocks p) hv"

definition rest :: "u8 list \<Rightarrow> u8 list" where
  "rest p = drop (64 * (length p div 64)) p"

lemma blocks_short: "length p < 64 \<Longrightarrow> blocks p = []"
  by (simp add: blocks.simps)

lemma blocks_Cons: "length b = 64 \<Longrightarrow> blocks (b @ p) = b # blocks p"
  by (simp add: blocks.simps [of "b @ p"])

lemma absorb_short: "length p < 64 \<Longrightarrow> absorb hv p = hv"
  by (simp add: absorb_def blocks_short)

lemma absorb_Cons: "length b = 64 \<Longrightarrow> absorb hv (b @ p) = absorb (compress hv b) p"
  by (simp add: absorb_def blocks_Cons)

lemma rest_short: "length p < 64 \<Longrightarrow> rest p = p"
  by (simp add: rest_def)

lemma rest_Cons: "length b = 64 \<Longrightarrow> rest (b @ p) = rest p"
  by (simp add: rest_def div_add_self1)

lemma length_rest: "length (rest p) = length p mod 64"
  by (simp add: rest_def minus_mult_div_eq_mod)

lemma block_induct: "(\<And>p. length p < 64 \<Longrightarrow> P p) \<Longrightarrow> (\<And>b p. length b = 64 \<Longrightarrow> P p \<Longrightarrow> P (b @ p)) \<Longrightarrow> P p"
proof (induction "length p" arbitrary: p rule: less_induct)
  case less
  show ?case
  proof (cases "length p < 64")
    case False
    then have "P (take 64 p @ drop 64 p)" using less by (intro less.prems(2)) auto
    then show ?thesis by simp
  qed (rule less.prems(1))
qed

lemma absorb_append: "absorb hv (m @ p) = absorb (absorb hv m) (rest m @ p)"
  by (induction m arbitrary: hv rule: block_induct) (simp_all add: absorb_short rest_short absorb_Cons rest_Cons)

lemma rest_append: "rest (m @ p) = rest (rest m @ p)"
  by (induction m rule: block_induct) (simp_all add: rest_short rest_Cons)

section \<open>The loop\<close>

lemma memcpy_at_take: "off + length src \<le> length dst \<Longrightarrow> take (off + length src) (memcpy_at dst off src) = take off dst @ src"
  by (simp add: memcpy_at_def)

lemma memcpy_at_length [simp]: "off + length src \<le> length dst \<Longrightarrow> length (memcpy_at dst off src) = length dst"
  by (simp add: memcpy_at_def)

text \<open>One turn of the loop: \<open>q\<close> fits into the room left in the block.\<close>

definition fill :: "sha256_ctx \<Rightarrow> u8 list \<Rightarrow> sha256_ctx" where
  "fill c q =
     (let c1 = c\<lparr>chunk := memcpy_at (chunk c) (used c) q, used := used c + length q\<rparr>
      in if used c1 = SHA256_BLOCK then c1\<lparr>hash := compress (hash c1) (chunk c1), used := 0\<rparr> else c1)"

lemma update_loop_step:
  assumes "p \<noteq> []" "used c < 64"
  defines "n \<equiv> min (64 - used c) (length p)"
  shows "update_loop c p = update_loop (fill c (take n p)) (drop n p)"
proof -
  have n: "min (sub32 SHA256_BLOCK (used c)) (length p) = n"
    using room_left(1) [of "used c"] assms(2) by (simp add: SHA256_BLOCK_def n_def)
  have "\<not> used c + n > SHA256_BLOCK" "length (take n p) = n" using assms(2) by (auto simp: n_def SHA256_BLOCK_def)
  then show ?thesis using assms(1)
    by (subst update_loop.simps) (simp only: Let_def n fill_def if_False)
qed

text \<open>The context has taken in the bytes \<open>buf\<close> since its hash was \<open>hv\<close>.\<close>

definition filled :: "sha256_ctx \<Rightarrow> u32 list \<Rightarrow> u8 list \<Rightarrow> bool" where
  "filled c hv buf \<longleftrightarrow> hash c = absorb hv buf \<and> length (chunk c) = 64 \<and> used c = length buf mod 64
     \<and> take (used c) (chunk c) = rest buf"

lemma filled_fill:
  assumes "filled c hv buf" "used c + length q \<le> 64"
  shows "filled (fill c q) hv (buf @ q)"
proof -
  have take: "take (used c + length q) (memcpy_at (chunk c) (used c) q) = rest buf @ q" 
    and len: "length (memcpy_at (chunk c) (used c) q) = 64"
    using assms memcpy_at_take [of "used c" q "chunk c"] by (auto simp: filled_def)
  show ?thesis
  proof (cases "used c + length q = 64")
    case True
    then have "memcpy_at (chunk c) (used c) q = rest buf @ q" "length (rest buf @ q) = 64" using take len assms(1)
      by (simp_all add: filled_def length_rest)
    moreover have "(length buf + length q) mod 64 = 0"
      using True assms(1) mod_add_left_eq [of "length buf" 64 "length q"] by (simp add: filled_def)
    ultimately show ?thesis using assms(1) True absorb_Cons [of "rest buf @ q" _ "[]"] rest_Cons [of "rest buf @ q" "[]"]
      by (simp add: filled_def fill_def Let_def SHA256_BLOCK_def absorb_append [of hv buf q] rest_append [of buf q] absorb_short rest_short)
  next
    case False
    then have lt: "used c + length q < 64" using assms(2) by simp
    then have "(length buf + length q) mod 64 = used c + length q"
      using assms(1) mod_add_left_eq [of "length buf" 64 "length q"] by (simp add: filled_def)
    then show ?thesis using assms(1) False lt take len
      by (simp add: filled_def fill_def Let_def SHA256_BLOCK_def absorb_append [of hv buf q] rest_append [of buf q] absorb_short rest_short length_rest)
  qed
qed

lemma fill_bits [simp]: "bits_lo (fill c q) = bits_lo c" "bits_hi (fill c q) = bits_hi c"
  by (simp_all add: fill_def Let_def)

lemma update_loop_ok:
  assumes "filled c hv buf"
  shows "\<exists>c'. update_loop c p = Some c' \<and> filled c' hv (buf @ p) \<and> bits_lo c' = bits_lo c \<and> bits_hi c' = bits_hi c"
  using assms
proof (induction "length p" arbitrary: c p buf rule: less_induct)
  case less
  show ?case
  proof (cases "p = []")
    case True
    then show ?thesis using less.prems by (simp add: update_loop.simps)
  next
    case False
    define n where "n = min (64 - used c) (length p)"
    have used: "used c < 64" using less.prems by (simp add: filled_def)
    then have n: "0 < n" "used c + length (take n p) \<le> 64" using False by (auto simp: n_def)
    have "\<exists>c'. update_loop (fill c (take n p)) (drop n p) = Some c' \<and> filled c' hv ((buf @ take n p) @ drop n p)
        \<and> bits_lo c' = bits_lo (fill c (take n p)) \<and> bits_hi c' = bits_hi (fill c (take n p))"
      using False n by (intro less.hyps filled_fill less.prems) auto
    then show ?thesis unfolding update_loop_step [OF False used, folded n_def] by simp
  qed
qed

section \<open>The length\<close>

definition bit_count :: "sha256_ctx \<Rightarrow> nat" where
  "bit_count c = unat (bits_hi c) * 2 ^ 32 + unat (bits_lo c)"

lemma shift_mod: "y < M \<Longrightarrow> (X mod M) * M + y = (X * M + y) mod (M * M)" for X y M :: nat
  by (simp add: mod_mult2_eq mult.commute)

lemma bit_count_update:
  assumes "length p < 2 ^ 32"
  defines "add \<equiv> push_bit 3 (of_nat (length p)) :: u32"
  shows "(unat (bits_hi c + of_nat (length p div 2 ^ 29) + (if bits_lo c + add < bits_lo c then 1 else 0)) * 2 ^ 32
      + unat (bits_lo c + add)) = (bit_count c + 8 * length p) mod 2 ^ 64"
proof -
  define L where "L = length p"
  define M where "M = (2 ^ 32 :: nat)"
  define a where "a = 8 * L mod M"
  define lo where "lo = unat (bits_lo c)"
  define k where "k = (if lo + a \<ge> M then 1 else 0 :: nat)"
  have M2: "2 ^ 64 = M * M" "0 < M" by (simp_all add: M_def)
  have add: "unat add = a" unfolding add_def a_def L_def M_def
    by (simp add: push_bit_eq_mult unat_word_ariths unat_of_nat mod_simps mult.commute)
  have lt: "lo < M" "a < M" using unsigned_less [of "bits_lo c"] by (simp_all add: lo_def a_def M_def)
  have k: "k * M \<le> lo + a" "lo + a - k * M < M" using lt by (auto simp: k_def)
  have "unat (bits_lo c + add) = (lo + a) mod M" by (simp add: unat_word_ariths add lo_def M_def)
  also have "\<dots> = lo + a - k * M" using lt by (simp add: k_def le_mod_geq)
  finally have lo': "unat (bits_lo c + add) = lo + a - k * M" .
  have carry: "(if bits_lo c + add < bits_lo c then 1 else 0) = (of_nat k :: u32)"
    using lt lo' by (auto simp: word_less_nat_alt k_def lo_def)
  have hi: "unat (bits_hi c + of_nat (L div 2 ^ 29) + of_nat k) = (unat (bits_hi c) + L div 2 ^ 29 + k) mod M"
    by (simp add: unat_word_ariths unat_of_nat mod_simps M_def)
  have L8: "8 * L = L div 2 ^ 29 * M + a"
  proof -
    have "8 * L div M = L div 2 ^ 29" using div_mult2_eq [of "8 * L" 8 "2 ^ 29"] by (simp add: M_def)
    then show ?thesis using div_mult_mod_eq [of "8 * L" M] by (simp add: a_def)
  qed
  have "(unat (bits_hi c) + L div 2 ^ 29 + k) * M + (lo + a - k * M) = unat (bits_hi c) * M + lo + 8 * L"
    using k(1) unfolding L8 by (simp add: distrib_right)
  then show ?thesis using shift_mod [OF k(2), of "unat (bits_hi c) + L div 2 ^ 29 + k"]
    unfolding carry lo' bit_count_def L_def [symmetric] lo_def [symmetric] M2(1) M_def [symmetric] hi by simp
qed

text \<open>The context stands for the message \<open>m\<close>.\<close>

definition rep :: "sha256_ctx \<Rightarrow> u8 list \<Rightarrow> bool" where
  "rep c m \<longleftrightarrow> filled c H0 m \<and> bit_count c = 8 * length m mod 2 ^ 64"

lemma rep_init: "length (chunk c) = 64 \<Longrightarrow> rep (sha256_init c) []"
  by (simp add: rep_def filled_def sha256_init_def absorb_short rest_short bit_count_def)

lemma rep_update:
  assumes "rep c m" "length p < 2 ^ 32"
  shows "\<exists>c'. sha256_update c p = Some c' \<and> rep c' (m @ p)"
proof -
  define add where "add = (push_bit 3 (of_nat (length p)) :: u32)"
  define c1 where "c1 = c\<lparr>bits_hi := bits_hi c + of_nat (length p div 2 ^ 29) + (if bits_lo c + add < bits_lo c then 1 else 0),
      bits_lo := bits_lo c + add\<rparr>"
  have u: "sha256_update c p = update_loop c1 p" by (simp add: sha256_update_def c1_def add_def Let_def)
  have "filled c1 H0 m" using assms(1) by (auto simp: rep_def c1_def filled_def)
  from update_loop_ok [OF this, of p] obtain c' where c': "update_loop c1 p = Some c'" "filled c' H0 (m @ p)"
    "bits_lo c' = bits_lo c1" "bits_hi c' = bits_hi c1" by blast
  have "bit_count c' = (bit_count c + 8 * length p) mod 2 ^ 64"
    using bit_count_update [OF assms(2), of c] c'(3,4) by (simp add: bit_count_def c1_def add_def)
  also have "\<dots> = 8 * length (m @ p) mod 2 ^ 64"
    using assms(1) by (simp add: rep_def mod_simps algebra_simps)
  finally show ?thesis using c' u by (auto simp: rep_def)
qed

lemma pad_zeros_ok:
  assumes "rep c m" "(length m + d) mod 64 = 56" "d < 64"
  shows "\<exists>c'. pad_zeros c = Some c' \<and> rep c' (m @ replicate d 0)"
  using assms
proof (induction d arbitrary: c m)
  case 0
  then have "used c = 56" by (simp add: rep_def filled_def)
  then show ?case using 0 by (subst pad_zeros.simps) (simp add: SHA256_BLOCK_def)
next
  case (Suc d)
  have "used c \<noteq> 56"
  proof
    assume "used c = 56"
    then have "length m mod 64 = 56" using Suc.prems(1) by (simp add: rep_def filled_def)
    then have "(56 + Suc d) mod 64 = 56" using Suc.prems(2) by (metis mod_add_left_eq)
    moreover have "(56 + Suc d) mod 64 = (if Suc d < 8 then 56 + Suc d else Suc d - 8)"
      using Suc.prems(3) by (simp add: le_mod_geq)
    ultimately show False using Suc.prems(3) by (simp split: if_splits)
  qed
  moreover obtain c1 where c1: "sha256_update c [0] = Some c1" "rep c1 (m @ [0])"
    using rep_update [OF Suc.prems(1), of "[0]"] by auto
  moreover obtain c' where "pad_zeros c1 = Some c'" "rep c' ((m @ [0]) @ replicate d 0)"
    using Suc.IH [OF c1(2)] Suc.prems(2,3) by auto
  ultimately show ?case by (subst pad_zeros.simps) (auto simp: SHA256_BLOCK_def)
qed

section \<open>The standard\<close>

text \<open>FIPS 180-4, sections 4.1.2, 5.1.1 and 6.2.2.\<close>

definition Ch :: "u32 \<Rightarrow> u32 \<Rightarrow> u32 \<Rightarrow> u32" where "Ch x y z = (x AND y) XOR (NOT x AND z)"
definition Maj :: "u32 \<Rightarrow> u32 \<Rightarrow> u32 \<Rightarrow> u32" where "Maj x y z = (x AND y) XOR (x AND z) XOR (y AND z)"
definition Sum0 :: "u32 \<Rightarrow> u32" where "Sum0 x = word_rotr 2 x XOR word_rotr 13 x XOR word_rotr 22 x"
definition Sum1 :: "u32 \<Rightarrow> u32" where "Sum1 x = word_rotr 6 x XOR word_rotr 11 x XOR word_rotr 25 x"
definition sigma0 :: "u32 \<Rightarrow> u32" where "sigma0 x = word_rotr 7 x XOR word_rotr 18 x XOR drop_bit 3 x"
definition sigma1 :: "u32 \<Rightarrow> u32" where "sigma1 x = word_rotr 17 x XOR word_rotr 19 x XOR drop_bit 10 x"

text \<open>A word from four bytes, the first the most significant, and back.\<close>

definition word_of_bytes :: "u8 list \<Rightarrow> u32" where
  "word_of_bytes bs = of_nat (fold (\<lambda>b n. n * 256 + unat b) bs 0)"

definition be_bytes :: "nat \<Rightarrow> nat \<Rightarrow> u8 list" where
  "be_bytes k n = map (\<lambda>i. of_nat (n div 256 ^ (k - 1 - i))) [0 ..< k]"

function message_schedule :: "u8 list \<Rightarrow> nat \<Rightarrow> u32" where
  "message_schedule p t =
     (if t < 16 then word_of_bytes (take 4 (drop (4 * t) p))
      else sigma1 (message_schedule p (t - 2)) + message_schedule p (t - 7)
           + sigma0 (message_schedule p (t - 15)) + message_schedule p (t - 16))"
  by pat_completeness auto
termination by (relation "measure snd") auto

declare message_schedule.simps [simp del]

definition fips_round :: "u8 list \<Rightarrow> nat \<Rightarrow> working \<Rightarrow> working" where
  "fips_round p t v =
     (case v of (a, b, c, d, e, f, g, h) \<Rightarrow>
        let T1 = h + Sum1 e + Ch e f g + K ! t + message_schedule p t;
            T2 = Sum0 a + Maj a b c
        in (T1 + T2, a, b, c, d + T1, e, f, g))"

definition fips_compress :: "u32 list \<Rightarrow> u8 list \<Rightarrow> u32 list" where
  "fips_compress hv p =
     (case fold (fips_round p) [0 ..< 64] (hv ! 0, hv ! 1, hv ! 2, hv ! 3, hv ! 4, hv ! 5, hv ! 6, hv ! 7) of
        (a, b, c, d, e, f, g, h) \<Rightarrow> map2 (+) (take 8 hv) [a, b, c, d, e, f, g, h])"

definition fips_pad :: "u8 list \<Rightarrow> u8 list" where
  "fips_pad m = m @ [0x80] @ replicate ((119 - length m mod 64) mod 64) 0 @ be_bytes 8 (8 * length m)"

definition fips_sha256 :: "u8 list \<Rightarrow> u8 list" where
  "fips_sha256 m = concat (map (\<lambda>w. be_bytes 4 (unat w)) (fold (\<lambda>b hv. fips_compress hv b) (blocks (fips_pad m)) H0))"

lemma ror_rotr: "0 < n \<Longrightarrow> n < 32 \<Longrightarrow> ror x n = word_rotr n x"
proof -
  assume n: "0 < n" "n < 32"
  have "bit (ror x n) i = bit (word_rotr n x) i" if "i < 32" for i
    using n that by (cases "i + n < 32") (auto simp: ror_def bit_or_iff bit_drop_bit_eq bit_push_bit_iff bit_word_rotr_iff le_mod_geq add.commute dest: bit_imp_le_length)
  then show ?thesis by (intro bit_word_eqI) simp
qed

lemma or_disjoint: "x AND y = 0 \<Longrightarrow> x OR y = x + y" for x y :: "'a::len word"
  by (simp add: disjunctive_add_eq_or)

lemma be_word_sum:
  fixes b0 b1 b2 b3 :: u8
  shows "push_bit 24 (ucast b0) OR push_bit 16 (ucast b1) OR push_bit 8 (ucast b2) OR ucast b3
    = (of_nat (((unat b0 * 256 + unat b1) * 256 + unat b2) * 256 + unat b3) :: u32)"
proof -
  have lt: "\<not> bit b n" if "8 \<le> n" for b :: u8 and n using that bit_imp_le_length by fastforce
  have "push_bit 8 (ucast b2) AND ucast b3 = (0 :: u32)"
    "push_bit 16 (ucast b1) AND (push_bit 8 (ucast b2) OR ucast b3) = (0 :: u32)"
    "push_bit 24 (ucast b0) AND (push_bit 16 (ucast b1) OR push_bit 8 (ucast b2) OR ucast b3) = (0 :: u32)"
    by (rule bit_word_eqI; auto simp: bit_simps lt)+
  then have "push_bit 24 (ucast b0) OR push_bit 16 (ucast b1) OR push_bit 8 (ucast b2) OR ucast b3
      = push_bit 24 (ucast b0) + (push_bit 16 (ucast b1) + (push_bit 8 (ucast b2) + ucast b3) :: u32)"
    by (simp only: or_disjoint or.assoc)
  also have "\<dots> = of_nat (((unat b0 * 256 + unat b1) * 256 + unat b2) * 256 + unat b3)"
    by (simp add: push_bit_eq_mult algebra_simps)
  finally show ?thesis .
qed

lemma be_word_of_bytes: "4 * t + 4 \<le> length p \<Longrightarrow> be_word p t = word_of_bytes (take 4 (drop (4 * t) p))"
proof -
  assume "4 * t + 4 \<le> length p"
  then have "take 4 (drop (4 * t) p) = [p ! (4 * t), p ! (4 * t + 1), p ! (4 * t + 2), p ! (4 * t + 3)]"
    by (simp add: list_eq_iff_nth_eq nth_Cons less_Suc_eq_0_disj eval_nat_numeral split: nat.split)
  then show ?thesis by (simp add: be_word_def be_word_sum word_of_bytes_def del: of_nat_add of_nat_mult)
qed

lemma schedule_prefix:
  assumes "length p = 64" "16 \<le> n" "n \<le> 64"
  shows "fold schedule_step [16 ..< n] (map (be_word p) [0 ..< 16]) = map (message_schedule p) [0 ..< n]"
  using assms(2,3)
proof (induction n rule: dec_induct)
  case base
  show ?case using assms(1) by (simp add: message_schedule.simps be_word_of_bytes)
next
  case (step n)
  then show ?case
    by (simp add: schedule_step_def message_schedule.simps [of p n] sigma0_def sigma1_def ror_rotr Let_def add.commute add.left_commute)
qed

lemma compress_fips: "length p = 64 \<Longrightarrow> length hv = 8 \<Longrightarrow> compress hv p = fips_compress hv p"
proof -
  assume p: "length p = 64" and hv: "length hv = 8"
  have "round_step (schedule p) t v = fips_round p t v" if "t < 64" for t v
    using that schedule_prefix [OF p, of 64]
    by (simp add: round_step_def fips_round_def schedule_def Sum0_def Sum1_def Ch_def Maj_def ror_rotr Let_def split: prod.split)
  then have f: "fold (round_step (schedule p)) [0 ..< 64] v = fold (fips_round p) [0 ..< 64] v" for v
    by (intro fold_cong) auto
  obtain x0 x1 x2 x3 x4 x5 x6 x7 where "hv = [x0, x1, x2, x3, x4, x5, x6, x7]"
    using hv by (auto simp: length_Suc_conv eval_nat_numeral)
  then show ?thesis by (simp add: compress_def fips_compress_def f Let_def split: prod.split)
qed

lemma compress_length [simp]: "length (compress hv p) = 8"
  by (simp add: compress_def Let_def split: prod.split)

lemma blocks_length: "b \<in> set (blocks p) \<Longrightarrow> length b = 64"
  by (induction p rule: block_induct) (auto simp: blocks_short blocks_Cons)

lemma absorb_length: "length hv = 8 \<Longrightarrow> length (absorb hv p) = 8"
  by (induction p arbitrary: hv rule: block_induct) (simp_all add: absorb_short absorb_Cons)

lemma absorb_fips: "length hv = 8 \<Longrightarrow> absorb hv p = fold (\<lambda>b hv. fips_compress hv b) (blocks p) hv"
proof (induction p arbitrary: hv rule: block_induct)
  case (2 b p)
  have "absorb hv (b @ p) = fold (\<lambda>b hv. fips_compress hv b) (blocks p) (compress hv b)"
    using 2 by (simp add: absorb_Cons)
  then show ?case using 2 by (simp add: blocks_Cons compress_fips)
qed (simp add: absorb_short blocks_short)

lemma byte_of_word: "(ucast (drop_bit n w) :: u8) = of_nat (unat w div 2 ^ n)" for w :: u32
proof -
  have "unat (drop_bit n w) = unat w div 2 ^ n" using unat_drop_bit_eq [of n w] by (simp add: drop_bit_eq_div)
  then show ?thesis by (metis of_nat_unat)
qed

lemma be_bytes4: "map (\<lambda>k. ucast (drop_bit (24 - 8 * k) w)) [0 ..< 4] = be_bytes 4 (unat w)" for w :: u32
proof -
  have "(256 :: nat) ^ (4 - 1 - i) = 2 ^ (24 - 8 * i)" if "i < 4" for i
  proof -
    have "24 - 8 * i = 8 * (4 - 1 - i)" using that by simp
    then show ?thesis by (simp add: power_mult)
  qed
  then show ?thesis by (simp add: be_bytes_def byte_of_word)
qed

lemma be_bytes8: "be_bytes 8 (unat hi * 2 ^ 32 + unat lo) = be_bytes 4 (unat hi) @ be_bytes 4 (unat lo)" for hi lo :: u32
proof -
  have lo: "unat lo < 2 ^ 32" using unsigned_less [of lo] by simp
  have h: "(unat hi * 2 ^ 32 + unat lo) div (2 ^ 32 * d) = unat hi div d" for d :: nat
    using lo by (simp add: div_mult2_eq)
  have l: "(of_nat ((unat hi * 2 ^ 32 + unat lo) div d) :: u8) = of_nat (unat lo div d)" if "2 ^ 32 = 256 * e * d" "0 < d" for d e :: nat
  proof -
    have "(unat hi * 2 ^ 32 + unat lo) div d = unat hi * (256 * e) + unat lo div d"
      unfolding that(1) using that(2) by (simp add: div_add1_eq mult.assoc [symmetric])
    moreover have "(256 :: u8) = 0" by simp
    then have "(of_nat (unat hi * (256 * e)) :: u8) = 0"
      by (simp only: of_nat_mult of_nat_numeral mult_zero_left mult_zero_right)
    ultimately show ?thesis by simp
  qed
  have M: "(2 :: nat) ^ 32 = 256 ^ 4" by simp
  show ?thesis
  proof (rule nth_equalityI)
    fix i assume "i < length (be_bytes 8 (unat hi * 2 ^ 32 + unat lo))"
    then have i: "i < 8" by (simp add: be_bytes_def)
    show "be_bytes 8 (unat hi * 2 ^ 32 + unat lo) ! i = (be_bytes 4 (unat hi) @ be_bytes 4 (unat lo)) ! i"
    proof (cases "i < 4")
      case True
      then have "(256 :: nat) ^ (8 - 1 - i) = 2 ^ 32 * 256 ^ (4 - 1 - i)" unfolding M power_add [symmetric] by simp
      then show ?thesis using True h [of "256 ^ (4 - 1 - i)"] by (simp add: be_bytes_def nth_append del: power_numeral)
    next
      case False
      then have "(2 :: nat) ^ 32 = 256 * 256 ^ (i - 4) * 256 ^ (7 - i)"
        using i unfolding M power_Suc [symmetric] power_add [symmetric] by simp
      then have "(of_nat ((unat hi * 2 ^ 32 + unat lo) div 256 ^ (7 - i)) :: u8) = of_nat (unat lo div 256 ^ (7 - i))"
        by (rule l) simp
      moreover have "4 - 1 - (i - 4) = 7 - i" using False i by simp
      ultimately show ?thesis using False i by (simp add: be_bytes_def nth_append)
    qed
  qed (simp add: be_bytes_def)
qed

lemma map_nth_eq: "length xs = n \<Longrightarrow> map (\<lambda>i. f (xs ! i)) [0 ..< n] = map f xs"
  by (intro nth_equalityI) simp_all

lemma final_ok:
  assumes "rep c m" "length m < 2 ^ 61"
  shows "sha256_final c = Some (fips_sha256 m, sha256_zero)"
proof -
  define k where "k = (119 - length m mod 64) mod 64"
  define len8 :: "u8 list" where "len8 = map (\<lambda>i. ucast (drop_bit (24 - 8 * i) (bits_hi c))) [0 ..< 4]
      @ map (\<lambda>i. ucast (drop_bit (24 - 8 * i) (bits_lo c))) [0 ..< 4]"
  have len8: "len8 = be_bytes 8 (8 * length m)"
    using assms by (simp only: len8_def be_bytes4 be_bytes8 [symmetric]) (simp add: rep_def bit_count_def)
  obtain c1 where c1: "sha256_update c [0x80] = Some c1" "rep c1 (m @ [0x80])"
    using rep_update [OF assms(1), of "[0x80]"] by auto
  have k: "(length (m @ [0x80]) + k) mod 64 = 56" "k < 64"
  proof -
    define q r where "q = length m div 64" and "r = length m mod 64"
    have "r < 64" by (simp add: r_def)
    then have "k = (if r \<le> 55 then 55 - r else 119 - r)" by (auto simp: k_def r_def [symmetric] le_mod_geq)
    moreover have "length m = q * 64 + r" by (simp add: q_def r_def)
    ultimately have "length (m @ [0x80]) + k = q * 64 + 56 \<or> length (m @ [0x80]) + k = (q + 1) * 64 + 56"
      using \<open>r < 64\<close> by auto
    then show "(length (m @ [0x80]) + k) mod 64 = 56" by auto
    show "k < 64" by (simp add: k_def)
  qed
  obtain c2 where c2: "pad_zeros c1 = Some c2" "rep c2 ((m @ [0x80]) @ replicate k 0)"
    using pad_zeros_ok [OF c1(2) k] by blast
  obtain c3 where c3: "sha256_update c2 len8 = Some c3" "rep c3 (fips_pad m)"
    using rep_update [OF c2(2), of len8] by (auto simp: len8 fips_pad_def k_def be_bytes_def)
  then have "hash c3 = fold (\<lambda>b hv. fips_compress hv b) (blocks (fips_pad m)) H0" "length (hash c3) = 8"
    using absorb_fips [of H0 "fips_pad m"] absorb_length [of H0 "fips_pad m"] by (simp_all add: rep_def filled_def H0_def)
  moreover have "len8 = be_bytes 4 (unat (bits_hi c)) @ be_bytes 4 (unat (bits_lo c))" by (simp only: len8_def be_bytes4)
  ultimately show ?thesis using c1 c2 c3(1)
    by (simp add: sha256_final_def Let_def fips_sha256_def be_bytes4 map_nth_eq [where n = 8 and f = "\<lambda>w. be_bytes 4 (unat w)"])
qed

section \<open>Correctness\<close>

text \<open>A message in any number of pieces.\<close>

fun sha256_updates :: "sha256_ctx \<Rightarrow> u8 list list \<Rightarrow> sha256_ctx option" where
  "sha256_updates c [] = Some c"
| "sha256_updates c (p # ps) = Option.bind (sha256_update c p) (\<lambda>c1. sha256_updates c1 ps)"

lemma rep_updates:
  "rep c m \<Longrightarrow> list_all (\<lambda>p. length p < 2 ^ 32) ps \<Longrightarrow> \<exists>c'. sha256_updates c ps = Some c' \<and> rep c' (m @ concat ps)"
proof (induction ps arbitrary: c m)
  case (Cons p ps)
  then obtain c1 where "sha256_update c p = Some c1" "rep c1 (m @ p)" using rep_update [of c m p] by auto
  then show ?case using Cons.IH [of c1 "m @ p"] Cons.prems(2) by auto
qed simp

lemma sha256_updates_final:
  assumes "length (chunk c) = 64" "list_all (\<lambda>p. length p < 2 ^ 32) ps" "length (concat ps) < 2 ^ 61"
  shows "Option.bind (sha256_updates (sha256_init c) ps) sha256_final = Some (fips_sha256 (concat ps), sha256_zero)"
  using rep_updates [OF rep_init [OF assms(1)] assms(2)] final_ok [OF _ assms(3)] by auto

lemma sha256_ok: "length (chunk c) = 64 \<Longrightarrow> length p < 2 ^ 32 \<Longrightarrow> sha256 c p = Some (fips_sha256 p)"
  using sha256_updates_final [of c "[p]"] by (auto simp: sha256_def bind_eq_Some_conv)

text \<open>
  C5: Fed with a message in any number of pieces, of any lengths below 4 GiB, and then finished,
  the hash is the SHA-256 of the whole message as FIPS 180-4 defines it, for every message below
  2 EiB, and the context ends up zeroed. In particular the loops end, the buffered block is
  never overrun and the 64-bit length counter carries between its halves.
\<close>

theorem sha256_correct:
  assumes "length (chunk c) = SHA256_BLOCK" "list_all (\<lambda>p. length p < 2 ^ 32) ps" "length (concat ps) < 2 ^ 61"
  shows "Option.bind (sha256_updates (sha256_init c) ps) sha256_final = Some (fips_sha256 (concat ps), sha256_zero)"
  using assms by (simp only: SHA256_BLOCK_def sha256_updates_final)

theorem sha256_correct_witness:
  "Option.bind (sha256_updates (sha256_init sha256_zero) [[0x61], [0x62, 0x63]]) sha256_final
     = Some (fips_sha256 [0x61, 0x62, 0x63], sha256_zero)"
  using sha256_correct [of sha256_zero "[[0x61], [0x62, 0x63]]"] by (simp add: sha256_zero_def)

text \<open>RFC 2104, section 2.\<close>

definition hmac_key :: "u8 list \<Rightarrow> u8 list" where
  "hmac_key key = (let k = (if length key > 64 then fips_sha256 key else key) in k @ replicate (64 - length k) 0)"

definition rfc_hmac :: "u8 list \<Rightarrow> u8 list \<Rightarrow> u8 list" where
  "rfc_hmac key m =
     fips_sha256 (map (\<lambda>x. x XOR 0x5c) (hmac_key key) @ fips_sha256 (map (\<lambda>x. x XOR 0x36) (hmac_key key) @ m))"

fun hmac_updates :: "hmac_ctx \<Rightarrow> u8 list list \<Rightarrow> hmac_ctx option" where
  "hmac_updates h [] = Some h"
| "hmac_updates h (p # ps) = Option.bind (hmac_sha256_update h p) (\<lambda>h1. hmac_updates h1 ps)"

lemma fips_length: "length (fips_sha256 m) = 32"
proof -
  define hv where "hv = fold (\<lambda>b hv. fips_compress hv b) (blocks (fips_pad m)) H0"
  have "length hv = 8" using absorb_fips [of H0 "fips_pad m"] absorb_length [of H0 "fips_pad m"] by (simp add: hv_def H0_def)
  then show ?thesis by (simp add: fips_sha256_def hv_def [symmetric] length_concat be_bytes_def comp_def sum_list_triv)
qed

lemma hmac_updates_ok:
  "rep (inner h) m \<Longrightarrow> list_all (\<lambda>p. length p < 2 ^ 32) ps
   \<Longrightarrow> \<exists>h'. hmac_updates h ps = Some h' \<and> rep (inner h') (m @ concat ps) \<and> outer_key h' = outer_key h"
proof (induction ps arbitrary: h m)
  case (Cons p ps)
  then obtain c where c: "sha256_update (inner h) p = Some c" "rep c (m @ p)" using rep_update [of "inner h" m p] by auto
  then show ?case using Cons.IH [of "h\<lparr>inner := c\<rparr>" "m @ p"] Cons.prems(2)
    by (auto simp: hmac_sha256_update_def)
qed simp

lemma hmac_key_length: "length (hmac_key key) = 64"
  by (simp add: hmac_key_def fips_length Let_def)

lemma hmac_init_ok:
  assumes "length (chunk local) = 64" "length (chunk (inner h)) = 64" "length key < 2 ^ 32"
  shows "\<exists>h1. hmac_sha256_init local h key = Some h1 \<and> rep (inner h1) (map (\<lambda>x. x XOR 0x36) (hmac_key key))
    \<and> outer_key h1 = map (\<lambda>x. x XOR 0x5c) (hmac_key key)"
proof -
  have "(if length key > SHA256_BLOCK
         then Option.bind (sha256 local key) (\<lambda>d. Some (memcpy_at (replicate SHA256_BLOCK 0) 0 d))
         else Some (memcpy_at (replicate SHA256_BLOCK 0) 0 key)) = Some (hmac_key key)"
    using assms by (simp add: sha256_ok hmac_key_def memcpy_at_def SHA256_BLOCK_def Let_def)
  moreover obtain c where "sha256_update (sha256_init (inner h)) (map (\<lambda>x. x XOR 0x36) (hmac_key key)) = Some c"
    "rep c (map (\<lambda>x. x XOR 0x36) (hmac_key key))"
    using rep_update [OF rep_init [OF assms(2)], of "map (\<lambda>x. x XOR 0x36) (hmac_key key)"] by (auto simp: hmac_key_length)
  ultimately show ?thesis by (simp add: hmac_sha256_init_def Let_def)
qed

text \<open>
  C28: Keyed hashing: initialised with a key of any length, fed in pieces and finished, it is the HMAC
  of RFC 2104 over SHA-256, a key longer than a block being hashed first.
\<close>

theorem hmac_correct:
  assumes "length (chunk local) = SHA256_BLOCK" "length (chunk outer) = SHA256_BLOCK" "length (chunk (inner h)) = SHA256_BLOCK"
    and "length key < 2 ^ 32" "list_all (\<lambda>p. length p < 2 ^ 32) ps" "length (concat ps) < 2 ^ 60"
  shows "\<exists>h'. Option.bind (Option.bind (hmac_sha256_init local h key) (\<lambda>h1. hmac_updates h1 ps)) (hmac_sha256_final outer)
    = Some (rfc_hmac key (concat ps), h')"
proof -
  define ik ok where "ik = map (\<lambda>x. x XOR 0x36) (hmac_key key)" and "ok = map (\<lambda>x. x XOR 0x5c) (hmac_key key)"
  have len: "length ik = 64" "length ok = 64" by (simp_all add: ik_def ok_def hmac_key_length)
  obtain h1 where h1: "hmac_sha256_init local h key = Some h1" "rep (inner h1) ik" "outer_key h1 = ok"
    using hmac_init_ok [of local h key] assms(1,3,4) by (auto simp: ik_def ok_def SHA256_BLOCK_def)
  obtain h2 where h2: "hmac_updates h1 ps = Some h2" "rep (inner h2) (ik @ concat ps)" "outer_key h2 = ok"
    using hmac_updates_ok [OF h1(2) assms(5)] h1(3) by auto
  define d where "d = fips_sha256 (ik @ concat ps)"
  have f1: "sha256_final (inner h2) = Some (d, sha256_zero)" using final_ok [OF h2(2)] assms(6) len by (simp add: d_def)
  obtain o1 where o1: "sha256_update (sha256_init outer) ok = Some o1" "rep o1 ok"
    using rep_update [OF rep_init, of outer ok] assms(2) len by (auto simp: SHA256_BLOCK_def)
  obtain o2 where o2: "sha256_update o1 d = Some o2" "rep o2 (ok @ d)"
    using rep_update [OF o1(2), of d] by (auto simp: d_def fips_length)
  have "sha256_final o2 = Some (fips_sha256 (ok @ d), sha256_zero)" using final_ok [OF o2(2)] len by (simp add: d_def fips_length)
  then show ?thesis using h1 h2 f1 o1 o2
    by (simp add: hmac_sha256_final_def rfc_hmac_def d_def ik_def ok_def)
qed

theorem hmac_correct_witness:
  "\<exists>h'. Option.bind (Option.bind (hmac_sha256_init sha256_zero \<lparr>inner = sha256_zero, outer_key = []\<rparr> [0x4a]) (\<lambda>h1. hmac_updates h1 [[0x61]]))
      (hmac_sha256_final sha256_zero) = Some (rfc_hmac [0x4a] [0x61], h')"
  using hmac_correct [of sha256_zero sha256_zero "\<lparr>inner = sha256_zero, outer_key = []\<rparr>" "[0x4a]" "[[0x61]]"]
  by (simp add: sha256_zero_def)

section \<open>The constants\<close>

text \<open>
  \<open>k\<close> is the first 32 bits of the fractional part of the \<open>r\<close>-th root of \<open>p\<close>, whose integral part
  is \<open>i\<close>; and the first primes with these integral parts.
\<close>

definition root_bits :: "nat \<Rightarrow> u32 \<Rightarrow> nat \<times> nat \<Rightarrow> bool" where
  "root_bits r k ip = (case ip of (i, p) \<Rightarrow>
     (i * 2 ^ 32 + unat k) ^ r \<le> p * 2 ^ (32 * r) \<and> p * 2 ^ (32 * r) < (i * 2 ^ 32 + unat k + 1) ^ r)"

definition primes_cube :: "(nat \<times> nat) list" where
  "primes_cube = [
    (1, 2), (1, 3), (1, 5), (1, 7), (2, 11), (2, 13), (2, 17), (2, 19), (2, 23), (3, 29), (3, 31),
    (3, 37), (3, 41), (3, 43), (3, 47), (3, 53), (3, 59), (3, 61), (4, 67), (4, 71), (4, 73), (4, 79),
    (4, 83), (4, 89), (4, 97), (4, 101), (4, 103), (4, 107), (4, 109), (4, 113), (5, 127), (5, 131),
    (5, 137), (5, 139), (5, 149), (5, 151), (5, 157), (5, 163), (5, 167), (5, 173), (5, 179), (5, 181),
    (5, 191), (5, 193), (5, 197), (5, 199), (5, 211), (6, 223), (6, 227), (6, 229), (6, 233), (6, 239),
    (6, 241), (6, 251), (6, 257), (6, 263), (6, 269), (6, 271), (6, 277), (6, 281), (6, 283), (6, 293),
    (6, 307), (6, 311)]"

definition primes_square :: "(nat \<times> nat) list" where
  "primes_square = [
    (1, 2), (1, 3), (2, 5), (2, 7), (3, 11), (3, 13), (4, 17), (4, 19)]"

lemma K_roots: "list_all2 (root_bits 3) K primes_cube"
  by (simp add: K_def primes_cube_def root_bits_def)

lemma H0_roots: "list_all2 (root_bits 2) H0 primes_square"
  by (simp add: H0_def primes_square_def root_bits_def)

text \<open>
  The tables of the hash are those of the standard: the first 32 bits of the fractional parts of
  the cube roots of the first 64 primes and of the square roots of the first 8.
\<close>

theorem sha256_constants: "list_all2 (root_bits 3) K primes_cube \<and> list_all2 (root_bits 2) H0 primes_square"
  by (intro conjI K_roots H0_roots)

section \<open>Comparing secrets\<close>

lemma xor_zero: "a XOR b = 0 \<longleftrightarrow> a = b" for a b :: u8
proof
  assume "a XOR b = 0"
  then have "(a XOR b) XOR b = 0 XOR b" by simp
  then show "a = b" by (simp add: xor.assoc)
qed simp

lemma equal_secret_fold: "fold (\<lambda>i diff. diff OR (a ! i XOR b ! i)) [0 ..< n] d = 0 \<longleftrightarrow> d = 0 \<and> (\<forall>i < n. a ! i = b ! i)"
  for a b :: "u8 list"
  by (induction n arbitrary: d) (auto simp: or_eq_0_iff xor_zero less_Suc_eq)

text \<open>
  The comparison of two secrets, which always reads all their bytes, is equality of the bytes
  compared.
\<close>

theorem equal_secret_correct:
  assumes "len \<le> length a" "len \<le> length b"
  shows "equal_secret a b len \<longleftrightarrow> take len a = take len b"
proof -
  have "equal_secret a b len \<longleftrightarrow> (\<forall>i < len. a ! i = b ! i)" by (simp add: equal_secret_def equal_secret_fold)
  then show ?thesis using assms by (auto simp: list_eq_iff_nth_eq)
qed

theorem equal_secret_correct_witness: "\<not> equal_secret [0x73, 0x6d] [0x73, 0x6e] 2"
  using equal_secret_correct [of 2 "[0x73, 0x6d]" "[0x73, 0x6e]"] by simp

end
