(* ===== verification/Kstring.thy ===== *)
theory Kstring
  imports Zkt_Prelude
begin

text \<open>
  The kernel's C library routines, \<open>zkt/kernel/kstring.c\<close>, on a flat memory of bytes: each loop
  reads and writes one byte at a time in the order of the source, so that overlapping operands
  behave as they do in the code. A string routine that finds no terminator does not return
  (\<open>None\<close>).
\<close>

type_synonym ram = "nat \<Rightarrow> u8"

section \<open>The routines\<close>

fun memset :: "ram \<Rightarrow> nat \<Rightarrow> u32 \<Rightarrow> nat \<Rightarrow> ram" where
  "memset m d c 0 = m"
| "memset m d c (Suc n) = memset (m(d := ucast c)) (d + 1) c n"

text \<open>The loop of \<open>memcpy\<close>, which is also the first of \<open>memmove\<close>; and the second of \<open>memmove\<close>.\<close>

fun copy_up :: "ram \<Rightarrow> nat \<Rightarrow> nat \<Rightarrow> nat \<Rightarrow> ram" where
  "copy_up m d s 0 = m"
| "copy_up m d s (Suc n) = copy_up (m(d := m s)) (d + 1) (s + 1) n"

fun copy_down :: "ram \<Rightarrow> nat \<Rightarrow> nat \<Rightarrow> nat \<Rightarrow> ram" where
  "copy_down m d s 0 = m"
| "copy_down m d s (Suc n) = copy_down (m(d - 1 := m (s - 1))) (d - 1) (s - 1) n"

definition memcpy :: "ram \<Rightarrow> nat \<Rightarrow> nat \<Rightarrow> nat \<Rightarrow> ram" where
  "memcpy m dst src n = copy_up m dst src n"

definition memmove :: "ram \<Rightarrow> nat \<Rightarrow> nat \<Rightarrow> nat \<Rightarrow> ram" where
  "memmove m dst src n = (if dst < src then copy_up m dst src n else copy_down m (dst + n) (src + n) n)"

fun memcmp :: "ram \<Rightarrow> nat \<Rightarrow> nat \<Rightarrow> nat \<Rightarrow> int" where
  "memcmp m x y 0 = 0"
| "memcmp m x y (Suc n) =
     (if m x \<noteq> m y then (if m x < m y then - 1 else 1) else memcmp m (x + 1) (y + 1) n)"

partial_function (option) strlen_from :: "ram \<Rightarrow> nat \<Rightarrow> nat \<Rightarrow> nat option" where
  "strlen_from m s n = (if m (s + n) \<noteq> 0 then strlen_from m s (n + 1) else Some n)"

definition strlen :: "ram \<Rightarrow> nat \<Rightarrow> nat option" where
  "strlen m s = strlen_from m s 0"

partial_function (option) strcmp :: "ram \<Rightarrow> nat \<Rightarrow> nat \<Rightarrow> int option" where
  "strcmp m a b =
     (if m a \<noteq> 0 \<and> m a = m b then strcmp m (a + 1) (b + 1) else Some (uint (m a) - uint (m b)))"

fun strncmp :: "ram \<Rightarrow> nat \<Rightarrow> nat \<Rightarrow> nat \<Rightarrow> int" where
  "strncmp m a b 0 = 0"
| "strncmp m a b (Suc n) =
     (if m a \<noteq> m b \<or> m a = 0 then uint (m a) - uint (m b) else strncmp m (a + 1) (b + 1) n)"

definition strlcpy :: "ram \<Rightarrow> nat \<Rightarrow> nat \<Rightarrow> nat \<Rightarrow> (nat \<times> ram) option" where
  "strlcpy m dst src sz = Option.bind (strlen m src) (\<lambda>len.
     if sz \<noteq> 0
     then let n = (if len < sz - 1 then len else sz - 1)
          in Some (len, (memcpy m dst src n)(dst + n := 0))
     else Some (len, m))"

section \<open>What is in memory\<close>

definition bytes_at :: "ram \<Rightarrow> nat \<Rightarrow> nat \<Rightarrow> u8 list" where
  "bytes_at m a n = map m [a ..< a + n]"

text \<open>The string \<open>bs\<close> is at \<open>s\<close>.\<close>

definition cstring :: "ram \<Rightarrow> nat \<Rightarrow> u8 list \<Rightarrow> bool" where
  "cstring m s bs \<longleftrightarrow> 0 \<notin> set bs \<and> bytes_at m s (length bs) = bs \<and> m (s + length bs) = 0"

definition apart :: "nat \<Rightarrow> nat \<Rightarrow> nat \<Rightarrow> nat \<Rightarrow> bool" where
  "apart a n b k \<longleftrightarrow> a + n \<le> b \<or> b + k \<le> a"

text \<open>Memory after the \<open>n\<close> bytes at \<open>s\<close> have been moved to \<open>d\<close> at once.\<close>

definition moved :: "ram \<Rightarrow> nat \<Rightarrow> nat \<Rightarrow> nat \<Rightarrow> ram" where
  "moved m d s n = (\<lambda>a. if d \<le> a \<and> a < d + n then m (s + (a - d)) else m a)"

lemma length_bytes_at [simp]: "length (bytes_at m a n) = n"
  by (simp add: bytes_at_def)

lemma bytes_at_nth [simp]: "i < n \<Longrightarrow> bytes_at m a n ! i = m (a + i)"
  by (simp add: bytes_at_def)

lemma bytes_at_0 [simp]: "bytes_at m a 0 = []"
  by (simp add: bytes_at_def)

lemma bytes_at_Suc: "bytes_at m a (Suc n) = m a # bytes_at m (Suc a) n"
  by (simp add: bytes_at_def upt_rec)

lemma bytes_at_add: "bytes_at m a (n + k) = bytes_at m a n @ bytes_at m (a + n) k"
  by (rule nth_equalityI) (auto simp: nth_append)

lemma bytes_at_eqI: "(\<And>i. i < n \<Longrightarrow> m (a + i) = m' (b + i)) \<Longrightarrow> bytes_at m a n = bytes_at m' b n"
  by (rule nth_equalityI) auto

lemma bytes_at_eq_iff: "bytes_at m a n = bytes_at m' b n \<longleftrightarrow> (\<forall>i<n. m (a + i) = m' (b + i))"
  by (metis bytes_at_eqI bytes_at_nth)

lemma cstring_Nil: "cstring m s [] \<longleftrightarrow> m s = 0"
  by (simp add: cstring_def)

lemma cstring_Cons: "cstring m s (b # bs) \<longleftrightarrow> b \<noteq> 0 \<and> m s = b \<and> cstring m (Suc s) bs"
  by (auto simp: cstring_def bytes_at_Suc)

lemmas cstring_simps = cstring_Nil cstring_Cons

section \<open>Copies\<close>

lemma memset_eq: "memset m d c n = (\<lambda>a. if d \<le> a \<and> a < d + n then ucast c else m a)"
proof (induction m d c n rule: memset.induct)
  case (1 m d c)
  show ?case by (rule ext) auto
next
  case (2 m d c n)
  show ?case unfolding memset.simps 2 by (rule ext) auto
qed

lemma copy_up_eq: "d \<le> s \<or> apart d n s n \<Longrightarrow> copy_up m d s n = moved m d s n"
proof (induction m d s n rule: copy_up.induct)
  case (1 m d s)
  show ?case by (rule ext) (auto simp: moved_def)
next
  case (2 m d s n)
  then have "d + 1 \<le> s + 1 \<or> apart (d + 1) n (s + 1) n" by (auto simp: apart_def)
  then have "copy_up m d s (Suc n) = moved (m(d := m s)) (d + 1) (s + 1) n"
    using 2(1) by (simp add: fun_upd_def)
  also have "\<dots> = moved m d s (Suc n)"
    using 2(2) by (intro ext) (auto simp: moved_def apart_def Suc_diff_Suc)
  finally show ?case .
qed

lemma copy_down_eq: "s \<le> d \<Longrightarrow> copy_down m (d + n) (s + n) n = moved m d s n"
proof (induction n arbitrary: m)
  case 0
  show ?case by (rule ext) (auto simp: moved_def)
next
  case (Suc n)
  have "copy_down m (d + Suc n) (s + Suc n) (Suc n) = moved (m(d + n := m (s + n))) d s n"
    using Suc by simp
  also have "\<dots> = moved m d s (Suc n)"
    using Suc.prems by (auto simp: moved_def fun_eq_iff)
  finally show ?case .
qed

lemma memcpy_eq: "apart dst n src n \<Longrightarrow> memcpy m dst src n = moved m dst src n"
  by (simp add: memcpy_def copy_up_eq)

lemma moved_bytes [simp]: "bytes_at (moved m d s n) d n = bytes_at m s n"
  by (rule bytes_at_eqI) (simp add: moved_def)

lemma moved_elsewhere: "\<not> (d \<le> a \<and> a < d + n) \<Longrightarrow> moved m d s n a = m a"
  by (auto simp: moved_def)

lemma memcpy_outside: "\<not> (d \<le> a \<and> a < d + n) \<Longrightarrow> memcpy m d s n a = m a"
  unfolding memcpy_def by (induction m d s n rule: copy_up.induct) auto

section \<open>Strings\<close>

lemma strlen_from_cstring: "cstring m (s + n) bs \<Longrightarrow> strlen_from m s n = Some (n + length bs)"
proof (induction bs arbitrary: n)
  case Nil
  then show ?case by (subst strlen_from.simps) (simp add: cstring_simps)
next
  case (Cons b bs)
  from Cons.IH [of "n + 1"] Cons.prems show ?case
    by (subst strlen_from.simps) (simp add: cstring_simps)
qed

lemma strlen_cstring: "cstring m s bs \<Longrightarrow> strlen m s = Some (length bs)"
  using strlen_from_cstring [of m s 0 bs] by (simp add: strlen_def)

definition byte_order :: "(u8 \<times> u8) set" where
  "byte_order = {(x, y). x < y}"

lemma byte_pos: "b \<noteq> 0 \<Longrightarrow> 0 < uint b" for b :: u8
  using unsigned_eq_0_iff [of b, where 'a = int] unsigned_greater_eq [of b, where 'a = int] by linarith

lemma byte_order_irrefl: "(x, x) \<notin> byte_order"
  by (simp add: byte_order_def)

lemma strcmp_cstring:
  "cstring m a xs \<Longrightarrow> cstring m b ys \<Longrightarrow>
   \<exists>r. strcmp m a b = Some r \<and> (r = 0 \<longleftrightarrow> xs = ys) \<and> (r < 0 \<longleftrightarrow> (xs, ys) \<in> lexord byte_order)"
proof (induction xs arbitrary: a b ys)
  case Nil
  then show ?case
    by (cases ys; subst strcmp.simps) (auto simp: cstring_simps byte_pos dest: byte_pos)
next
  case (Cons x xs)
  show ?case
  proof (cases ys)
    case Nil
    with Cons.prems show ?thesis
      by (subst strcmp.simps) (auto simp: cstring_simps dest: byte_pos)
  next
    case (Cons y zs)
    note ys = this
    show ?thesis
    proof (cases "x = y")
      case True
      with Cons.IH [of "a + 1" "b + 1" zs] Cons.prems ys show ?thesis
        by (subst strcmp.simps) (auto simp: cstring_simps byte_order_irrefl)
    next
      case False
      with Cons.prems ys show ?thesis
        by (subst strcmp.simps) (auto simp: cstring_simps byte_order_def word_less_def unsigned_word_eqI)
    qed
  qed
qed

lemma strncmp_cstring:
  "cstring m a xs \<Longrightarrow> cstring m b ys \<Longrightarrow>
   (strncmp m a b n = 0 \<longleftrightarrow> take n xs = take n ys)
   \<and> (strncmp m a b n < 0 \<longleftrightarrow> (take n xs, take n ys) \<in> lexord byte_order)"
proof (induction m a b n arbitrary: xs ys rule: strncmp.induct)
  case (1 m a b)
  then show ?case by simp
next
  case (2 m a b n)
  show ?case
  proof (cases xs)
    case Nil
    with 2 show ?thesis by (cases ys) (auto simp: cstring_simps byte_pos dest: byte_pos)
  next
    case (Cons x xs')
    note xs = this
    show ?thesis
    proof (cases ys)
      case Nil
      with 2 xs show ?thesis by (auto simp: cstring_simps dest: byte_pos)
    next
      case (Cons y ys')
      with 2 xs show ?thesis
        by (cases "x = y") (auto simp: cstring_simps byte_order_def word_less_def unsigned_word_eqI)
    qed
  qed
qed

text \<open>
  C37: \<open>memmove\<close> moves its bytes as if they had all been read before any is written, for every
  overlap of source and destination, and touches no other byte.
\<close>

theorem memmove_correct: "memmove m dst src n = (\<lambda>a. if dst \<le> a \<and> a < dst + n then m (src + (a - dst)) else m a)"
  unfolding memmove_def using copy_up_eq [of dst src n m] copy_down_eq [of src dst m n]
  by (auto simp: moved_def)

text \<open>
  C38: \<open>strlcpy\<close> of a string whose buffer is elsewhere returns the length of the source, leaves in
  the buffer the longest prefix that fits with its terminator, and writes no byte outside the
  given size, for every size including zero.
\<close>

theorem strlcpy_bounded:
  assumes "cstring m src bs" and "apart dst sz src (length bs)"
  shows "\<exists>m'. strlcpy m dst src sz = Some (length bs, m')
    \<and> (0 < sz \<longrightarrow> cstring m' dst (take (sz - 1) bs))
    \<and> (\<forall>a. \<not> (dst \<le> a \<and> a < dst + sz) \<longrightarrow> m' a = m a)"
proof (cases "sz = 0")
  case True
  then show ?thesis using strlen_cstring [OF assms(1)] by (simp add: strlcpy_def)
next
  case False
  define n where "n = min (length bs) (sz - 1)"
  define m' where "m' = (moved m dst src n)(dst + n := 0)"
  have "apart dst n src n" using assms(2) False by (auto simp: apart_def n_def)
  then have "strlcpy m dst src sz = Some (length bs, m')"
    using False strlen_cstring [OF assms(1)] memcpy_eq [of dst n src m]
    by (auto simp: strlcpy_def m'_def Let_def n_def min_def split: if_splits)
  moreover have "bytes_at m' dst n = bytes_at m src n"
    by (rule bytes_at_eqI) (simp add: m'_def moved_def)
  moreover have "bytes_at m src n = take (sz - 1) bs"
    using assms(1) by (intro nth_equalityI) (auto simp: cstring_def n_def bytes_at_eq_iff list_eq_iff_nth_eq)
  moreover have "m' (dst + n) = 0" by (simp add: m'_def)
  moreover have "0 \<notin> set (take (sz - 1) bs)" using assms(1) by (auto simp: cstring_def dest: in_set_takeD)
  moreover have "length (take (sz - 1) bs) = n" by (simp add: n_def)
  moreover have "\<forall>a. \<not> (dst \<le> a \<and> a < dst + sz) \<longrightarrow> m' a = m a"
    using False by (auto simp: m'_def moved_def n_def)
  ultimately show ?thesis by (auto simp: cstring_def)
qed

theorem strlcpy_bounded_witness:
  "\<exists>m'. strlcpy (\<lambda>a. if a = 10 then 104 else if a = 11 then 105 else 0) 20 10 2 = Some (2, m') \<and> cstring m' 20 [104] \<and> m' 22 = 0"
proof -
  let ?m = "\<lambda>a :: nat. if a = 10 then 104 else if a = 11 then 105 else (0 :: u8)"
  have "cstring ?m 10 [104, 105]" by (simp add: cstring_simps)
  moreover have "apart 20 2 10 (length [104, 105 :: u8])" by (simp add: apart_def)
  ultimately obtain m' where "strlcpy ?m 20 10 2 = Some (length [104, 105 :: u8], m')"
    "cstring m' 20 (take (2 - 1) [104, 105])" "m' 22 = ?m 22"
    using strlcpy_bounded [of ?m 10 "[104, 105]" 20 2] by auto
  then show ?thesis by auto
qed

text \<open>
  C39: on two strings \<open>strcmp\<close> always returns, and its sign is the order of the strings byte by
  byte; \<open>strncmp\<close> gives the order of their prefixes.
\<close>

theorem strcmp_order:
  assumes "cstring m a xs" and "cstring m b ys"
  shows "\<exists>r. strcmp m a b = Some r
    \<and> (r = 0 \<longleftrightarrow> xs = ys) \<and> (r < 0 \<longleftrightarrow> (xs, ys) \<in> lexord {(x, y). x < y})
    \<and> (strncmp m a b n = 0 \<longleftrightarrow> take n xs = take n ys)
    \<and> (strncmp m a b n < 0 \<longleftrightarrow> (take n xs, take n ys) \<in> lexord {(x, y). x < y})"
  using strcmp_cstring [OF assms] strncmp_cstring [OF assms] by (auto simp: byte_order_def)

theorem strcmp_order_witness:
  "\<exists>r. strcmp (\<lambda>a. if a = 10 then 104 else if a = 20 then 105 else 0) 10 20 = Some r \<and> r < 0"
proof -
  let ?m = "\<lambda>a :: nat. if a = 10 then 104 else if a = 20 then 105 else (0 :: u8)"
  have "cstring ?m 10 [104]" "cstring ?m 20 [105]" by (simp_all add: cstring_simps)
  from strcmp_order [OF this, of 1] show ?thesis by auto
qed

end
