(* ===== verification/Vnode.thy ===== *)
theory Vnode
  imports Zkt_Prelude
begin

text \<open>
  Vnodes, from \<open>zkt/fs/vfs.h\<close> and \<open>zkt/fs/vfs.c\<close>: their types and reference counts. A vnode is its
  address; the operations of the file system it belongs to, function pointers, are parameters. The
  calls of \<open>release\<close> are recorded in order.
\<close>

datatype vnode_type = VNODE_DIR | VNODE_FILE | VNODE_DEVICE | VNODE_PIPE

type_synonym vnode = nat

text \<open>
  \<open>v_walk\<close> is the \<open>walk\<close> operation, absent when the pointer is null: the vnode found in a directory
  under a name, on which the caller then holds a reference.
\<close>

record vnodes =
  v_type :: "vnode \<Rightarrow> vnode_type"
  v_walk :: "vnode \<Rightarrow> (string \<Rightarrow> vnode result) option"
  v_has_release :: "vnode \<Rightarrow> bool"

record vstate =
  refs :: "vnode \<Rightarrow> u32"
  released :: "vnode list"

definition vnode_ref :: "vnode \<Rightarrow> vstate \<Rightarrow> vstate" where
  "vnode_ref v st = st\<lparr>refs := (refs st)(v := refs st v + 1)\<rparr>"

definition vnode_unref :: "vnodes \<Rightarrow> vnode \<Rightarrow> vstate \<Rightarrow> vstate" where
  "vnode_unref vs v st =
     (let st1 = st\<lparr>refs := (refs st)(v := refs st v - 1)\<rparr>
      in if refs st1 v = 0 \<and> v_has_release vs v then st1\<lparr>released := released st1 @ [v]\<rparr> else st1)"

lemma refs_vnode_ref: "refs (vnode_ref v st) u = refs st u + (if u = v then 1 else 0)"
  by (simp add: vnode_ref_def)

lemma refs_vnode_unref: "refs (vnode_unref vs v st) u = refs st u - (if u = v then 1 else 0)"
  by (simp add: vnode_unref_def Let_def)

end
