(* ===== verification/Zrp_Msg.thy ===== *)
theory Zrp_Msg
  imports Kstring Vnode
begin

text \<open>
  Encoding and decoding of ZRP messages, \<open>zkt/net/zrp_msg.c\<close>: a cursor over a buffer in the flat
  memory of \<open>Kstring\<close>. Sizes are natural numbers with the \<open>size_t\<close> subtraction of \<open>room\<close> written
  out.
\<close>

section \<open>The cursor\<close>

text \<open>The type codes of \<open>zkt/abi/zkt_abi.h\<close>.\<close>

definition ZKT_TYPE_DIR :: u8 where "ZKT_TYPE_DIR = 0"
definition ZKT_TYPE_FILE :: u8 where "ZKT_TYPE_FILE = 1"
definition ZKT_TYPE_DEVICE :: u8 where "ZKT_TYPE_DEVICE = 2"

definition ZRP_HEADER :: nat where "ZRP_HEADER = 7"

record zmsg =
  buf :: nat
  cap :: nat
  pos :: nat
  bad :: bool

type_synonym msg = "zmsg \<times> ram"

definition room :: "zmsg \<Rightarrow> nat \<Rightarrow> nat option \<times> zmsg" where
  "room m n =
     (if bad m \<or> n > sub32 (cap m) (pos m) then (None, m\<lparr>bad := True\<rparr>)
      else (Some (buf m + pos m), m\<lparr>pos := pos m + n\<rparr>))"



definition le_bytes :: "nat \<Rightarrow> 'a::len word \<Rightarrow> u8 list" where
  "le_bytes n v = map (\<lambda>i. ucast (drop_bit (8 * i) v)) [0 ..< n]"

definition zmsg_put8 :: "msg \<Rightarrow> u8 \<Rightarrow> msg" where
  "zmsg_put8 s v = (case room (fst s) 1 of
      (None, m) \<Rightarrow> (m, snd s)
    | (Some p, m) \<Rightarrow> (m, (snd s)(p := v)))"

definition zmsg_put16 :: "msg \<Rightarrow> u16 \<Rightarrow> msg" where
  "zmsg_put16 s v = (case room (fst s) 2 of
      (None, m) \<Rightarrow> (m, snd s)
    | (Some p, m) \<Rightarrow> (m, (snd s)(p := ucast v, p + 1 := ucast (drop_bit 8 v))))"

definition zmsg_put32 :: "msg \<Rightarrow> u32 \<Rightarrow> msg" where
  "zmsg_put32 s v = (case room (fst s) 4 of
      (None, m) \<Rightarrow> (m, snd s)
    | (Some p, m) \<Rightarrow> (m, fold (\<lambda>i r. r(p + i := ucast (drop_bit (8 * i) v))) [0 ..< 4] (snd s)))"

definition zmsg_putbytes :: "msg \<Rightarrow> nat \<Rightarrow> nat \<Rightarrow> msg" where
  "zmsg_putbytes s data len = (case room (fst s) len of
      (None, m) \<Rightarrow> (m, snd s)
    | (Some p, m) \<Rightarrow> (m, memcpy (snd s) p data len))"

definition zmsg_putstr :: "msg \<Rightarrow> nat \<Rightarrow> msg option" where
  "zmsg_putstr s str = Option.bind (strlen (snd s) str) (\<lambda>len.
     if len > 0xFFFF then Some ((fst s)\<lparr>bad := True\<rparr>, snd s)
     else Some (zmsg_putbytes (zmsg_put16 s (of_nat len)) str len))"

definition zmsg_putstat :: "msg \<Rightarrow> vnode_type \<Rightarrow> u32 \<Rightarrow> nat \<Rightarrow> msg option" where
  "zmsg_putstat s type len name =
     zmsg_putstr (zmsg_put32 (zmsg_put8 s (if type = VNODE_DIR then ZKT_TYPE_DIR
       else if type = VNODE_DEVICE then ZKT_TYPE_DEVICE else ZKT_TYPE_FILE)) len) name"

definition zmsg_start :: "ram \<Rightarrow> nat \<Rightarrow> nat \<Rightarrow> u8 \<Rightarrow> u16 \<Rightarrow> msg" where
  "zmsg_start r b c type tag =
     (let m = \<lparr>buf = b, cap = c, pos = 4, bad = c < ZRP_HEADER\<rparr>
      in zmsg_put16 (zmsg_put8 (m, r) type) tag)"

definition zmsg_finish :: "msg \<Rightarrow> nat \<times> msg" where
  "zmsg_finish s =
     (if bad (fst s) then (0, s)
      else let sz = of_nat (pos (fst s)) :: u32
           in (pos (fst s), fst s, fold (\<lambda>i r. r(buf (fst s) + i := ucast (drop_bit (8 * i) sz))) [0 ..< 4] (snd s)))"

definition zmsg_open :: "nat \<Rightarrow> nat \<Rightarrow> zmsg" where
  "zmsg_open b len = \<lparr>buf = b, cap = len, pos = 0, bad = False\<rparr>"

definition zmsg_get8 :: "msg \<Rightarrow> u8 \<times> zmsg" where
  "zmsg_get8 s = (case room (fst s) 1 of
      (None, m) \<Rightarrow> (0, m)
    | (Some p, m) \<Rightarrow> (snd s p, m))"

text \<open>\<open>p[0] | p[1] << 8\<close> is computed in \<open>int\<close>, which holds it.\<close>

definition zmsg_get16 :: "msg \<Rightarrow> u16 \<times> zmsg" where
  "zmsg_get16 s = (case room (fst s) 2 of
      (None, m) \<Rightarrow> (0, m)
    | (Some p, m) \<Rightarrow> (ucast (ucast (snd s p) OR push_bit 8 (ucast (snd s (p + 1))) :: u32), m))"

definition zmsg_get32 :: "msg \<Rightarrow> u32 \<times> zmsg" where
  "zmsg_get32 s = (case room (fst s) 4 of
      (None, m) \<Rightarrow> (0, m)
    | (Some p, m) \<Rightarrow> (ucast (snd s p) OR push_bit 8 (ucast (snd s (p + 1)))
        OR push_bit 16 (ucast (snd s (p + 2))) OR push_bit 24 (ucast (snd s (p + 3))), m))"

definition zmsg_getbytes :: "zmsg \<Rightarrow> nat \<Rightarrow> nat option \<times> zmsg" where
  "zmsg_getbytes m len = room m len"

definition zmsg_getstr :: "msg \<Rightarrow> nat \<Rightarrow> nat \<Rightarrow> msg" where
  "zmsg_getstr s out sz =
     (let (len, m1) = zmsg_get16 s
      in case zmsg_getbytes m1 (unat len) of
        (None, m2) \<Rightarrow> (m2\<lparr>bad := True\<rparr>, if sz \<noteq> 0 then (snd s)(out := 0) else snd s)
      | (Some p, m2) \<Rightarrow>
          if unat len \<ge> sz then (m2\<lparr>bad := True\<rparr>, if sz \<noteq> 0 then (snd s)(out := 0) else snd s)
          else (m2, (memcpy (snd s) out p (unat len))(out + unat len := 0)))"

text \<open>The type is an output parameter the code leaves alone when the byte is none of the three.\<close>

definition zmsg_getstat :: "msg \<Rightarrow> vnode_type \<Rightarrow> nat \<Rightarrow> nat \<Rightarrow> bool \<times> vnode_type \<times> u32 \<times> msg" where
  "zmsg_getstat s type name sz =
     (let (t, m1) = zmsg_get8 s;
          (len, m2) = zmsg_get32 (m1, snd s);
          (m3, r) = zmsg_getstr (m2, snd s) name sz;
          (type', m4) = (if t = ZKT_TYPE_DIR then (VNODE_DIR, m3)
             else if t = ZKT_TYPE_FILE then (VNODE_FILE, m3)
             else if t = ZKT_TYPE_DEVICE then (VNODE_DEVICE, m3)
             else (type, m3\<lparr>bad := True\<rparr>))
      in (\<not> bad m4, type', len, m4, r))"

section \<open>Writing\<close>

text \<open>What the writers do, in one operation on a list of bytes.\<close>

definition put_at :: "ram \<Rightarrow> nat \<Rightarrow> u8 list \<Rightarrow> ram" where
  "put_at r a bs = (\<lambda>x. if a \<le> x \<and> x < a + length bs then bs ! (x - a) else r x)"

definition put_list :: "msg \<Rightarrow> u8 list \<Rightarrow> msg" where
  "put_list s bs =
     (if bad (fst s) \<or> pos (fst s) + length bs > cap (fst s) then ((fst s)\<lparr>bad := True\<rparr>, snd s)
      else ((fst s)\<lparr>pos := pos (fst s) + length bs\<rparr>, put_at (snd s) (buf (fst s) + pos (fst s)) bs))"

definition fits :: "zmsg \<Rightarrow> bool" where
  "fits m \<longleftrightarrow> cap m < 2 ^ 32 \<and> (bad m \<or> pos m \<le> cap m)"

lemma room_eq:
  "fits m \<Longrightarrow> room m n =
     (if bad m \<or> pos m + n > cap m then (None, m\<lparr>bad := True\<rparr>)
      else (Some (buf m + pos m), m\<lparr>pos := pos m + n\<rparr>))"
  by (auto simp: room_def fits_def sub32_exact)

lemma put_at_Nil [simp]: "put_at r a [] = r"
  by (rule ext) (auto simp: put_at_def)

lemma put_at_snoc: "put_at r a (bs @ [b]) = (put_at r a bs)(a + length bs := b)"
  by (rule ext) (auto simp: put_at_def nth_append)

lemma put_at_append: "put_at r a (bs @ cs) = put_at (put_at r a bs) (a + length bs) cs"
  by (rule ext) (auto simp: put_at_def nth_append)

lemma put_at_bytes [simp]: "bytes_at (put_at r a bs) a (length bs) = bs"
  by (rule nth_equalityI) (auto simp: put_at_def)

lemma put_at_elsewhere: "\<not> (a \<le> x \<and> x < a + length bs) \<Longrightarrow> put_at r a bs x = r x"
  by (auto simp: put_at_def)

lemma put_at_le_bytes: "fold (\<lambda>i r. r(p + i := ucast (drop_bit (8 * i) v))) [0 ..< n] r = put_at r p (le_bytes n v)"
  by (induction n) (simp_all add: le_bytes_def put_at_snoc del: fun_upd_apply)

lemma le_bytes_length [simp]: "length (le_bytes n v) = n"
  by (simp add: le_bytes_def)

lemma le_bytes_simps: "le_bytes 2 v = [ucast v, ucast (drop_bit 8 v)]"
  "le_bytes 4 v = [ucast v, ucast (drop_bit 8 v), ucast (drop_bit 16 v), ucast (drop_bit 24 v)]"
  by (simp_all add: le_bytes_def upt4 upt_rec)

lemma moved_put_at: "moved r d s n = put_at r d (bytes_at r s n)"
  by (rule ext) (auto simp: moved_def put_at_def)

named_theorems zmsg_puts \<open>the writers as \<^const>\<open>put_list\<close>\<close>

lemma zmsg_put8_eq [zmsg_puts]: "fits (fst s) \<Longrightarrow> zmsg_put8 s v = put_list s [v]"
  by (auto simp: zmsg_put8_def put_list_def room_eq put_at_snoc [of _ _ "[]", simplified])

lemma zmsg_put16_eq [zmsg_puts]: "fits (fst s) \<Longrightarrow> zmsg_put16 s v = put_list s (le_bytes 2 v)"
  using put_at_snoc [of "snd s" _ "[ucast v]" "ucast (drop_bit 8 v)"] put_at_snoc [of "snd s" _ "[]" "ucast v"]
  by (auto simp: zmsg_put16_def put_list_def room_eq le_bytes_simps)

lemma zmsg_put32_eq [zmsg_puts]: "fits (fst s) \<Longrightarrow> zmsg_put32 s v = put_list s (le_bytes 4 v)"
  by (auto simp: zmsg_put32_def put_list_def room_eq put_at_le_bytes)

lemma zmsg_putbytes_eq [zmsg_puts]:
  "fits (fst s) \<Longrightarrow> apart (buf (fst s)) (cap (fst s)) data len \<Longrightarrow>
   zmsg_putbytes s data len = put_list s (bytes_at (snd s) data len)"
  by (auto simp: zmsg_putbytes_def put_list_def room_eq memcpy_eq moved_put_at apart_def)

lemma put_list_fits [simp]: "fits (fst s) \<Longrightarrow> fits (fst (put_list s bs))"
  by (auto simp: put_list_def fits_def)

lemma put_list_fields [simp]: "buf (fst (put_list s bs)) = buf (fst s)" "cap (fst (put_list s bs)) = cap (fst s)"
  by (simp_all add: put_list_def)

lemma put_list_bad: "bad (fst s) \<Longrightarrow> put_list s bs = s"
  by (cases s) (simp add: put_list_def)

lemma put_list_frame: "\<not> (buf (fst s) \<le> a \<and> a < buf (fst s) + cap (fst s)) \<Longrightarrow> snd (put_list s bs) a = snd s a"
  by (auto simp: put_list_def put_at_def)

lemma put_list_append:
  "\<not> bad (fst (put_list s (bs @ cs))) \<Longrightarrow> put_list (put_list s bs) cs = put_list s (bs @ cs)"
  by (auto simp: put_list_def put_at_append add.assoc split: if_splits)

lemma put_list_bad_append: "bad (fst (put_list (put_list s bs) cs)) = bad (fst (put_list s (bs @ cs)))"
  by (auto simp: put_list_def)

lemma cstring_elsewhere:
  assumes "cstring r a bs" and "apart b c a (length bs + 1)"
    and "\<And>x. \<not> (b \<le> x \<and> x < b + c) \<Longrightarrow> r' x = r x"
  shows "cstring r' a bs"
proof -
  have "r' (a + i) = r (a + i)" if "i \<le> length bs" for i
    using assms(2) that by (intro assms(3)) (auto simp: apart_def)
  then have "bytes_at r' a (length bs) = bytes_at r a (length bs)" "r' (a + length bs) = r (a + length bs)"
    by (auto intro: bytes_at_eqI)
  then show ?thesis using assms(1) by (simp add: cstring_def)
qed

lemma bytes_elsewhere:
  assumes "apart b c a n" and "\<And>x. \<not> (b \<le> x \<and> x < b + c) \<Longrightarrow> r' x = r x"
  shows "bytes_at r' a n = bytes_at r a n"
  using assms(1) by (intro bytes_at_eqI assms(2)) (auto simp: apart_def)

section \<open>Messages as values\<close>

text \<open>
  The values of a message, their form on the wire (\<open>docs/zrp.md\<close>), and the calls that write and
  read them: strings and byte ranges are written from memory, strings are read into a buffer.
\<close>

datatype val = V8 u8 | V16 u16 | V32 u32 | VBytes "u8 list" | VStr "u8 list" | VStat vnode_type u32 "u8 list"

definition wire_str :: "u8 list \<Rightarrow> u8 list" where
  "wire_str bs = le_bytes 2 (of_nat (length bs) :: u16) @ bs"

fun type_code :: "vnode_type \<Rightarrow> u8" where
  "type_code VNODE_DIR = 0"
| "type_code VNODE_FILE = 1"
| "type_code VNODE_DEVICE = 2"
| "type_code VNODE_PIPE = 1"

fun wire :: "val \<Rightarrow> u8 list" where
  "wire (V8 v) = [v]"
| "wire (V16 v) = le_bytes 2 v"
| "wire (V32 v) = le_bytes 4 v"
| "wire (VBytes bs) = bs"
| "wire (VStr bs) = wire_str bs"
| "wire (VStat t len bs) = type_code t # le_bytes 4 len @ wire_str bs"

fun encodable :: "val \<Rightarrow> bool" where
  "encodable (VStr bs) \<longleftrightarrow> length bs \<le> 0xFFFF"
| "encodable (VStat t len bs) \<longleftrightarrow> length bs \<le> 0xFFFF"
| "encodable v \<longleftrightarrow> True"

datatype item = Put8 u8 | Put16 u16 | Put32 u32 | PutBytes nat nat | PutStr nat | PutStat vnode_type u32 nat

fun put_item :: "item \<Rightarrow> msg \<Rightarrow> msg option" where
  "put_item (Put8 v) s = Some (zmsg_put8 s v)"
| "put_item (Put16 v) s = Some (zmsg_put16 s v)"
| "put_item (Put32 v) s = Some (zmsg_put32 s v)"
| "put_item (PutBytes data len) s = Some (zmsg_putbytes s data len)"
| "put_item (PutStr str) s = zmsg_putstr s str"
| "put_item (PutStat t len name) s = zmsg_putstat s t len name"

fun put_items :: "item list \<Rightarrow> msg \<Rightarrow> msg option" where
  "put_items [] s = Some s"
| "put_items (i # is) s = Option.bind (put_item i s) (put_items is)"

text \<open>What an item takes from memory outside the buffer \<open>[b, b + c)\<close>.\<close>

fun holds :: "nat \<Rightarrow> nat \<Rightarrow> ram \<Rightarrow> item \<Rightarrow> val \<Rightarrow> bool" where
  "holds b c r (Put8 v) w \<longleftrightarrow> w = V8 v"
| "holds b c r (Put16 v) w \<longleftrightarrow> w = V16 v"
| "holds b c r (Put32 v) w \<longleftrightarrow> w = V32 v"
| "holds b c r (PutBytes data len) w \<longleftrightarrow> w = VBytes (bytes_at r data len) \<and> apart b c data len"
| "holds b c r (PutStr str) w \<longleftrightarrow> (\<exists>bs. w = VStr bs \<and> cstring r str bs \<and> apart b c str (length bs + 1))"
| "holds b c r (PutStat t len name) w \<longleftrightarrow> (\<exists>bs. w = VStat t len bs \<and> cstring r name bs \<and> apart b c name (length bs + 1))"

definition encode :: "ram \<Rightarrow> nat \<Rightarrow> nat \<Rightarrow> u8 \<Rightarrow> u16 \<Rightarrow> item list \<Rightarrow> (nat \<times> msg) option" where
  "encode r b c type tag is = map_option zmsg_finish (put_items is (zmsg_start r b c type tag))"

lemma holds_elsewhere:
  assumes "holds b c r i w" and r': "\<And>x. \<not> (b \<le> x \<and> x < b + c) \<Longrightarrow> r' x = r x"
  shows "holds b c r' i w"
proof -
  have "cstring r a bs \<Longrightarrow> apart b c a (length bs + 1) \<Longrightarrow> cstring r' a bs" for a bs
    by (rule cstring_elsewhere [OF _ _ r'])
  moreover have "apart b c a n \<Longrightarrow> bytes_at r' a n = bytes_at r a n" for a n
    by (rule bytes_elsewhere [OF _ r'])
  ultimately show ?thesis using assms(1) by (cases i) auto
qed

lemma zmsg_putstr_eq:
  assumes "fits (fst s)" and "cstring (snd s) a bs" and "apart (buf (fst s)) (cap (fst s)) a (length bs + 1)"
  shows "zmsg_putstr s a =
    Some (if length bs > 0xFFFF then ((fst s)\<lparr>bad := True\<rparr>, snd s)
          else put_list (put_list s (le_bytes 2 (of_nat (length bs) :: u16))) bs)"
proof -
  let ?s = "put_list s (le_bytes 2 (of_nat (length bs) :: u16))"
  have a: "apart (buf (fst s)) (cap (fst s)) a (length bs)" using assms(3) by (auto simp: apart_def)
  have "bytes_at (snd ?s) a (length bs) = bytes_at (snd s) a (length bs)"
    by (rule bytes_elsewhere [OF a]) (rule put_list_frame)
  also have "\<dots> = bs" using assms(2) by (simp add: cstring_def)
  finally have "zmsg_putbytes ?s a (length bs) = put_list ?s bs"
    using zmsg_putbytes_eq [of ?s a "length bs"] a assms(1) by simp
  then show ?thesis
    using assms(1) by (simp add: zmsg_putstr_def strlen_cstring [OF assms(2)] zmsg_put16_eq)
qed

text \<open>A state reached from \<open>s\<close> by writing \<open>bs\<close>, or a bad one when \<open>bs\<close> does not fit.\<close>

definition wrote :: "msg \<Rightarrow> u8 list \<Rightarrow> bool \<Rightarrow> msg \<Rightarrow> bool" where
  "wrote s bs ok t \<longleftrightarrow> fits (fst t) \<and> buf (fst t) = buf (fst s) \<and> cap (fst t) = cap (fst s)
     \<and> (\<forall>a. \<not> (buf (fst s) \<le> a \<and> a < buf (fst s) + cap (fst s)) \<longrightarrow> snd t a = snd s a)
     \<and> (bad (fst t) \<longleftrightarrow> \<not> ok \<or> bad (fst (put_list s bs)))
     \<and> (bad (fst t) \<or> t = put_list s bs)"

lemma wrote_put_list: "fits (fst s) \<Longrightarrow> wrote s bs True (put_list s bs)"
  by (auto simp: wrote_def put_list_frame)

lemma wrote_Nil: "fits (fst s) \<Longrightarrow> wrote s [] True s"
  using wrote_put_list [of s "[]"] by (cases s) (auto simp: put_list_def wrote_def fits_def)

lemma wrote_trans:
  assumes "wrote s bs p t" and "wrote t cs q u"
  shows "wrote s (bs @ cs) (p \<and> q) u"
proof (cases "bad (fst t)")
  case True
  then have "\<not> p \<or> bad (fst (put_list s (bs @ cs)))"
    using assms(1) put_list_bad_append [of s bs cs] put_list_bad [of "put_list s bs" cs]
    by (auto simp: wrote_def)
  moreover have "bad (fst u)" using True assms(2) put_list_bad [of t cs] by (simp add: wrote_def)
  ultimately show ?thesis using assms by (auto simp: wrote_def)
next
  case False
  then have t: "t = put_list s bs" "p" using assms(1) by (auto simp: wrote_def)
  then show ?thesis
    using assms put_list_append [of s bs cs] put_list_bad_append [of s bs cs]
    by (auto simp: wrote_def)
qed

lemma wrote_str:
  assumes "fits (fst s)" and "cstring (snd s) a bs" and "apart (buf (fst s)) (cap (fst s)) a (length bs + 1)"
  shows "\<exists>t. zmsg_putstr s a = Some t \<and> wrote s (wire_str bs) (length bs \<le> 0xFFFF) t"
proof (cases "length bs \<le> 0xFFFF")
  case True
  have "wrote s (wire_str bs) (True \<and> True) (put_list (put_list s (le_bytes 2 (of_nat (length bs) :: u16))) bs)"
    unfolding wire_str_def by (rule wrote_trans; rule wrote_put_list) (simp_all add: assms)
  with True show ?thesis by (simp add: zmsg_putstr_eq [OF assms])
next
  case False
  then show ?thesis using assms(1) by (auto simp: zmsg_putstr_eq [OF assms] wrote_def fits_def)
qed

lemma type_codes: "type_code t = (if t = VNODE_DIR then ZKT_TYPE_DIR else if t = VNODE_DEVICE then ZKT_TYPE_DEVICE else ZKT_TYPE_FILE)"
  by (cases t) (simp_all add: ZKT_TYPE_DIR_def ZKT_TYPE_FILE_def ZKT_TYPE_DEVICE_def)

lemma put_item_ok:
  assumes "fits (fst s)" and "holds (buf (fst s)) (cap (fst s)) (snd s) i w"
  shows "\<exists>t. put_item i s = Some t \<and> wrote s (wire w) (encodable w) t"
proof (cases i)
  case (PutStat ty len name)
  with assms(2) obtain bs where w: "w = VStat ty len bs" "cstring (snd s) name bs"
    "apart (buf (fst s)) (cap (fst s)) name (length bs + 1)" by auto
  let ?s = "put_list (put_list s [type_code ty]) (le_bytes 4 len)"
  have s: "wrote s ([type_code ty] @ le_bytes 4 len) (True \<and> True) ?s"
    by (rule wrote_trans; rule wrote_put_list) (simp_all add: assms)
  then have "cstring (snd ?s) name bs"
    using cstring_elsewhere [OF w(2,3)] by (simp add: wrote_def)
  then obtain t where "zmsg_putstr ?s name = Some t" "wrote ?s (wire_str bs) (length bs \<le> 0xFFFF) t"
    using wrote_str [of ?s name bs] w(3) assms(1) by auto
  with wrote_trans [OF s this(2)] show ?thesis
    using assms(1) by (simp add: PutStat w(1) zmsg_putstat_def zmsg_puts type_codes)
next
  case (PutStr a)
  with assms wrote_str [of s a] show ?thesis by auto
qed (use assms wrote_put_list [OF assms(1)] in \<open>auto simp: zmsg_puts\<close>)

lemma put_items_ok:
  assumes "fits (fst s)" and "list_all2 (holds (buf (fst s)) (cap (fst s)) (snd s)) is ws"
  shows "\<exists>t. put_items is s = Some t \<and> wrote s (concat (map wire ws)) (list_all encodable ws) t"
  using assms
proof (induction "is" arbitrary: s ws)
  case Nil
  then show ?case by (simp add: wrote_Nil)
next
  case (Cons i "is")
  then obtain w ws' where w: "ws = w # ws'" "holds (buf (fst s)) (cap (fst s)) (snd s) i w"
    "list_all2 (holds (buf (fst s)) (cap (fst s)) (snd s)) is ws'" by (auto simp: list_all2_Cons1)
  from put_item_ok [OF Cons.prems(1) w(2)] obtain t where
    t: "put_item i s = Some t" "wrote s (wire w) (encodable w) t" by blast
  have "list_all2 (holds (buf (fst t)) (cap (fst t)) (snd t)) is ws'"
    using w(3) t(2) by (auto simp: wrote_def elim!: list_all2_mono intro: holds_elsewhere)
  moreover have "fits (fst t)" using t(2) by (simp add: wrote_def)
  ultimately obtain u where
    "put_items is t = Some u" "wrote t (concat (map wire ws')) (list_all encodable ws') u"
    using Cons.IH by blast
  with wrote_trans [OF t(2) this(2)] t(1) w(1) show ?case by auto
qed

text \<open>A whole message: size, type, tag and body.\<close>

definition body :: "val list \<Rightarrow> u8 list" where
  "body ws = concat (map wire ws)"

definition message :: "u8 \<Rightarrow> u16 \<Rightarrow> val list \<Rightarrow> u8 list" where
  "message type tag ws = le_bytes 4 (of_nat (7 + length (body ws)) :: u32) @ [type] @ le_bytes 2 tag @ body ws"

lemma start_ok:
  fixes b c :: nat
  assumes "c < 2 ^ 32"
  defines "m0 \<equiv> \<lparr>buf = b, cap = c, pos = 4, bad = c < 7\<rparr>"
  shows "wrote (m0, r) ([type] @ le_bytes 2 tag) (True \<and> True) (zmsg_start r b c type tag)"
proof -
  have f: "fits m0" using assms(1) by (auto simp: m0_def fits_def)
  have "zmsg_start r b c type tag = put_list (put_list (m0, r) [type]) (le_bytes 2 tag)"
    using f by (simp add: zmsg_start_def m0_def ZRP_HEADER_def zmsg_puts Let_def)
  moreover have "wrote (m0, r) ([type] @ le_bytes 2 tag) (True \<and> True) (put_list (put_list (m0, r) [type]) (le_bytes 2 tag))"
    by (rule wrote_trans; rule wrote_put_list) (simp_all add: f)
  ultimately show ?thesis by simp
qed

lemma encode_ok:
  assumes "c < 2 ^ 32" and "list_all2 (holds b c r) is ws"
  defines "L \<equiv> 7 + length (body ws)"
  shows "\<exists>n m r'. encode r b c type tag is = Some (n, m, r')
    \<and> n = (if L \<le> c \<and> list_all encodable ws then L else 0)
    \<and> (0 < n \<longrightarrow> bytes_at r' b n = message type tag ws)
    \<and> (\<forall>a. \<not> (b \<le> a \<and> a < b + (if n = 0 then c else n)) \<longrightarrow> r' a = r a)"
proof -
  define m0 where "m0 = \<lparr>buf = b, cap = c, pos = 4, bad = c < 7\<rparr>"
  let ?s = "zmsg_start r b c type tag" and ?bs = "([type] @ le_bytes 2 tag) @ body ws"
  have s: "wrote (m0, r) ([type] @ le_bytes 2 tag) True ?s"
    using start_ok [OF assms(1), of b r type tag] by (simp add: m0_def)
  have "list_all2 (holds (buf (fst ?s)) (cap (fst ?s)) (snd ?s)) is ws"
    using assms(2) s by (auto simp: wrote_def m0_def elim!: list_all2_mono intro: holds_elsewhere)
  moreover have "fits (fst ?s)" using s by (simp add: wrote_def)
  ultimately obtain t where t: "put_items is ?s = Some t" "wrote ?s (body ws) (list_all encodable ws) t"
    using put_items_ok [of ?s "is" ws] unfolding body_def by blast
  have w: "wrote (m0, r) ?bs (list_all encodable ws) t" using wrote_trans [OF s t(2)] by simp
  have L: "length ?bs = L - 4" "7 \<le> L" by (simp_all add: L_def)
  have bad: "bad (fst t) \<longleftrightarrow> \<not> (L \<le> c \<and> list_all encodable ws)"
    using w L by (auto simp: wrote_def put_list_def m0_def)
  show ?thesis
  proof (cases "bad (fst t)")
    case True
    with w bad t(1) show ?thesis
      by (cases t) (auto simp: encode_def zmsg_finish_def wrote_def m0_def)
  next
    case False
    with w have tt: "t = put_list (m0, r) ?bs" "\<not> bad (fst (put_list (m0, r) ?bs))" by (auto simp: wrote_def)
    define r' where "r' = put_at (put_at r (b + 4) ?bs) b (le_bytes 4 (of_nat L :: u32))"
    have "t = (m0\<lparr>pos := L\<rparr>, put_at r (b + 4) ?bs)"
      using tt L by (auto simp: put_list_def m0_def split: if_splits)
    then have "encode r b c type tag is = Some (L, m0\<lparr>pos := L\<rparr>, r')"
      using t(1) tt(2) False by (auto simp: encode_def zmsg_finish_def r'_def put_at_le_bytes m0_def)
    moreover have "bytes_at r' b L = message type tag ws"
    proof -
      have "bytes_at r' b L = bytes_at r' b 4 @ bytes_at r' (b + 4) (L - 4)"
        using bytes_at_add [of r' b 4 "L - 4"] L(2) by simp
      also have "bytes_at r' b 4 = le_bytes 4 (of_nat L :: u32)"
        unfolding r'_def using put_at_bytes [of _ b "le_bytes 4 (of_nat L :: u32)"] by simp
      also have "bytes_at r' (b + 4) (L - 4) = bytes_at (put_at r (b + 4) ?bs) (b + 4) (L - 4)"
        unfolding r'_def by (rule bytes_at_eqI) (simp add: put_at_elsewhere)
      also have "\<dots> = ?bs" using put_at_bytes [of r "b + 4" ?bs] L(1) by simp
      finally show ?thesis by (simp add: message_def L_def)
    qed
    moreover have "r' a = r a" if "\<not> (b \<le> a \<and> a < b + L)" for a
      using that L by (auto simp: r'_def put_at_def)
    ultimately show ?thesis using bad False L(2) by auto
  qed
qed

section \<open>Reading\<close>

text \<open>The string a buffer holds.\<close>

definition string_at :: "ram \<Rightarrow> nat \<Rightarrow> u8 list" where
  "string_at r a = (case strlen r a of None \<Rightarrow> [] | Some n \<Rightarrow> bytes_at r a n)"

datatype want = Want8 | Want16 | Want32 | WantBytes nat | WantStr nat nat | WantStat vnode_type nat nat

fun get_item :: "want \<Rightarrow> msg \<Rightarrow> val \<times> msg" where
  "get_item Want8 s = (let (v, m) = zmsg_get8 s in (V8 v, m, snd s))"
| "get_item Want16 s = (let (v, m) = zmsg_get16 s in (V16 v, m, snd s))"
| "get_item Want32 s = (let (v, m) = zmsg_get32 s in (V32 v, m, snd s))"
| "get_item (WantBytes len) s = (case zmsg_getbytes (fst s) len of
      (None, m) \<Rightarrow> (VBytes [], m, snd s)
    | (Some p, m) \<Rightarrow> (VBytes (bytes_at (snd s) p len), m, snd s))"
| "get_item (WantStr out sz) s =
     (let (m, r) = zmsg_getstr s out sz in (VStr (if sz = 0 then [] else string_at r out), m, r))"
| "get_item (WantStat t0 out sz) s =
     (let (ok, t, len, m, r) = zmsg_getstat s t0 out sz
      in (VStat t len (if sz = 0 then [] else string_at r out), m, r))"

fun get_items :: "want list \<Rightarrow> msg \<Rightarrow> val list \<times> msg" where
  "get_items [] s = ([], s)"
| "get_items (w # ws) s = (let (v, s1) = get_item w s; (vs, s2) = get_items ws s1 in (v # vs, s2))"

definition at :: "zmsg \<Rightarrow> ram \<Rightarrow> u8 list \<Rightarrow> bool" where
  "at m r bs \<longleftrightarrow> \<not> bad m \<and> cap m < 2 ^ 32 \<and> pos m + length bs \<le> cap m \<and> bytes_at r (buf m + pos m) (length bs) = bs"

definition skip :: "nat \<Rightarrow> zmsg \<Rightarrow> zmsg" where
  "skip n m = m\<lparr>pos := pos m + n\<rparr>"

lemma skip_sel [simp]: "buf (skip n m) = buf m" "cap (skip n m) = cap m" "bad (skip n m) = bad m" "pos (skip n m) = pos m + n"
  by (simp_all add: skip_def)

lemma skip_skip [simp]: "skip n (skip k m) = skip (k + n) m"
  by (simp add: skip_def add.assoc)

lemma at_append: "at m r (as @ bs) \<longleftrightarrow> at m r as \<and> at (skip (length as) m) r bs"
  using bytes_at_add [of r "buf m + pos m" "length as" "length bs"]
  by (auto simp: at_def add.assoc)

lemma at_room: "at m r bs \<Longrightarrow> room m (length bs) = (Some (buf m + pos m), skip (length bs) m)"
  by (auto simp: at_def room_eq fits_def skip_def)

lemma at_nth: "at m r bs \<Longrightarrow> i < length bs \<Longrightarrow> r (buf m + pos m + i) = bs ! i"
  unfolding at_def by (metis bytes_at_nth)

lemma at_cong: "at m r bs \<Longrightarrow> (\<And>a. buf m \<le> a \<Longrightarrow> a < buf m + cap m \<Longrightarrow> r' a = r a) \<Longrightarrow> at m r' bs"
  using bytes_at_eqI [of "length bs" r' "buf m + pos m" r "buf m + pos m"] by (simp add: at_def)

lemma half_of_bytes: "ucast (ucast (ucast v :: u8) OR push_bit 8 (ucast (ucast (drop_bit 8 v) :: u8)) :: u32) = v" for v :: u16
  by (rule bit_word_eqI) (auto simp: bit_simps)

lemma word_of_le_bytes:
  fixes v :: u32
  shows "ucast (ucast v :: u8) OR push_bit 8 (ucast (ucast (drop_bit 8 v) :: u8))
    OR push_bit 16 (ucast (ucast (drop_bit 16 v) :: u8)) OR push_bit 24 (ucast (ucast (drop_bit 24 v) :: u8)) = v"
    (is "?l = v")
proof (rule bit_word_eqI)
  fix n assume "n < LENGTH(32)"
  then consider "n < 8" | "8 \<le> n" "n < 16" | "16 \<le> n" "n < 24" | "24 \<le> n" "n < 32" by fastforce
  then show "bit ?l n = bit v n" by cases (auto simp: bit_simps)
qed

lemma get8_at: "at m r [v] \<Longrightarrow> zmsg_get8 (m, r) = (v, skip 1 m)"
  using at_room [of m r "[v]"] at_nth [of m r "[v]" 0] by (simp add: zmsg_get8_def)

lemma get16_at:
  fixes v :: u16
  assumes "at m r (le_bytes 2 v)"
  shows "zmsg_get16 (m, r) = (v, skip 2 m)"
  using at_room [OF assms, unfolded le_bytes_length] at_nth [OF assms, of 0] at_nth [OF assms, of 1]
  by (simp add: zmsg_get16_def le_bytes_simps half_of_bytes)

lemma get32_at:
  fixes v :: u32
  assumes "at m r (le_bytes 4 v)"
  shows "zmsg_get32 (m, r) = (v, skip 4 m)"
  using at_room [OF assms, unfolded le_bytes_length] at_nth [OF assms, of 0] at_nth [OF assms, of 1] at_nth [OF assms, of 2]
    at_nth [OF assms, of 3]
  by (simp add: zmsg_get32_def le_bytes_simps word_of_le_bytes)

lemma string_at_cstring: "cstring r a bs \<Longrightarrow> string_at r a = bs"
  by (simp add: string_at_def strlen_cstring) (simp add: cstring_def)

lemma getstr_at:
  assumes a: "at m r (wire_str bs)" and l: "length bs \<le> 0xFFFF" "length bs < sz" and ap: "apart (buf m) (cap m) out sz"
  shows "zmsg_getstr (m, r) out sz = (skip (length (wire_str bs)) m, put_at r out (bs @ [0]))"
proof -
  have a1: "at m r (le_bytes 2 (of_nat (length bs) :: u16))" and a2: "at (skip 2 m) r bs"
    using a by (simp_all add: wire_str_def at_append)
  have u: "unat (of_nat (length bs) :: u16) = length bs" using l(1) by (simp add: unat_of_nat)
  have p: "buf m + pos m + 2 + length bs \<le> buf m + cap m" using a2 by (simp add: at_def)
  have "memcpy r out (buf m + (pos m + 2)) (length bs) = put_at r out (bytes_at r (buf m + (pos m + 2)) (length bs))"
    using ap l(2) p memcpy_eq [of out "length bs" "buf m + (pos m + 2)" r] by (auto simp: apart_def moved_put_at)
  also have "bytes_at r (buf m + (pos m + 2)) (length bs) = bs" using a2 by (simp add: at_def)
  finally show ?thesis
    using get16_at [OF a1] at_room [OF a2] l u
    by (simp add: zmsg_getstr_def zmsg_getbytes_def put_at_snoc wire_str_def)
qed

fun accepts :: "nat \<Rightarrow> nat \<Rightarrow> want \<Rightarrow> val \<Rightarrow> bool" where
  "accepts b c Want8 v \<longleftrightarrow> (\<exists>x. v = V8 x)"
| "accepts b c Want16 v \<longleftrightarrow> (\<exists>x. v = V16 x)"
| "accepts b c Want32 v \<longleftrightarrow> (\<exists>x. v = V32 x)"
| "accepts b c (WantBytes n) v \<longleftrightarrow> (\<exists>bs. v = VBytes bs \<and> length bs = n)"
| "accepts b c (WantStr out sz) v \<longleftrightarrow> (\<exists>bs. v = VStr bs \<and> length bs < sz \<and> apart b c out sz)"
| "accepts b c (WantStat t0 out sz) v \<longleftrightarrow> (\<exists>t len bs. v = VStat t len bs \<and> length bs < sz \<and> apart b c out sz)"

fun nul_free :: "val \<Rightarrow> bool" where
  "nul_free (VStr bs) \<longleftrightarrow> 0 \<notin> set bs"
| "nul_free (VStat t len bs) \<longleftrightarrow> 0 \<notin> set bs"
| "nul_free v \<longleftrightarrow> True"

text \<open>A pipe is a file to the other side.\<close>

fun seen :: "val \<Rightarrow> val" where
  "seen (VStat t len bs) = VStat (if t = VNODE_PIPE then VNODE_FILE else t) len bs"
| "seen v = v"

lemma put_at_cstring: "0 \<notin> set bs \<Longrightarrow> cstring (put_at r out (bs @ [0])) out bs"
  using put_at_bytes [of r out "bs @ [0]"] bytes_at_add [of "put_at r out (bs @ [0])" out "length bs" 1]
  by (simp add: cstring_def bytes_at_Suc)

lemma put_at_apart: "apart b c out (length bs) \<Longrightarrow> b \<le> a \<Longrightarrow> a < b + c \<Longrightarrow> put_at r out bs a = r a"
  by (auto simp: put_at_def apart_def)

lemma get_item_at:
  assumes "at m r (wire v)" and "encodable v" and "nul_free v" and "accepts (buf m) (cap m) w v"
  shows "\<exists>r'. get_item w (m, r) = (seen v, skip (length (wire v)) m, r')
    \<and> (\<forall>a. buf m \<le> a \<and> a < buf m + cap m \<longrightarrow> r' a = r a)"
proof (cases w)
  case (WantStr out sz)
  with assms obtain bs where v: "v = VStr bs" "length bs < sz" "apart (buf m) (cap m) out sz"
    "at m r (wire_str bs)" "length bs \<le> 0xFFFF" "0 \<notin> set bs" by auto
  have "apart (buf m) (cap m) out (length (bs @ [0]))" using v by (auto simp: apart_def)
  with v WantStr show ?thesis
    by (auto simp: getstr_at string_at_cstring put_at_cstring put_at_apart)
next
  case (WantStat t0 out sz)
  with assms obtain t len bs where v: "v = VStat t len bs" "length bs < sz" "apart (buf m) (cap m) out sz"
    "at m r ([type_code t] @ le_bytes 4 len @ wire_str bs)" "length bs \<le> 0xFFFF" "0 \<notin> set bs" by auto
  then have at: "at m r [type_code t]" "at (skip 1 m) r (le_bytes 4 len)" "at (skip 5 m) r (wire_str bs)"
    by (simp_all only: at_append) simp_all
  have "apart (buf m) (cap m) out (length (bs @ [0]))" using v by (auto simp: apart_def)
  with v WantStat at show ?thesis
    using getstr_at [OF at(3) v(5,2)]
    by (cases t) (auto simp: zmsg_getstat_def get8_at get32_at string_at_cstring put_at_cstring put_at_apart Let_def
       ZKT_TYPE_DIR_def ZKT_TYPE_FILE_def ZKT_TYPE_DEVICE_def)
next
  case (WantBytes n)
  with assms obtain bs where v: "v = VBytes bs" "length bs = n" "at m r bs" by auto
  then have "bytes_at r (buf m + pos m) (length bs) = bs" by (simp add: at_def)
  with v WantBytes at_room [OF v(3)] show ?thesis by (auto simp: zmsg_getbytes_def)
qed (use assms in \<open>auto simp: get8_at get16_at get32_at\<close>)

lemma get_items_at:
  assumes "at m r (body vs)" and "list_all encodable vs" and "list_all nul_free vs"
    and "list_all2 (accepts (buf m) (cap m)) ws vs"
  shows "\<exists>r'. get_items ws (m, r) = (map seen vs, skip (length (body vs)) m, r')"
  using assms
proof (induction vs arbitrary: m r ws)
  case Nil
  then show ?case by (simp add: body_def skip_def)
next
  case (Cons v vs)
  then obtain w ws' where w: "ws = w # ws'" "accepts (buf m) (cap m) w v" "list_all2 (accepts (buf m) (cap m)) ws' vs"
    by (auto simp: list_all2_Cons2)
  have at: "at m r (wire v)" "at (skip (length (wire v)) m) r (body vs)"
    using Cons.prems(1) by (simp_all add: body_def at_append)
  obtain r1 where r1: "get_item w (m, r) = (seen v, skip (length (wire v)) m, r1)"
    "\<forall>a. buf m \<le> a \<and> a < buf m + cap m \<longrightarrow> r1 a = r a"
    using get_item_at [OF at(1) _ _ w(2)] Cons.prems(2,3) by auto
  have "at (skip (length (wire v)) m) r1 (body vs)" using at(2) r1(2) by (intro at_cong [OF at(2)]) simp
  from Cons.IH [OF this, of ws'] Cons.prems(2,3) w r1(1) show ?case
    by (auto simp: body_def)
qed

lemma holds_nul_free: "holds b c r i v \<Longrightarrow> nul_free v"
  by (cases i) (auto simp: cstring_def)

lemma decode_ok:
  assumes "bytes_at r b n = message type tag vs" and "n = 7 + length (body vs)" and "n < 2 ^ 32"
    and "list_all encodable vs" and "list_all nul_free vs" and "list_all2 (accepts b n) ws vs"
  shows "\<exists>r'. get_items (Want32 # Want8 # Want16 # ws) (zmsg_open b n, r) =
    (V32 (of_nat n) # V8 type # V16 tag # map seen vs, skip n (zmsg_open b n), r')"
proof -
  let ?m = "zmsg_open b n"
  have "at ?m r (le_bytes 4 (of_nat n :: u32) @ [type] @ le_bytes 2 tag @ body vs)"
    using assms(1-3) by (simp add: at_def zmsg_open_def message_def)
  then have at: "at ?m r (le_bytes 4 (of_nat n :: u32))" "at (skip 4 ?m) r [type]" "at (skip 5 ?m) r (le_bytes 2 tag)"
    "at (skip 7 ?m) r (body vs)"
    by (simp_all only: at_append) (simp_all add: eval_nat_numeral)
  obtain r' where "get_items ws (skip 7 ?m, r) = (map seen vs, skip (length (body vs)) (skip 7 ?m), r')"
    using get_items_at [OF at(4) assms(4,5), of ws] assms(6) by (auto simp: zmsg_open_def)
  moreover have "skip (length (body vs)) (skip 7 ?m) = skip n ?m"
    using assms(2) by simp
  moreover have "get_item Want32 (?m, r) = (V32 (of_nat n), skip 4 ?m, r)"
    "get_item Want8 (skip 4 ?m, r) = (V8 type, skip 5 ?m, r)" "get_item Want16 (skip 5 ?m, r) = (V16 tag, skip 7 ?m, r)"
    using get32_at [OF at(1)] get8_at [OF at(2)] get16_at [OF at(3)] by simp_all
  ultimately show ?thesis by (simp del: get_item.simps skip_skip)
qed

section \<open>Hostile messages\<close>

text \<open>Two memories that agree on the message, and the buffers a reader is given.\<close>

definition same_on :: "nat \<Rightarrow> nat \<Rightarrow> ram \<Rightarrow> ram \<Rightarrow> bool" where
  "same_on b c r1 r2 \<longleftrightarrow> (\<forall>a. b \<le> a \<and> a < b + c \<longrightarrow> r1 a = r2 a)"

fun outs :: "want \<Rightarrow> (nat \<times> nat) list" where
  "outs (WantStr out sz) = [(out, sz)]"
| "outs (WantStat t0 out sz) = [(out, sz)]"
| "outs w = []"

definition untouched :: "want list \<Rightarrow> nat \<Rightarrow> bool" where
  "untouched ws a \<longleftrightarrow> (\<forall>(out, sz) \<in> set (concat (map outs ws)). \<not> (out \<le> a \<and> a < out + sz))"

lemma room_fields: "fits m \<Longrightarrow> room m n = (p, m') \<Longrightarrow> fits m' \<and> buf m' = buf m \<and> cap m' = cap m"
  by (auto simp: room_eq fits_def split: if_splits)

lemma room_inside: "fits m \<Longrightarrow> room m n = (Some p, m') \<Longrightarrow> buf m \<le> p \<and> p + n \<le> buf m + cap m"
  by (auto simp: room_eq split: if_splits)

lemma get8_same:
  assumes "fits m"
  obtains v m' where "fits m'" "buf m' = buf m" "cap m' = cap m" "\<And>r'. same_on (buf m) (cap m) r r' \<Longrightarrow> zmsg_get8 (m, r') = (v, m')"
proof (cases "room m 1")
  case (Pair p m')
  with that [of m' "case p of None \<Rightarrow> 0 | Some p \<Rightarrow> r p"] room_fields [OF assms Pair] room_inside [OF assms, of 1 _ m']
  show ?thesis by (cases p) (auto simp: zmsg_get8_def same_on_def)
qed

lemma get16_same:
  assumes "fits m"
  obtains v m' where "fits m'" "buf m' = buf m" "cap m' = cap m" "\<And>r'. same_on (buf m) (cap m) r r' \<Longrightarrow> zmsg_get16 (m, r') = (v, m')"
proof (cases "room m 2")
  case (Pair p m')
  with that [of m' "fst (zmsg_get16 (m, r))"] room_fields [OF assms Pair] room_inside [OF assms, of 2 _ m']
  show ?thesis by (cases p) (auto simp: zmsg_get16_def same_on_def)
qed

lemma get32_same:
  assumes "fits m"
  obtains v m' where "fits m'" "buf m' = buf m" "cap m' = cap m" "\<And>r'. same_on (buf m) (cap m) r r' \<Longrightarrow> zmsg_get32 (m, r') = (v, m')"
proof (cases "room m 4")
  case (Pair p m')
  with that [of m' "fst (zmsg_get32 (m, r))"] room_fields [OF assms Pair] room_inside [OF assms, of 4 _ m']
  show ?thesis by (cases p) (auto simp: zmsg_get32_def same_on_def)
qed

text \<open>What reading a string does: it stores bytes that depend on the message only, with a NUL among them.\<close>

lemma getstr_same:
  assumes "fits m" and ap: "apart (buf m) (cap m) out sz"
  obtains bs m' where "fits m'" "buf m' = buf m" "cap m' = cap m" "length bs \<le> sz" "0 < sz \<Longrightarrow> 0 \<in> set bs"
    "\<And>r'. same_on (buf m) (cap m) r r' \<Longrightarrow> zmsg_getstr (m, r') out sz = (m', put_at r' out bs)"
proof -
  obtain len m1 where m1: "fits m1" "buf m1 = buf m" "cap m1 = cap m"
    "\<And>r'. same_on (buf m) (cap m) r r' \<Longrightarrow> zmsg_get16 (m, r') = (len, m1)"
    using get16_same [OF assms(1), of r] by blast
  obtain p m2 where r: "room m1 (unat len) = (p, m2)" by fastforce
  have m2: "fits m2" "buf m2 = buf m" "cap m2 = cap m" using room_fields [OF m1(1) r] m1 by simp_all
  have nul: "(if sz \<noteq> 0 then r'(out := 0) else r') = put_at r' out (if sz \<noteq> 0 then [0] else [])" for r'
    using put_at_snoc [of r' out "[]" 0] by simp
  show thesis
  proof (cases "p = None \<or> sz \<le> unat len")
    case True
    have "zmsg_getstr (m, r') out sz = (m2\<lparr>bad := True\<rparr>, put_at r' out (if sz \<noteq> 0 then [0] else []))"
      if "same_on (buf m) (cap m) r r'" for r'
      using True r m1(4) [OF that] nul [of r'] by (cases p) (auto simp: zmsg_getstr_def zmsg_getbytes_def)
    then show thesis using m2 by (intro that [of "m2\<lparr>bad := True\<rparr>" "if sz \<noteq> 0 then [0] else []"]) (auto simp: fits_def)
  next
    case False
    then obtain q where q: "p = Some q" "unat len < sz" by auto
    have i: "buf m \<le> q" "q + unat len \<le> buf m + cap m" using room_inside [OF m1(1) r [unfolded q(1)]] m1 by simp_all
    have "zmsg_getstr (m, r') out sz = (m2, put_at r' out (bytes_at r q (unat len) @ [0]))"
      if same: "same_on (buf m) (cap m) r r'" for r'
    proof -
      have "memcpy r' out q (unat len) = put_at r' out (bytes_at r' q (unat len))"
        using ap q(2) i memcpy_eq [of out "unat len" q r'] by (auto simp: apart_def moved_put_at)
      also have "bytes_at r' q (unat len) = bytes_at r q (unat len)"
        using same i by (intro bytes_at_eqI) (simp add: same_on_def)
      finally show ?thesis
        using r q m1(4) [OF same] by (simp add: zmsg_getstr_def zmsg_getbytes_def put_at_snoc)
    qed
    then show thesis using m2 q(2) by (intro that [of m2 "bytes_at r q (unat len) @ [0]"]) auto
  qed
qed

lemma string_at_put:
  assumes "0 \<in> set bs"
  shows "string_at (put_at r out bs) out = takeWhile (\<lambda>b. b \<noteq> 0) bs"
proof -
  obtain xs ys where bs: "bs = xs @ 0 # ys" "0 \<notin> set xs" using assms by (metis split_list_first)
  have "takeWhile (\<lambda>b. b \<noteq> 0) (xs @ 0 # ys) = xs"
    using bs(2) by (induction xs) auto
  moreover have "cstring (put_at r out bs) out xs"
    unfolding cstring_def
  proof (intro conjI)
    show "bytes_at (put_at r out bs) out (length xs) = xs"
      by (rule nth_equalityI) (simp_all add: put_at_def bs(1) nth_append)
    show "put_at r out bs (out + length xs) = 0" by (simp add: put_at_def bs(1))
  qed (rule bs(2))
  ultimately show ?thesis using string_at_cstring bs(1) by simp
qed

lemma get_item_same:
  assumes "fits m" and ap: "\<forall>(out, sz) \<in> set (outs w). apart (buf m) (cap m) out sz"
  shows "\<exists>v m' f. fits m' \<and> buf m' = buf m \<and> cap m' = cap m
    \<and> (\<forall>r'. same_on (buf m) (cap m) r r' \<longrightarrow> get_item w (m, r') = (v, m', f r'))
    \<and> (\<forall>r' a. untouched [w] a \<longrightarrow> f r' a = r' a)"
proof (cases w)
  case Want8
  then show ?thesis by (rule_tac get8_same [OF assms(1), of r]) (auto intro!: exI [of _ "\<lambda>r. r"])
next
  case Want16
  then show ?thesis by (rule_tac get16_same [OF assms(1), of r]) (auto intro!: exI [of _ "\<lambda>r. r"])
next
  case Want32
  then show ?thesis by (rule_tac get32_same [OF assms(1), of r]) (auto intro!: exI [of _ "\<lambda>r. r"])
next
  case (WantBytes n)
  obtain p m' where r: "room m n = (p, m')" by fastforce
  have "bytes_at r' q n = bytes_at r q n" if "same_on (buf m) (cap m) r r'" "p = Some q" for r' q
    using room_inside [OF assms(1) r [unfolded that(2)]] that(1) by (intro bytes_at_eqI) (simp add: same_on_def)
  then show ?thesis
    using room_fields [OF assms(1) r] r WantBytes
    by (intro exI [of _ "case p of None \<Rightarrow> VBytes [] | Some q \<Rightarrow> VBytes (bytes_at r q n)"] exI [of _ m'] exI [of _ "\<lambda>r. r"])
       (auto simp: zmsg_getbytes_def split: option.splits)
next
  case (WantStr out sz)
  obtain bs m' where *: "fits m'" "buf m' = buf m" "cap m' = cap m" "length bs \<le> sz" "0 < sz \<Longrightarrow> 0 \<in> set bs"
    "\<And>r'. same_on (buf m) (cap m) r r' \<Longrightarrow> zmsg_getstr (m, r') out sz = (m', put_at r' out bs)"
    using ap WantStr by (auto intro: getstr_same [OF assms(1), of out sz r])
  then show ?thesis
    by (intro exI [of _ "VStr (if sz = 0 then [] else takeWhile (\<lambda>b. b \<noteq> 0) bs)"] exI [of _ m'] exI [of _ "\<lambda>r. put_at r out bs"])
       (auto simp: WantStr string_at_put untouched_def intro!: put_at_elsewhere)
next
  case (WantStat t0 out sz)
  obtain t m1 where m1: "fits m1" "buf m1 = buf m" "cap m1 = cap m"
    "\<And>r'. same_on (buf m) (cap m) r r' \<Longrightarrow> zmsg_get8 (m, r') = (t, m1)"
    using get8_same [OF assms(1), of r] by blast
  obtain len m2 where m2: "fits m2" "buf m2 = buf m" "cap m2 = cap m"
    "\<And>r'. same_on (buf m) (cap m) r r' \<Longrightarrow> zmsg_get32 (m1, r') = (len, m2)"
    using get32_same [OF m1(1), of r, unfolded m1(2,3)] by blast
  have ap2: "apart (buf m2) (cap m2) out sz" using ap WantStat m2(2,3) by simp
  obtain bs m3 where m3: "fits m3" "buf m3 = buf m" "cap m3 = cap m" "length bs \<le> sz" "0 < sz \<Longrightarrow> 0 \<in> set bs"
    "\<And>r'. same_on (buf m) (cap m) r r' \<Longrightarrow> zmsg_getstr (m2, r') out sz = (m3, put_at r' out bs)"
    using getstr_same [OF m2(1) ap2, of r, unfolded m2(2,3)] by blast
  define tm where "tm = (if t = ZKT_TYPE_DIR then (VNODE_DIR, m3) else if t = ZKT_TYPE_FILE then (VNODE_FILE, m3)
    else if t = ZKT_TYPE_DEVICE then (VNODE_DEVICE, m3) else (t0, m3\<lparr>bad := True\<rparr>))"
  have tm: "fits (snd tm)" "buf (snd tm) = buf m" "cap (snd tm) = cap m" using m3 by (auto simp: tm_def fits_def)
  have "get_item w (m, r') = (VStat (fst tm) len (if sz = 0 then [] else takeWhile (\<lambda>b. b \<noteq> 0) bs), snd tm, put_at r' out bs)"
    if "same_on (buf m) (cap m) r r'" for r'
    using m1(4) [OF that] m2(4) [OF that] m3(5) m3(6) [OF that]
    by (simp add: WantStat zmsg_getstat_def string_at_put tm_def [symmetric] split: prod.splits)
  moreover have "put_at r' out bs a = r' a" if "untouched [w] a" for r' a
    using that m3(4) by (auto simp: WantStat untouched_def put_at_def)
  ultimately show ?thesis using tm
    by (intro exI [of _ "VStat (fst tm) len (if sz = 0 then [] else takeWhile (\<lambda>b. b \<noteq> 0) bs)"] exI [of _ "snd tm"]
        exI [of _ "\<lambda>r. put_at r out bs"]) simp
qed

lemma untouched_Cons: "untouched (w # ws) a \<longleftrightarrow> untouched [w] a \<and> untouched ws a"
  by (auto simp: untouched_def)

lemma get_items_same:
  assumes "fits m" and "\<forall>w \<in> set ws. \<forall>(out, sz) \<in> set (outs w). apart (buf m) (cap m) out sz"
    and "same_on (buf m) (cap m) r1 r2"
  shows "\<exists>vs m' r1' r2'. get_items ws (m, r1) = (vs, m', r1') \<and> get_items ws (m, r2) = (vs, m', r2')
    \<and> (bad m' \<or> pos m' \<le> cap m) \<and> (\<forall>a. untouched ws a \<longrightarrow> r1' a = r1 a)"
  using assms
proof (induction ws arbitrary: m r1 r2)
  case Nil
  then show ?case by (auto simp: fits_def)
next
  case (Cons w ws)
  have refl: "same_on (buf m) (cap m) r1 r1" by (simp add: same_on_def)
  obtain v m1 f where w: "fits m1" "buf m1 = buf m" "cap m1 = cap m"
    "\<And>r'. same_on (buf m) (cap m) r1 r' \<Longrightarrow> get_item w (m, r') = (v, m1, f r')"
    "\<And>r' a. untouched [w] a \<Longrightarrow> f r' a = r' a"
    using get_item_same [OF Cons.prems(1), of w r1] Cons.prems(2) by (auto simp: split_beta)
  have "untouched [w] a" if "buf m \<le> a" "a < buf m + cap m" for a
    using that Cons.prems(2) by (force simp: untouched_def apart_def)
  then have "same_on (buf m1) (cap m1) (f r1) (f r2)"
    using Cons.prems(3) w by (auto simp: same_on_def)
  from Cons.IH [OF w(1) _ this] Cons.prems(2) obtain vs m' r1' r2' where
    "get_items ws (m1, f r1) = (vs, m', r1')" "get_items ws (m1, f r2) = (vs, m', r2')"
    "bad m' \<or> pos m' \<le> cap m" "\<forall>a. untouched ws a \<longrightarrow> r1' a = f r1 a"
    by (auto simp: w(2,3))
  then show ?case
    using w(4) [OF refl] w(4) [OF Cons.prems(3)] w(5) untouched_Cons [of w ws] by auto
qed

section \<open>Properties\<close>

text \<open>
  C35: whatever values are written, in whatever order, into a buffer of any capacity, the message
  length returned is the size of the message when it fits and all strings fit their 16-bit length,
  and 0 otherwise; the bytes are then exactly the wire format, and no byte outside the buffer (or,
  on success, past the message) is written.
\<close>

theorem zmsg_encode_correct:
  assumes "c < 2 ^ 32" and "list_all2 (holds b c r) items vs"
  shows "\<exists>n m r'. encode r b c type tag items = Some (n, m, r')
    \<and> n = (if 7 + length (body vs) \<le> c \<and> list_all encodable vs then 7 + length (body vs) else 0)
    \<and> (0 < n \<longrightarrow> bytes_at r' b n = message type tag vs)
    \<and> (\<forall>a. \<not> (b \<le> a \<and> a < b + (if n = 0 then c else n)) \<longrightarrow> r' a = r a)"
  using encode_ok [OF assms, of type tag] by simp

definition hi_ram :: ram where
  "hi_ram = (\<lambda>a. if a = 10 then 104 else if a = 11 then 105 else 0)"

definition hi_items :: "item list" where
  "hi_items = [Put32 7, PutStr 10, PutStat VNODE_PIPE 5 11]"

definition hi_vals :: "val list" where
  "hi_vals = [V32 7, VStr [104, 105], VStat VNODE_PIPE 5 [105]]"

lemma hi_holds: "list_all2 (holds 100 64 hi_ram) hi_items hi_vals"
  by (simp add: hi_items_def hi_vals_def hi_ram_def cstring_simps apart_def)

lemma hi_length: "length (body hi_vals) = 16" "list_all encodable hi_vals"
  by (simp_all add: hi_vals_def body_def wire_str_def)

theorem zmsg_encode_correct_witness:
  "\<exists>n m r'. encode hi_ram 100 64 5 9 hi_items = Some (n, m, r') \<and> n = 23 \<and> bytes_at r' 100 23 = message 5 9 hi_vals"
  using zmsg_encode_correct [OF _ hi_holds, of 5 9] by (auto simp: hi_length)



text \<open>
  C30: on an arbitrary received message, any sequence of reads depends on no byte of memory outside
  the message, moves the cursor past its end only by marking it bad, and changes no byte outside
  the buffers it was given for strings.
\<close>

theorem zmsg_decode_contained:
  assumes "len < 2 ^ 32" and "\<forall>w \<in> set wants. \<forall>(out, sz) \<in> set (outs w). apart b len out sz"
    and "\<forall>a. b \<le> a \<and> a < b + len \<longrightarrow> r1 a = r2 a"
  shows "\<exists>vs m r1' r2'. get_items wants (zmsg_open b len, r1) = (vs, m, r1')
    \<and> get_items wants (zmsg_open b len, r2) = (vs, m, r2')
    \<and> (bad m \<or> pos m \<le> len) \<and> (\<forall>a. untouched wants a \<longrightarrow> r1' a = r1 a)"
proof -
  let ?m = "zmsg_open b len"
  have m: "fits ?m" "buf ?m = b" "cap ?m = len" using assms(1) by (simp_all add: zmsg_open_def fits_def)
  have "same_on (buf ?m) (cap ?m) r1 r2" using assms(3) by (simp add: same_on_def m)
  from get_items_same [OF m(1) _ this, of wants] obtain vs m' r1' r2' where
    *: "get_items wants (?m, r1) = (vs, m', r1')" "get_items wants (?m, r2) = (vs, m', r2')"
    "bad m' \<or> pos m' \<le> len" "\<forall>a. untouched wants a \<longrightarrow> r1' a = r1 a" using assms(2) by (auto simp: m)
  then show ?thesis by blast
qed

theorem zmsg_decode_contained_witness:
  "\<exists>vs m r1' r2'. get_items [Want8, WantStr 50 4] (zmsg_open 10 2, hi_ram) = (vs, m, r1')
    \<and> get_items [Want8, WantStr 50 4] (zmsg_open 10 2, hi_ram(12 := 9)) = (vs, m, r2') \<and> r1' 54 = 0"
proof -
  have h: "(2 :: nat) < 2 ^ 32" "\<forall>w \<in> set [Want8, WantStr 50 4]. \<forall>(out, sz) \<in> set (outs w). apart 10 2 out sz"
    "\<forall>a. 10 \<le> a \<and> a < 10 + (2 :: nat) \<longrightarrow> hi_ram a = (hi_ram(12 := 9)) a"
    by (simp_all add: apart_def)
  obtain vs m r1' r2' where
    *: "get_items [Want8, WantStr 50 4] (zmsg_open 10 2, hi_ram) = (vs, m, r1')"
    "get_items [Want8, WantStr 50 4] (zmsg_open 10 2, hi_ram(12 := 9)) = (vs, m, r2')"
    "\<forall>a. untouched [Want8, WantStr 50 4] a \<longrightarrow> r1' a = hi_ram a"
    using zmsg_decode_contained [OF h] by blast
  have "untouched [Want8, WantStr 50 4] 54" by (simp add: untouched_def)
  with *(3) have "r1' 54 = 0" by (simp add: hi_ram_def)
  with *(1,2) show ?thesis by blast
qed

end
