(* ===== verification/Sched.thy ===== *)
theory Sched
  imports Zkt_Prelude
begin

text \<open>
  The thread scheduler, \<open>zkt/scheduler/sched.c\<close>. Threads are addresses; each field of
  \<open>struct thread\<close> is a map from threads, so that the linked lists (the run queue and the wait
  queues share the link \<open>next\<close>) are pointer structures as in the code. Every function here runs
  with interrupts off; a function that switches threads ends in the thread it switched to. What
  it asks of other parts of the kernel is recorded in \<open>calls\<close>, in order.
\<close>

section \<open>State\<close>

type_synonym tid = nat
type_synonym wqid = nat

datatype thread_state = THREAD_RUNNABLE | THREAD_RUNNING | THREAD_SLEEPING | THREAD_BLOCKED | THREAD_DEAD

datatype call = Ns_ref "nat option" | Ns_unref "nat option" | Kstack_free nat | Kfree nat
  | Vmm_as_activate "nat option" | Set_kernel_stack nat | Account_tick nat

record sched =
  t_id :: "tid \<Rightarrow> u32"
  t_name :: "tid \<Rightarrow> string"
  t_state :: "tid \<Rightarrow> thread_state"
  t_stack_top :: "tid \<Rightarrow> nat"
  t_wake_tick :: "tid \<Rightarrow> nat"
  t_ns :: "tid \<Rightarrow> nat option"
  t_as :: "tid \<Rightarrow> nat option"
  t_process :: "tid \<Rightarrow> nat option"
  t_next :: "tid \<Rightarrow> tid option"
  t_sleep_next :: "tid \<Rightarrow> tid option"
  t_waiting_on :: "tid \<Rightarrow> wqid option"
  t_timed_out :: "tid \<Rightarrow> bool"
  t_all_next :: "tid \<Rightarrow> tid option"
  wq_head :: "wqid \<Rightarrow> tid option"
  wq_tail :: "wqid \<Rightarrow> tid option"
  current :: "tid option"
  idle :: "tid option"
  run_head :: "tid option"
  run_tail :: "tid option"
  sleepers :: "tid option"
  switched_from :: "tid option"
  all_threads :: "tid option"
  preemptive :: bool
  idle_ticks :: u64
  slice_left :: u32
  next_id :: u32
  thread_count :: nat
  calls :: "call list"

definition TIMER_HZ :: nat where "TIMER_HZ = 100"
definition TIME_SLICE_MS :: nat where "TIME_SLICE_MS = 20"
definition TIME_SLICE_TICKS :: nat where "TIME_SLICE_TICKS = TIME_SLICE_MS * TIMER_HZ div 1000"

definition set_state :: "tid \<Rightarrow> thread_state \<Rightarrow> sched \<Rightarrow> sched" where
  "set_state t v s = s\<lparr>t_state := (t_state s)(t := v)\<rparr>"

definition call :: "call \<Rightarrow> sched \<Rightarrow> sched" where
  "call c s = s\<lparr>calls := calls s @ [c]\<rparr>"

section \<open>Queues\<close>

definition run_enqueue :: "tid \<Rightarrow> sched \<Rightarrow> sched" where
  "run_enqueue t s =
     (let s1 = s\<lparr>t_next := (t_next s)(t := None)\<rparr>;
          s2 = (case run_tail s1 of
                  Some u \<Rightarrow> s1\<lparr>t_next := (t_next s1)(u := Some t)\<rparr>
                | None \<Rightarrow> s1\<lparr>run_head := Some t\<rparr>)
      in s2\<lparr>run_tail := Some t\<rparr>)"

definition run_dequeue :: "sched \<Rightarrow> tid option \<times> sched" where
  "run_dequeue s =
     (case run_head s of
        None \<Rightarrow> (None, s)
      | Some t \<Rightarrow>
          let s1 = s\<lparr>run_head := t_next s t\<rparr>
          in (Some t, if run_head s1 = None then s1\<lparr>run_tail := None\<rparr> else s1))"

text \<open>
  A list is walked through the address of the link to the next thread: the list's head, or the
  link field of a thread. \<open>walk\<close> is \<open>while (*link && !stop(*link)) link = &(*link)->next\<close>.
\<close>

datatype link = Head | After tid

partial_function (option) walk :: "(tid \<Rightarrow> tid option) \<Rightarrow> (tid \<Rightarrow> bool) \<Rightarrow> link \<Rightarrow> tid option \<Rightarrow> link option" where
  "walk nx stop l p =
     (if p \<noteq> None \<and> \<not> stop (the p) then walk nx stop (After (the p)) (nx (the p)) else Some l)"

definition all_threads_add :: "tid \<Rightarrow> sched \<Rightarrow> sched" where
  "all_threads_add t s = s\<lparr>t_all_next := (t_all_next s)(t := all_threads s), all_threads := Some t\<rparr>"

definition all_link :: "link \<Rightarrow> tid option \<Rightarrow> sched \<Rightarrow> sched" where
  "all_link l v s = (case l of
      Head \<Rightarrow> s\<lparr>all_threads := v\<rparr>
    | After u \<Rightarrow> s\<lparr>t_all_next := (t_all_next s)(u := v)\<rparr>)"

text \<open>This loop does not look for the end of the list: past it, it reads through a null pointer.\<close>

definition all_threads_remove :: "tid \<Rightarrow> sched \<Rightarrow> sched option" where
  "all_threads_remove t s =
     Option.bind (walk (t_all_next s) (\<lambda>u. u = t) Head (all_threads s)) (\<lambda>l.
     if (case l of Head \<Rightarrow> all_threads s | After u \<Rightarrow> t_all_next s u) = Some t
     then Some (all_link l (t_all_next s t) s) else None)"

definition sleep_link :: "link \<Rightarrow> tid option \<Rightarrow> sched \<Rightarrow> sched" where
  "sleep_link l v s = (case l of
      Head \<Rightarrow> s\<lparr>sleepers := v\<rparr>
    | After u \<Rightarrow> s\<lparr>t_sleep_next := (t_sleep_next s)(u := v)\<rparr>)"

definition sleep_at :: "link \<Rightarrow> sched \<Rightarrow> tid option" where
  "sleep_at l s = (case l of Head \<Rightarrow> sleepers s | After u \<Rightarrow> t_sleep_next s u)"

definition sleep_insert :: "tid \<Rightarrow> sched \<Rightarrow> sched option" where
  "sleep_insert t s =
     Option.bind (walk (t_sleep_next s) (\<lambda>u. t_wake_tick s u > t_wake_tick s t) Head (sleepers s)) (\<lambda>l.
     Some (sleep_link l (Some t) (s\<lparr>t_sleep_next := (t_sleep_next s)(t := sleep_at l s)\<rparr>)))"

definition sleep_remove :: "tid \<Rightarrow> sched \<Rightarrow> sched option" where
  "sleep_remove t s =
     Option.bind (walk (t_sleep_next s) (\<lambda>u. u = t) Head (sleepers s)) (\<lambda>l.
     Some (if sleep_at l s \<noteq> None then sleep_link l (t_sleep_next s t) s else s))"

text \<open>The loop variables are \<open>c\<close>, the thread at the link, and \<open>prev\<close>, the thread the link is in.\<close>

definition waitq_remove :: "wqid \<Rightarrow> tid \<Rightarrow> sched \<Rightarrow> sched option" where
  "waitq_remove q t s =
     Option.bind (walk (t_next s) (\<lambda>c. c = t) Head (wq_head s q)) (\<lambda>l.
     Some (case (case l of Head \<Rightarrow> wq_head s q | After prev \<Rightarrow> t_next s prev) of
        None \<Rightarrow> s
      | Some c \<Rightarrow>
          let s1 = (case l of
                 After prev \<Rightarrow> s\<lparr>t_next := (t_next s)(prev := t_next s c)\<rparr>
               | Head \<Rightarrow> s\<lparr>wq_head := (wq_head s)(q := t_next s c)\<rparr>)
          in if wq_tail s1 q = Some c
             then s1\<lparr>wq_tail := (wq_tail s1)(q := (case l of After prev \<Rightarrow> Some prev | Head \<Rightarrow> None))\<rparr>
             else s1))"

section \<open>Switching\<close>

definition finish_switch :: "sched \<Rightarrow> sched option" where
  "finish_switch s = Option.bind (switched_from s) (\<lambda>prev.
     if t_state s prev = THREAD_DEAD
     then Option.bind (all_threads_remove prev s) (\<lambda>s1.
          let s2 = call (Ns_unref (t_ns s1 prev)) s1;
              s3 = (if t_stack_top s2 prev \<noteq> 0 then call (Kstack_free (t_stack_top s2 prev)) s2 else s2);
              s4 = call (Kfree prev) s3
          in Some (s4\<lparr>thread_count := thread_count s4 - 1\<rparr>))
     else Some s)"

text \<open>The parts of \<open>schedule\<close> before and after the choice of the next thread.\<close>

definition requeue_current :: "tid \<Rightarrow> sched \<Rightarrow> sched" where
  "requeue_current prev s =
     (if t_state s prev = THREAD_RUNNING
      then let s1 = set_state prev THREAD_RUNNABLE s
           in if Some prev \<noteq> idle s1 then run_enqueue prev s1 else s1
      else s)"

definition switch_to :: "tid \<Rightarrow> tid \<Rightarrow> sched \<Rightarrow> sched option" where
  "switch_to prev next s =
     (let s1 = call (Vmm_as_activate (t_as s next)) (s\<lparr>current := Some next, switched_from := Some prev\<rparr>);
          s2 = (if t_stack_top s1 next \<noteq> 0 then call (Set_kernel_stack (t_stack_top s1 next)) s1 else s1)
      in finish_switch s2)"

definition schedule :: "sched \<Rightarrow> sched option" where
  "schedule s = Option.bind (current s) (\<lambda>prev.
     let (deq, s2) = run_dequeue (requeue_current prev s)
     in Option.bind (if deq = None then idle s2 else deq) (\<lambda>next.
        let s3 = (set_state next THREAD_RUNNING s2)\<lparr>slice_left := of_nat TIME_SLICE_TICKS\<rparr>
        in if next = prev then Some s3 else switch_to prev next s3))"

section \<open>Threads\<close>

text \<open>
  The results of \<open>kmalloc\<close> and \<open>kstack_alloc\<close> are arguments: the address of the thread and the top of its
  stack, or \<open>None\<close>. The saved stack pointer, which only the context switch reads, is not represented,
  nor are the entry point and its argument.
\<close>

definition thread_alloc :: "string \<Rightarrow> tid option \<Rightarrow> nat option \<Rightarrow> sched \<Rightarrow> tid option \<times> sched" where
  "thread_alloc name mem stk s =
     (case mem of None \<Rightarrow> (None, s)
      | Some t \<Rightarrow> case stk of None \<Rightarrow> (None, call (Kfree t) s)
        | Some stack \<Rightarrow>
            let ns = Option.bind (current s) (t_ns s);
                s1 = s\<lparr>t_name := (t_name s)(t := name), t_state := (t_state s)(t := THREAD_RUNNABLE),
                       t_stack_top := (t_stack_top s)(t := stack),
                       t_next := (t_next s)(t := None), t_sleep_next := (t_sleep_next s)(t := None),
                       t_waiting_on := (t_waiting_on s)(t := None), t_timed_out := (t_timed_out s)(t := False),
                       t_ns := (t_ns s)(t := ns)\<rparr>;
                s2 = call (Ns_ref ns) s1;
                s3 = s2\<lparr>t_as := (t_as s2)(t := None), t_process := (t_process s2)(t := None),
                        t_id := (t_id s2)(t := next_id s2), next_id := next_id s2 + 1,
                        thread_count := thread_count s2 + 1\<rparr>
            in (Some t, all_threads_add t s3))"

definition sched_init :: "tid option \<Rightarrow> tid option \<Rightarrow> nat option \<Rightarrow> sched \<Rightarrow> sched outcome" where
  "sched_init mem idle_mem idle_stk s =
     (case mem of None \<Rightarrow> Panic ''sched_init: out of memory''
      | Some m \<Rightarrow>
          let s1 = s\<lparr>t_id := (t_id s)(m := next_id s), next_id := next_id s + 1, t_name := (t_name s)(m := ''main''),
                     t_state := (t_state s)(m := THREAD_RUNNING), t_stack_top := (t_stack_top s)(m := 0),
                     t_next := (t_next s)(m := None), t_sleep_next := (t_sleep_next s)(m := None),
                     t_waiting_on := (t_waiting_on s)(m := None), t_timed_out := (t_timed_out s)(m := False),
                     t_ns := (t_ns s)(m := None), t_as := (t_as s)(m := None), t_process := (t_process s)(m := None),
                     thread_count := thread_count s + 1\<rparr>;
              s2 = all_threads_add m s1;
              (i, s3) = thread_alloc ''idle'' idle_mem idle_stk s2;
              s4 = s3\<lparr>idle := i\<rparr>
          in if idle s4 = None then Panic ''sched_init: out of memory''
             else Done (s4\<lparr>slice_left := of_nat TIME_SLICE_TICKS, current := Some m\<rparr>))"

definition sched_enable_preemption :: "sched \<Rightarrow> sched" where
  "sched_enable_preemption s = s\<lparr>preemptive := True\<rparr>"

definition thread_create_in :: "string \<Rightarrow> nat option \<Rightarrow> nat option \<Rightarrow> tid option \<Rightarrow> nat option \<Rightarrow> sched \<Rightarrow> tid option \<times> sched" where
  "thread_create_in name as proc mem stk s =
     (case thread_alloc name mem stk s of
        (None, s1) \<Rightarrow> (None, s1)
      | (Some t, s1) \<Rightarrow>
          (Some t, run_enqueue t (s1\<lparr>t_as := (t_as s1)(t := as), t_process := (t_process s1)(t := proc)\<rparr>)))"

definition thread_create :: "string \<Rightarrow> tid option \<Rightarrow> nat option \<Rightarrow> sched \<Rightarrow> tid option \<times> sched" where
  "thread_create name mem stk s = thread_create_in name None None mem stk s"

definition thread_address_space :: "sched \<Rightarrow> nat option" where
  "thread_address_space s = Option.bind (current s) (t_as s)"

definition thread_process :: "sched \<Rightarrow> nat option" where
  "thread_process s = Option.bind (current s) (t_process s)"

definition thread_namespace :: "sched \<Rightarrow> nat option" where
  "thread_namespace s = Option.bind (current s) (t_ns s)"

definition thread_leave_process :: "sched \<Rightarrow> sched option" where
  "thread_leave_process s = Option.bind (current s) (\<lambda>c. Some (s\<lparr>t_process := (t_process s)(c := None)\<rparr>))"

definition thread_set_address_space :: "nat option \<Rightarrow> sched \<Rightarrow> sched option" where
  "thread_set_address_space as s = Option.bind (current s) (\<lambda>c.
     Some (call (Vmm_as_activate as) (s\<lparr>t_as := (t_as s)(c := as)\<rparr>)))"

definition thread_set_namespace :: "nat option \<Rightarrow> sched \<Rightarrow> sched option" where
  "thread_set_namespace ns s = Option.bind (current s) (\<lambda>c.
     let old = t_ns s c; s1 = call (Ns_ref ns) s
     in Some (call (Ns_unref old) (s1\<lparr>t_ns := (t_ns s1)(c := ns)\<rparr>)))"

definition thread_yield :: "sched \<Rightarrow> sched option" where
  "thread_yield s = schedule s"

definition thread_sleep_until :: "nat \<Rightarrow> sched \<Rightarrow> sched option" where
  "thread_sleep_until tick s = Option.bind (current s) (\<lambda>c.
     let s1 = (set_state c THREAD_SLEEPING s)\<lparr>t_wake_tick := (t_wake_tick s)(c := tick)\<rparr>
     in Option.bind (sleep_insert c s1) schedule)"

text \<open>A dead thread would get past its last \<open>schedule\<close> only by running again.\<close>

definition thread_exit :: "sched \<Rightarrow> sched run" where
  "thread_exit s = (case current s of None \<Rightarrow> None
    | Some c \<Rightarrow>
        let ns = t_ns s c;
            s1 = call (Ns_unref ns) (s\<lparr>t_ns := (t_ns s)(c := None)\<rparr>);
            s2 = set_state c THREAD_DEAD s1
        in Option.bind (schedule s2) (\<lambda>s3.
           if current s3 = Some c then rpanic ''thread_exit: a dead thread was scheduled again'' else rret s3))"

definition state_name :: "thread_state \<Rightarrow> string" where
  "state_name v = (case v of THREAD_RUNNABLE \<Rightarrow> ''ready'' | THREAD_RUNNING \<Rightarrow> ''running''
     | THREAD_SLEEPING \<Rightarrow> ''sleeping'' | THREAD_BLOCKED \<Rightarrow> ''blocked'' | THREAD_DEAD \<Rightarrow> ''dead'')"

definition thread_current :: "sched \<Rightarrow> tid option" where
  "thread_current s = current s"

definition sched_idle_ticks :: "sched \<Rightarrow> u64" where
  "sched_idle_ticks s = idle_ticks s"

definition thread_state_name :: "tid \<Rightarrow> sched \<Rightarrow> string" where
  "thread_state_name t s = state_name (t_state s t)"

definition thread_current_name :: "sched \<Rightarrow> string option" where
  "thread_current_name s = map_option (t_name s) (current s)"

definition sched_thread_count :: "sched \<Rightarrow> nat" where
  "sched_thread_count s = thread_count s"

fun snapshot_from :: "sched \<Rightarrow> tid option \<Rightarrow> nat \<Rightarrow> (u32 \<times> string \<times> string) list" where
  "snapshot_from s t 0 = []"
| "snapshot_from s None n = []"
| "snapshot_from s (Some t) (Suc n) = (t_id s t, t_name s t, state_name (t_state s t)) # snapshot_from s (t_all_next s t) n"

definition sched_snapshot :: "nat \<Rightarrow> sched \<Rightarrow> (u32 \<times> string \<times> string) list" where
  "sched_snapshot lim s = snapshot_from s (all_threads s) lim"

section \<open>Wait queues\<close>

definition resched_if_idle :: "sched \<Rightarrow> sched option" where
  "resched_if_idle s = (if current s \<noteq> None \<and> current s = idle s \<and> run_head s \<noteq> None then schedule s else Some s)"

text \<open>
  \<open>ie\<close> is \<open>cpu_interrupts_enabled()\<close>. What \<open>waitq_sleep_until\<close> returns is the negation of its thread's
  \<open>t_timed_out\<close> when the thread runs again.
\<close>

definition waitq_append :: "wqid \<Rightarrow> tid \<Rightarrow> sched \<Rightarrow> sched" where
  "waitq_append q c s =
     (let s1 = (set_state c THREAD_BLOCKED s)\<lparr>t_next := (t_next s)(c := None)\<rparr>;
          s2 = (case wq_tail s1 q of
                  Some u \<Rightarrow> s1\<lparr>t_next := (t_next s1)(u := Some c)\<rparr>
                | None \<Rightarrow> s1\<lparr>wq_head := (wq_head s1)(q := Some c)\<rparr>)
      in s2\<lparr>wq_tail := (wq_tail s2)(q := Some c)\<rparr>)"

definition waitq_sleep :: "bool \<Rightarrow> wqid \<Rightarrow> sched \<Rightarrow> sched run" where
  "waitq_sleep ie q s =
     (if ie then rpanic ''waitq_sleep: interrupts must be disabled around the condition check''
      else Option.bind (current s) (\<lambda>c. Option.bind (schedule (waitq_append q c s)) rret))"

definition waitq_sleep_until :: "bool \<Rightarrow> wqid \<Rightarrow> nat \<Rightarrow> sched \<Rightarrow> sched run" where
  "waitq_sleep_until ie q tick s =
     (if ie then rpanic ''waitq_sleep_until: interrupts must be disabled around the condition check''
      else Option.bind (current s) (\<lambda>c.
        let s1 = s\<lparr>t_waiting_on := (t_waiting_on s)(c := Some q), t_timed_out := (t_timed_out s)(c := False),
                   t_wake_tick := (t_wake_tick s)(c := tick)\<rparr>
        in Option.bind (sleep_insert c s1) (waitq_sleep ie q)))"

definition waitq_pop :: "wqid \<Rightarrow> sched \<Rightarrow> (tid option \<times> sched) option" where
  "waitq_pop q s = (case wq_head s q of
      None \<Rightarrow> Some (None, s)
    | Some t \<Rightarrow>
        let s1 = s\<lparr>wq_head := (wq_head s)(q := t_next s t)\<rparr>;
            s2 = (if wq_head s1 q = None then s1\<lparr>wq_tail := (wq_tail s1)(q := None)\<rparr> else s1)
        in Option.bind (if t_waiting_on s2 t \<noteq> None
                        then Option.bind (sleep_remove t s2) (\<lambda>s3. Some (s3\<lparr>t_waiting_on := (t_waiting_on s3)(t := None)\<rparr>))
                        else Some s2) (\<lambda>s4.
           Some (Some t, run_enqueue t (set_state t THREAD_RUNNABLE s4))))"

definition waitq_wake_one :: "wqid \<Rightarrow> sched \<Rightarrow> sched option" where
  "waitq_wake_one q s = Option.bind (waitq_pop q s) (\<lambda>(t, s1). resched_if_idle s1)"

partial_function (option) pop_all :: "wqid \<Rightarrow> sched \<Rightarrow> sched option" where
  "pop_all q s = Option.bind (waitq_pop q s) (\<lambda>(t, s1). if t = None then Some s1 else pop_all q s1)"

definition waitq_wake_all :: "wqid \<Rightarrow> sched \<Rightarrow> sched option" where
  "waitq_wake_all q s = Option.bind (pop_all q s) resched_if_idle"

section \<open>The timer tick\<close>

text \<open>The body of the loop over the sleepers whose time has come, and the loop.\<close>

definition expire :: "tid \<Rightarrow> sched \<Rightarrow> sched option" where
  "expire t s =
     (let s1 = s\<lparr>sleepers := t_sleep_next s t\<rparr>
      in Option.bind (case t_waiting_on s1 t of
            Some q \<Rightarrow> Option.bind (waitq_remove q t s1) (\<lambda>s2.
              Some (s2\<lparr>t_waiting_on := (t_waiting_on s2)(t := None), t_timed_out := (t_timed_out s2)(t := True)\<rparr>))
          | None \<Rightarrow> Some s1) (\<lambda>s3.
         Some (run_enqueue t (set_state t THREAD_RUNNABLE s3))))"

partial_function (option) expire_sleepers :: "nat \<Rightarrow> sched \<Rightarrow> sched option" where
  "expire_sleepers now s =
     (if sleepers s \<noteq> None \<and> t_wake_tick s (the (sleepers s)) \<le> now
      then Option.bind (expire (the (sleepers s)) s) (expire_sleepers now) else Some s)"

definition account :: "sched \<Rightarrow> sched" where
  "account s = (case current s of None \<Rightarrow> s
    | Some c \<Rightarrow> if current s = idle s then s\<lparr>idle_ticks := idle_ticks s + 1\<rparr>
        else case t_process s c of Some p \<Rightarrow> call (Account_tick p) s | None \<Rightarrow> s)"

definition sched_tick :: "nat \<Rightarrow> sched \<Rightarrow> sched option" where
  "sched_tick now s =
     (if current s = None then Some s
      else Option.bind (expire_sleepers now (account s)) (\<lambda>s2.
        if current s2 = idle s2 then (if run_head s2 \<noteq> None then schedule s2 else Some s2)
        else if preemptive s2
        then let s3 = s2\<lparr>slice_left := slice_left s2 - 1\<rparr>
             in if slice_left s3 = 0 then schedule s3 else Some s3
        else Some s2))"

section \<open>Linked lists\<close>

text \<open>The nodes from pointer \<open>p\<close> up to pointer \<open>q\<close> are \<open>xs\<close>; a list ends in a null pointer.\<close>

fun lseg :: "(tid \<Rightarrow> tid option) \<Rightarrow> tid option \<Rightarrow> tid list \<Rightarrow> tid option \<Rightarrow> bool" where
  "lseg nx p [] q \<longleftrightarrow> p = q"
| "lseg nx p (x # xs) q \<longleftrightarrow> p = Some x \<and> lseg nx (nx x) xs q"

abbreviation chain :: "(tid \<Rightarrow> tid option) \<Rightarrow> tid option \<Rightarrow> tid list \<Rightarrow> bool" where
  "chain nx p xs \<equiv> lseg nx p xs None"

definition last_of :: "tid list \<Rightarrow> tid option" where
  "last_of xs = (if xs = [] then None else Some (last xs))"

lemma last_of_simps [simp]: "last_of [] = None" "last_of [x] = Some x" "last_of (xs @ [x]) = Some x" "last_of xs = None \<longleftrightarrow> xs = []"
  by (simp_all add: last_of_def)

lemma lseg_append: "lseg nx p (xs @ ys) q \<longleftrightarrow> (\<exists>m. lseg nx p xs m \<and> lseg nx m ys q)"
  by (induction xs arbitrary: p) auto

lemma lseg_upd [simp]: "x \<notin> set xs \<Longrightarrow> lseg (nx(x := v)) p xs q = lseg nx p xs q"
  by (induction xs arbitrary: p) auto

lemma chain_unique: "chain nx p xs \<Longrightarrow> chain nx p ys \<Longrightarrow> xs = ys"
proof (induction xs arbitrary: p ys)
  case Nil
  then show ?case by (cases ys) auto
next
  case (Cons x xs)
  then show ?case by (cases ys) auto
qed

lemma chain_distinct: "chain nx p xs \<Longrightarrow> distinct xs"
proof (induction xs arbitrary: p)
  case (Cons x xs)
  have "x \<notin> set xs"
  proof
    assume "x \<in> set xs"
    then obtain as bs where xs: "xs = as @ x # bs" by (meson split_list)
    with Cons.prems have "chain nx (Some x) (x # bs)" "chain nx (Some x) (x # xs)" by (auto simp: lseg_append)
    then have "x # bs = x # xs" by (rule chain_unique)
    then show False using xs by simp
  qed
  with Cons show ?case by auto
qed simp

lemma chain_head: "chain nx p xs \<Longrightarrow> p = None \<longleftrightarrow> xs = []"
  by (cases xs) auto

lemma chain_hd: "chain nx (Some x) xs \<Longrightarrow> \<exists>ys. xs = x # ys \<and> chain nx (nx x) ys"
  by (cases xs) auto

text \<open>Following a link, adding at the end, inserting and unlinking.\<close>

definition link_after :: "tid list \<Rightarrow> link" where
  "link_after xs = (if xs = [] then Head else After (last xs))"

lemma walk_chain: "chain nx p xs \<Longrightarrow> walk nx stop (link_after ys) p = Some (link_after (ys @ takeWhile (\<lambda>u. \<not> stop u) xs))"
proof (induction xs arbitrary: p ys)
  case Nil
  then show ?case by (subst walk.simps) simp
next
  case (Cons x xs)
  from Cons.IH [of "nx x" "ys @ [x]"] Cons.prems show ?case
    by (subst walk.simps) (auto simp: link_after_def)
qed

lemma walk_list: "chain nx p xs \<Longrightarrow> walk nx stop Head p = Some (link_after (takeWhile (\<lambda>u. \<not> stop u) xs))"
  using walk_chain [of nx p xs stop "[]"] by (simp add: link_after_def)

definition link_value :: "(tid \<Rightarrow> tid option) \<Rightarrow> tid option \<Rightarrow> link \<Rightarrow> tid option" where
  "link_value nx p l = (case l of Head \<Rightarrow> p | After u \<Rightarrow> nx u)"

lemma lseg_mid: "lseg nx p (as @ bs) q \<Longrightarrow> lseg nx (link_value nx p (link_after as)) bs q"
proof (induction as arbitrary: p)
  case Nil
  then show ?case by (simp add: link_value_def link_after_def)
next
  case (Cons a as)
  then show ?case by (cases as) (auto simp: link_value_def link_after_def)
qed

lemma lseg_front: "lseg nx p (as @ bs) q \<Longrightarrow> as \<noteq> [] \<Longrightarrow> distinct as \<Longrightarrow> lseg (nx(last as := v)) p as v"
proof (induction as arbitrary: p)
  case (Cons a as)
  then show ?case by (cases as) auto
qed simp

lemma lseg_relink:
  assumes "lseg nx p (as @ bs) q" and "lseg nx v cs None" and "distinct as" and "set as \<inter> set cs = {}"
  shows "as \<noteq> [] \<Longrightarrow> chain (nx(last as := v)) p (as @ cs)" and "as = [] \<Longrightarrow> chain nx v (as @ cs)"
proof -
  assume as: "as \<noteq> []"
  then have "last as \<notin> set cs" using assms(4) last_in_set by blast
  then have "lseg (nx(last as := v)) v cs None" using assms(2) by simp
  with lseg_front [OF assms(1) as assms(3)] show "chain (nx(last as := v)) p (as @ cs)"
    by (auto simp: lseg_append)
qed (use assms(2) in simp)

lemma chain_snoc:
  assumes "chain nx p xs" and "t \<notin> set xs"
  shows "xs \<noteq> [] \<Longrightarrow> chain (nx(t := None, last xs := Some t)) p (xs @ [t])"
    and "xs = [] \<Longrightarrow> chain (nx(t := None)) (Some t) (xs @ [t])"
proof -
  have "lseg (nx(t := None)) p (xs @ []) None" "lseg (nx(t := None)) (Some t) [t] None" using assms by simp_all
  from lseg_relink [OF this] chain_distinct [OF assms(1)] assms(2)
  show "xs \<noteq> [] \<Longrightarrow> chain (nx(t := None, last xs := Some t)) p (xs @ [t])"
    "xs = [] \<Longrightarrow> chain (nx(t := None)) (Some t) (xs @ [t])" by auto
qed

lemma chain_insert:
  assumes "chain nx p (as @ bs)" and "t \<notin> set (as @ bs)"
  defines "v \<equiv> link_value nx p (link_after as)"
  shows "as \<noteq> [] \<Longrightarrow> chain (nx(t := v, last as := Some t)) p (as @ t # bs)"
    and "as = [] \<Longrightarrow> chain (nx(t := v)) (Some t) (as @ t # bs)"
proof -
  have d: "distinct (as @ bs)" by (rule chain_distinct [OF assms(1)])
  have "lseg (nx(t := v)) p (as @ bs) None" using assms(1,2) by (simp add: lseg_append)
  moreover have "lseg (nx(t := v)) (Some t) (t # bs) None"
    using lseg_mid [OF assms(1)] assms(2) by (simp add: v_def)
  ultimately show "as \<noteq> [] \<Longrightarrow> chain (nx(t := v, last as := Some t)) p (as @ t # bs)"
    "as = [] \<Longrightarrow> chain (nx(t := v)) (Some t) (as @ t # bs)"
    using lseg_relink [of "nx(t := v)" p as bs None "Some t" "t # bs"] d assms(2) by auto
qed

lemma chain_remove:
  assumes "chain nx p (as @ t # bs)"
  shows "as \<noteq> [] \<Longrightarrow> chain (nx(last as := nx t)) p (as @ bs)" and "as = [] \<Longrightarrow> chain nx (nx t) (as @ bs)"
proof -
  have "distinct (as @ t # bs)" by (rule chain_distinct [OF assms])
  moreover have "lseg nx (nx t) bs None" using assms by (auto simp: lseg_append)
  ultimately show "as \<noteq> [] \<Longrightarrow> chain (nx(last as := nx t)) p (as @ bs)" "as = [] \<Longrightarrow> chain nx (nx t) (as @ bs)"
    using lseg_relink [of nx p as "t # bs" None "nx t" bs] assms by auto
qed

lemma takeWhile_neq: "t \<in> set xs \<Longrightarrow> distinct xs \<Longrightarrow> \<exists>bs. xs = takeWhile (\<lambda>u. u \<noteq> t) xs @ t # bs \<and> filter (\<lambda>u. u \<noteq> t) xs = takeWhile (\<lambda>u. u \<noteq> t) xs @ bs"
proof (induction xs)
  case (Cons x xs)
  then show ?case
  proof (cases "x = t")
    case True
    then have "filter (\<lambda>u. u \<noteq> t) xs = xs" using Cons.prems by (auto simp: filter_id_conv)
    with True show ?thesis by simp
  qed auto
qed simp

end
