(* ===== verification/Sched_Inv.thy ===== *)
theory Sched_Inv
  imports Sched
begin

text \<open>
  The scheduler's invariant, that every operation keeps it and returns, and that the round-robin
  order starves no thread.
\<close>

section \<open>The invariant\<close>

text \<open>The lists behind the pointers: the run queue, the sleepers, the wait queues and all threads.\<close>

definition queues :: "sched \<Rightarrow> tid list \<Rightarrow> tid list \<Rightarrow> (wqid \<Rightarrow> tid list) \<Rightarrow> tid list \<Rightarrow> bool" where
  "queues s R S W A \<longleftrightarrow>
     chain (t_next s) (run_head s) R \<and> run_tail s = last_of R
     \<and> chain (t_sleep_next s) (sleepers s) S
     \<and> (\<forall>q. chain (t_next s) (wq_head s q) (W q) \<and> wq_tail s q = last_of (W q))
     \<and> chain (t_all_next s) (all_threads s) A
     \<and> (\<forall>q. set R \<inter> set (W q) = {}) \<and> (\<forall>q q'. q \<noteq> q' \<longrightarrow> set (W q) \<inter> set (W q') = {})"

text \<open>Each thread is where its state says.\<close>

definition placed :: "sched \<Rightarrow> tid list \<Rightarrow> tid list \<Rightarrow> (wqid \<Rightarrow> tid list) \<Rightarrow> tid \<Rightarrow> bool" where
  "placed s R S W t \<longleftrightarrow>
     (t \<in> set R \<longleftrightarrow> t_state s t = THREAD_RUNNABLE \<and> Some t \<noteq> idle s)
     \<and> (t \<in> set S \<longleftrightarrow> t_state s t = THREAD_SLEEPING \<or> t_waiting_on s t \<noteq> None)
     \<and> (t_state s t = THREAD_BLOCKED \<longleftrightarrow> (\<exists>q. t \<in> set (W q)))
     \<and> (\<forall>q. t_waiting_on s t = Some q \<longrightarrow> t \<in> set (W q))
     \<and> (Some t = idle s \<longrightarrow> t_state s t = THREAD_RUNNABLE \<or> t_state s t = THREAD_RUNNING)"

definition sched_wf :: "sched \<Rightarrow> tid list \<Rightarrow> tid list \<Rightarrow> (wqid \<Rightarrow> tid list) \<Rightarrow> tid list \<Rightarrow> bool" where
  "sched_wf s R S W A \<longleftrightarrow> queues s R S W A
     \<and> (\<exists>c \<in> set A. current s = Some c) \<and> (\<exists>i \<in> set A. idle s = Some i)
     \<and> (\<forall>t \<in> set A. placed s R S W t)
     \<and> (\<forall>t \<in> set A. Some t \<noteq> current s \<longrightarrow> t_state s t \<noteq> THREAD_RUNNING \<and> t_state s t \<noteq> THREAD_DEAD)
     \<and> set R \<subseteq> set A \<and> set S \<subseteq> set A \<and> (\<forall>q. set (W q) \<subseteq> set A)
     \<and> sorted (map (t_wake_tick s) S) \<and> thread_count s = length A"

definition running :: "sched \<Rightarrow> bool" where
  "running s \<longleftrightarrow> (\<exists>c. current s = Some c \<and> t_state s c = THREAD_RUNNING)
     \<and> 0 < slice_left s \<and> slice_left s \<le> of_nat TIME_SLICE_TICKS"

section \<open>Queue operations\<close>

lemma run_enqueue_queues:
  assumes q: "queues s R S W A" and t: "t \<notin> set R" "\<And>q. t \<notin> set (W q)"
  shows "queues (run_enqueue t s) (R @ [t]) S W A"
proof -
  have c: "chain (t_next s) (run_head s) R" "run_tail s = last_of R" using q by (simp_all add: queues_def)
  have w: "last R \<notin> set (W k)" if "R \<noteq> []" for k
    using q last_in_set [OF that] unfolding queues_def by blast
  show ?thesis
  proof (cases "R = []")
    case True
    with q t c chain_snoc(2) [OF c(1) t(1)] show ?thesis
      by (auto simp: queues_def run_enqueue_def)
  next
    case False
    with q t c w chain_snoc(1) [OF c(1) t(1) False] show ?thesis
      by (auto simp: queues_def run_enqueue_def last_of_def)
  qed
qed

lemma run_enqueue_sel [simp]:
  "t_state (run_enqueue t s) = t_state s" "t_wake_tick (run_enqueue t s) = t_wake_tick s"
  "t_waiting_on (run_enqueue t s) = t_waiting_on s" "t_timed_out (run_enqueue t s) = t_timed_out s"
  "current (run_enqueue t s) = current s" "idle (run_enqueue t s) = idle s"
  "sleepers (run_enqueue t s) = sleepers s" "preemptive (run_enqueue t s) = preemptive s"
  "slice_left (run_enqueue t s) = slice_left s" "thread_count (run_enqueue t s) = thread_count s"
  "t_stack_top (run_enqueue t s) = t_stack_top s" "t_as (run_enqueue t s) = t_as s" "t_ns (run_enqueue t s) = t_ns s"
  "t_process (run_enqueue t s) = t_process s" "switched_from (run_enqueue t s) = switched_from s"
  "wq_head (run_enqueue t s) = wq_head s" "wq_tail (run_enqueue t s) = wq_tail s"
  "all_threads (run_enqueue t s) = all_threads s" "t_all_next (run_enqueue t s) = t_all_next s"
  "t_sleep_next (run_enqueue t s) = t_sleep_next s"
  by (simp_all add: run_enqueue_def Let_def split: option.split)

lemma set_state_sel [simp]:
  "t_state (set_state t v s) = (t_state s)(t := v)" "t_wake_tick (set_state t v s) = t_wake_tick s"
  "t_waiting_on (set_state t v s) = t_waiting_on s" "t_timed_out (set_state t v s) = t_timed_out s"
  "current (set_state t v s) = current s" "idle (set_state t v s) = idle s"
  "sleepers (set_state t v s) = sleepers s" "preemptive (set_state t v s) = preemptive s"
  "slice_left (set_state t v s) = slice_left s" "thread_count (set_state t v s) = thread_count s"
  "t_stack_top (set_state t v s) = t_stack_top s" "t_as (set_state t v s) = t_as s" "t_ns (set_state t v s) = t_ns s"
  "t_process (set_state t v s) = t_process s" "switched_from (set_state t v s) = switched_from s"
  "wq_head (set_state t v s) = wq_head s" "wq_tail (set_state t v s) = wq_tail s"
  "run_head (set_state t v s) = run_head s" "run_tail (set_state t v s) = run_tail s"
  "t_next (set_state t v s) = t_next s" "all_threads (set_state t v s) = all_threads s"
  "t_all_next (set_state t v s) = t_all_next s" "t_sleep_next (set_state t v s) = t_sleep_next s"
  by (simp_all add: set_state_def)

lemma queues_set_state [simp]: "queues (set_state t v s) R S W A = queues s R S W A"
  by (simp add: queues_def)

lemma run_dequeue_Nil: "queues s [] S W A \<Longrightarrow> run_dequeue s = (None, s)"
  by (simp add: queues_def run_dequeue_def)

lemma run_dequeue_Cons:
  assumes "queues s (t # R) S W A"
  shows "\<exists>h u. run_dequeue s = (Some t, s\<lparr>run_head := h, run_tail := u\<rparr>) \<and> queues (s\<lparr>run_head := h, run_tail := u\<rparr>) R S W A"
proof -
  have c: "chain (t_next s) (t_next s t) R" "run_head s = Some t" "run_tail s = last_of (t # R)"
    using assms by (simp_all add: queues_def)
  have "run_dequeue s = (Some t, s\<lparr>run_head := t_next s t, run_tail := last_of R\<rparr>)"
    using c chain_head [OF c(1)] by (auto simp: run_dequeue_def last_of_def)
  moreover have "queues (s\<lparr>run_head := t_next s t, run_tail := last_of R\<rparr>) R S W A"
    using assms c by (auto simp: queues_def)
  ultimately show ?thesis by blast
qed

lemma queues_sleep:
  "queues s R S W A \<Longrightarrow> chain nx h S' \<Longrightarrow> queues (s\<lparr>t_sleep_next := nx, sleepers := h\<rparr>) R S' W A"
  by (simp add: queues_def)

lemma sleep_insert_ok:
  assumes "queues s R S W A" and "t \<notin> set S" and "sorted (map (t_wake_tick s) S)"
  shows "\<exists>nx h S'. sleep_insert t s = Some (s\<lparr>t_sleep_next := nx, sleepers := h\<rparr>)
    \<and> queues (s\<lparr>t_sleep_next := nx, sleepers := h\<rparr>) R S' W A
    \<and> set S' = insert t (set S) \<and> sorted (map (t_wake_tick s) S')"
proof -
  let ?w = "t_wake_tick s"
  define as where "as = takeWhile (\<lambda>u. \<not> ?w u > ?w t) S"
  define bs where "bs = dropWhile (\<lambda>u. \<not> ?w u > ?w t) S"
  have S: "S = as @ bs" by (simp add: as_def bs_def)
  have cS: "chain (t_sleep_next s) (sleepers s) S" using assms(1) by (simp add: queues_def)
  have c: "chain (t_sleep_next s) (sleepers s) (as @ bs)" using cS unfolding S .
  have l: "walk (t_sleep_next s) (\<lambda>u. ?w u > ?w t) Head (sleepers s) = Some (link_after as)"
    using walk_list [OF cS, of "\<lambda>u. ?w u > ?w t"] by (simp add: as_def)
  have t: "t \<notin> set (as @ bs)" using assms(2) unfolding S .
  define v where "v = link_value (t_sleep_next s) (sleepers s) (link_after as)"
  obtain nx h where i: "sleep_insert t s = Some (s\<lparr>t_sleep_next := nx, sleepers := h\<rparr>)" "chain nx h (as @ t # bs)"
  proof (cases "as = []")
    case True
    then have "sleep_insert t s = Some (s\<lparr>t_sleep_next := (t_sleep_next s)(t := v), sleepers := Some t\<rparr>)"
      using l by (simp add: sleep_insert_def sleep_link_def sleep_at_def link_after_def link_value_def v_def)
    from that [OF this] chain_insert(2) [OF c t True] show thesis by (simp only: v_def)
  next
    case False
    then have "sleep_insert t s = Some (s\<lparr>t_sleep_next := (t_sleep_next s)(t := v, last as := Some t), sleepers := sleepers s\<rparr>)"
      using l by (simp add: sleep_insert_def sleep_link_def sleep_at_def link_after_def link_value_def v_def)
    from that [OF this] chain_insert(1) [OF c t False] show thesis by (simp only: v_def)
  qed
  have so: "sorted (map ?w (as @ bs))" using assms(3) unfolding S .
  have "\<forall>u \<in> set as. ?w u \<le> ?w t" by (auto simp: as_def dest: set_takeWhileD)
  moreover have "\<forall>u \<in> set bs. ?w t \<le> ?w u"
  proof (cases bs)
    case (Cons b bs')
    then have "?w t < ?w b" by (metis bs_def hd_dropWhile list.distinct(1) list.sel(1))
    with so Cons show ?thesis by (auto simp: sorted_append)
  qed simp
  ultimately have "sorted (map ?w (as @ t # bs))" using so by (auto simp: sorted_append)
  moreover have "set (as @ t # bs) = insert t (set S)" unfolding S by auto
  ultimately show ?thesis using i queues_sleep [OF assms(1) i(2)] by blast
qed

lemma sleep_remove_ok:
  assumes "queues s R S W A" and "t \<in> set S"
  shows "\<exists>nx h. sleep_remove t s = Some (s\<lparr>t_sleep_next := nx, sleepers := h\<rparr>)
    \<and> queues (s\<lparr>t_sleep_next := nx, sleepers := h\<rparr>) R (filter (\<lambda>u. u \<noteq> t) S) W A"
proof -
  have c: "chain (t_sleep_next s) (sleepers s) S" using assms(1) by (simp add: queues_def)
  define as where "as = takeWhile (\<lambda>u. u \<noteq> t) S"
  from takeWhile_neq [OF assms(2) chain_distinct [OF c]] obtain bs where
    S: "S = as @ t # bs" "filter (\<lambda>u. u \<noteq> t) S = as @ bs" unfolding as_def by blast
  have l: "walk (t_sleep_next s) (\<lambda>u. u = t) Head (sleepers s) = Some (link_after as)"
    using walk_list [OF c, of "\<lambda>u. u = t"] by (simp add: as_def)
  have v: "sleep_at (link_after as) s = Some t"
    using lseg_mid [OF c [unfolded S(1)]] by (auto simp: link_value_def sleep_at_def split: link.splits)
  obtain nx h where "sleep_remove t s = Some (s\<lparr>t_sleep_next := nx, sleepers := h\<rparr>)" "chain nx h (as @ bs)"
  proof (cases "as = []")
    case True
    then have "sleep_remove t s = Some (s\<lparr>t_sleep_next := t_sleep_next s, sleepers := t_sleep_next s t\<rparr>)"
      using l v by (simp add: sleep_remove_def sleep_link_def link_after_def)
    from that [OF this] chain_remove(2) [OF c [unfolded S(1)] True] show thesis by blast
  next
    case False
    then have "sleep_remove t s = Some (s\<lparr>t_sleep_next := (t_sleep_next s)(last as := t_sleep_next s t), sleepers := sleepers s\<rparr>)"
      using l v by (simp add: sleep_remove_def sleep_link_def link_after_def)
    from that [OF this] chain_remove(1) [OF c [unfolded S(1)] False] show thesis by blast
  qed
  with queues_sleep [OF assms(1)] S(2) show ?thesis by metis
qed

lemma waitq_remove_ok:
  assumes "queues s R S W A" and "t \<in> set (W q)"
  shows "\<exists>nx h u. waitq_remove q t s = Some (s\<lparr>t_next := nx, wq_head := h, wq_tail := u\<rparr>)
    \<and> queues (s\<lparr>t_next := nx, wq_head := h, wq_tail := u\<rparr>) R S (W(q := filter (\<lambda>u. u \<noteq> t) (W q))) A"
proof -
  have c: "chain (t_next s) (wq_head s q) (W q)" "wq_tail s q = last_of (W q)" using assms(1) by (simp_all add: queues_def)
  define as where "as = takeWhile (\<lambda>u. u \<noteq> t) (W q)"
  from takeWhile_neq [OF assms(2) chain_distinct [OF c(1)]] obtain bs where
    W: "W q = as @ t # bs" "filter (\<lambda>u. u \<noteq> t) (W q) = as @ bs" unfolding as_def by blast
  have d: "distinct (as @ t # bs)" using chain_distinct [OF c(1)] W(1) by simp
  have l: "walk (t_next s) (\<lambda>u. u = t) Head (wq_head s q) = Some (link_after as)"
    using walk_list [OF c(1), of "\<lambda>u. u = t"] by (simp add: as_def)
  have v: "link_value (t_next s) (wq_head s q) (link_after as) = Some t"
    using lseg_mid [OF c(1) [unfolded W(1)]] by simp
  have b: "t_next s t = None \<longleftrightarrow> bs = []" using c(1) W(1) chain_head [of "t_next s" "t_next s t" bs] by (auto simp: lseg_append)
  have tail: "wq_tail s q = Some t \<longleftrightarrow> bs = []" using c(2) W(1) d by (auto simp: last_of_def)
  define nx h u where "nx = (if as = [] then t_next s else (t_next s)(last as := t_next s t))"
    and "h = (if as = [] then (wq_head s)(q := t_next s t) else wq_head s)"
    and "u = (if bs = [] then (wq_tail s)(q := last_of as) else wq_tail s)"
  have r: "waitq_remove q t s = Some (s\<lparr>t_next := nx, wq_head := h, wq_tail := u\<rparr>)"
    using l v tail
    by (cases "as = []"; cases "bs = []")
       (simp_all add: waitq_remove_def link_after_def link_value_def nx_def h_def u_def last_of_def Let_def)
  have as: "last as \<in> set (W q)" if "as \<noteq> []" using that W(1) by simp
  have qs: "chain nx (h k) ((W(q := as @ bs)) k) \<and> u k = last_of ((W(q := as @ bs)) k)" for k
  proof (cases "k = q")
    case True
    then show ?thesis
      using chain_remove [OF c(1) [unfolded W(1)]] c(2) W(1) by (auto simp: nx_def h_def u_def last_of_def)
  next
    case False
    then have "last as \<notin> set (W k)" if "as \<noteq> []"
      using as [OF that] assms(1) unfolding queues_def by blast
    with False assms(1) show ?thesis by (auto simp: nx_def h_def u_def queues_def)
  qed
  have "last as \<notin> set R" if "as \<noteq> []" using as [OF that] assms(1) unfolding queues_def by blast
  then have run: "chain nx (run_head s) R" using assms(1) by (auto simp: nx_def queues_def)
  have "set ((W(q := as @ bs)) k) \<subseteq> set (W k)" for k using W(1) by auto
  then have "\<forall>k. set R \<inter> set ((W(q := as @ bs)) k) = {}"
    "\<forall>k k'. k \<noteq> k' \<longrightarrow> set ((W(q := as @ bs)) k) \<inter> set ((W(q := as @ bs)) k') = {}"
    using assms(1) unfolding queues_def by blast+
  with qs run assms(1) have "queues (s\<lparr>t_next := nx, wq_head := h, wq_tail := u\<rparr>) R S (W(q := as @ bs)) A"
    unfolding queues_def by (simp del: fun_upd_apply)
  with r show ?thesis unfolding W(2) by blast
qed

lemma all_threads_remove_ok:
  assumes "queues s R S W A" and "t \<in> set A"
  shows "\<exists>nx h. all_threads_remove t s = Some (s\<lparr>t_all_next := nx, all_threads := h\<rparr>)
    \<and> queues (s\<lparr>t_all_next := nx, all_threads := h\<rparr>) R S W (filter (\<lambda>u. u \<noteq> t) A)"
proof -
  have c: "chain (t_all_next s) (all_threads s) A" using assms(1) by (simp add: queues_def)
  define as where "as = takeWhile (\<lambda>u. u \<noteq> t) A"
  from takeWhile_neq [OF assms(2) chain_distinct [OF c]] obtain bs where
    A: "A = as @ t # bs" "filter (\<lambda>u. u \<noteq> t) A = as @ bs" unfolding as_def by blast
  have l: "walk (t_all_next s) (\<lambda>u. u = t) Head (all_threads s) = Some (link_after as)"
    using walk_list [OF c, of "\<lambda>u. u = t"] by (simp add: as_def)
  have v: "link_value (t_all_next s) (all_threads s) (link_after as) = Some t"
    using lseg_mid [OF c [unfolded A(1)]] by simp
  obtain nx h where r: "all_threads_remove t s = Some (s\<lparr>t_all_next := nx, all_threads := h\<rparr>)" "chain nx h (as @ bs)"
  proof (cases "as = []")
    case True
    then have "all_threads_remove t s = Some (s\<lparr>t_all_next := t_all_next s, all_threads := t_all_next s t\<rparr>)"
      using l v by (simp add: all_threads_remove_def all_link_def link_after_def link_value_def)
    from that [OF this] chain_remove(2) [OF c [unfolded A(1)] True] show thesis by blast
  next
    case False
    then have "all_threads_remove t s = Some (s\<lparr>t_all_next := (t_all_next s)(last as := t_all_next s t), all_threads := all_threads s\<rparr>)"
      using l v by (simp add: all_threads_remove_def all_link_def link_after_def link_value_def)
    from that [OF this] chain_remove(1) [OF c [unfolded A(1)] False] show thesis by blast
  qed
  moreover have "queues (s\<lparr>t_all_next := nx, all_threads := h\<rparr>) R S W (as @ bs)"
    using assms(1) r(2) by (simp add: queues_def)
  ultimately show ?thesis unfolding A(2) by blast
qed

section \<open>Switching keeps the invariant\<close>

lemma call_sel [simp]:
  "t_state (call x s) = t_state s" "t_wake_tick (call x s) = t_wake_tick s" "t_waiting_on (call x s) = t_waiting_on s"
  "t_timed_out (call x s) = t_timed_out s" "current (call x s) = current s" "idle (call x s) = idle s"
  "sleepers (call x s) = sleepers s" "preemptive (call x s) = preemptive s" "slice_left (call x s) = slice_left s"
  "thread_count (call x s) = thread_count s" "t_stack_top (call x s) = t_stack_top s" "t_as (call x s) = t_as s"
  "t_ns (call x s) = t_ns s" "t_process (call x s) = t_process s" "switched_from (call x s) = switched_from s"
  "wq_head (call x s) = wq_head s" "wq_tail (call x s) = wq_tail s" "run_head (call x s) = run_head s"
  "run_tail (call x s) = run_tail s" "t_next (call x s) = t_next s" "all_threads (call x s) = all_threads s"
  "t_all_next (call x s) = t_all_next s" "t_sleep_next (call x s) = t_sleep_next s"
  by (simp_all add: call_def)

lemma placed_cong:
  "t_state s' t = t_state s t \<Longrightarrow> t_waiting_on s' t = t_waiting_on s t \<Longrightarrow> idle s' = idle s \<Longrightarrow>
   placed s' R S W t = placed s R S W t"
  by (simp add: placed_def)

lemma sched_wfD:
  assumes "sched_wf s R S W A"
  shows "queues s R S W A" "t \<in> set A \<Longrightarrow> placed s R S W t"
    "t \<in> set A \<Longrightarrow> Some t \<noteq> current s \<Longrightarrow> t_state s t \<noteq> THREAD_RUNNING \<and> t_state s t \<noteq> THREAD_DEAD"
    "set R \<subseteq> set A" "set S \<subseteq> set A" "set (W q) \<subseteq> set A" "sorted (map (t_wake_tick s) S)" "thread_count s = length A"
  using assms unfolding sched_wf_def by blast+

lemma sched_wfI:
  assumes "queues s R S W A" and "c \<in> set A" and "current s = Some c" and "i \<in> set A" and "idle s = Some i"
    and "\<And>t. t \<in> set A \<Longrightarrow> placed s R S W t"
    and "\<And>t. t \<in> set A \<Longrightarrow> t \<noteq> c \<Longrightarrow> t_state s t \<noteq> THREAD_RUNNING \<and> t_state s t \<noteq> THREAD_DEAD"
    and "set R \<subseteq> set A" and "set S \<subseteq> set A" and "\<And>q. set (W q) \<subseteq> set A"
    and "sorted (map (t_wake_tick s) S)" and "thread_count s = length A"
  shows "sched_wf s R S W A"
proof -
  have "\<exists>c \<in> set A. current s = Some c" "\<exists>i \<in> set A. idle s = Some i" using assms(2-5) by blast+
  then show ?thesis using assms(1,3,6-12) by (simp add: sched_wf_def)
qed

lemma filter_one_out:
  assumes "distinct xs" and "x \<in> set xs"
  shows "length (filter (\<lambda>u. u \<noteq> x) xs) = length xs - 1"
proof -
  obtain as bs where "xs = as @ x # bs" "filter (\<lambda>u. u \<noteq> x) xs = as @ bs"
    using takeWhile_neq [OF assms(2,1)] by blast
  then have "length (filter (\<lambda>u. u \<noteq> x) xs) = length (as @ bs)" "length xs = length (as @ x # bs)" by (simp_all only:)
  then show ?thesis by simp
qed

text \<open>What the rest of the kernel sees of a switch: who runs, and that the threads' states follow.\<close>

definition switch_fields :: "sched \<Rightarrow> sched \<Rightarrow> bool" where
  "switch_fields s s' \<longleftrightarrow> idle s' = idle s \<and> preemptive s' = preemptive s \<and> t_waiting_on s' = t_waiting_on s
     \<and> t_wake_tick s' = t_wake_tick s \<and> t_timed_out s' = t_timed_out s"

lemma finish_switch_ok:
  assumes q: "queues s R S W A" and p: "switched_from s = Some c" "c \<in> set A" "c \<notin> set R" "c \<notin> set S" "\<And>q. c \<notin> set (W q)"
    and d: "t_state s c = THREAD_DEAD"
  shows "\<exists>s'. finish_switch s = Some s' \<and> queues s' R S W (filter (\<lambda>u. u \<noteq> c) A) \<and> t_state s' = t_state s
    \<and> current s' = current s \<and> slice_left s' = slice_left s \<and> thread_count s' = thread_count s - 1 \<and> switch_fields s s'"
proof -
  obtain nx h where r: "all_threads_remove c s = Some (s\<lparr>t_all_next := nx, all_threads := h\<rparr>)"
    "queues (s\<lparr>t_all_next := nx, all_threads := h\<rparr>) R S W (filter (\<lambda>u. u \<noteq> c) A)"
    using all_threads_remove_ok [OF q p(2)] by blast
  then show ?thesis
    using p(1) d by (auto simp: finish_switch_def Let_def queues_def switch_fields_def)
qed

text \<open>The run queue when the next thread is chosen, and the choice.\<close>

definition requeued :: "sched \<Rightarrow> tid \<Rightarrow> tid list \<Rightarrow> tid list" where
  "requeued s c R = (if t_state s c = THREAD_RUNNING \<and> Some c \<noteq> idle s then R @ [c] else R)"

definition chosen :: "sched \<Rightarrow> tid list \<Rightarrow> tid option" where
  "chosen s R = (if R = [] then idle s else Some (hd R))"

lemma requeue_ok:
  assumes w: "sched_wf s R S W A" and c: "current s = Some c" and nr: "t_state s c \<noteq> THREAD_RUNNABLE"
  defines "s1 \<equiv> requeue_current c s" and "R1 \<equiv> requeued s c R"
  shows "queues s1 R1 S W A" "\<forall>t \<in> set A. placed s1 R1 S W t \<and> t_state s1 t \<noteq> THREAD_RUNNING \<and> (t \<noteq> c \<longrightarrow> t_state s1 t \<noteq> THREAD_DEAD)"
    "set R1 \<subseteq> set A" "switch_fields s s1" "current s1 = current s" "thread_count s1 = thread_count s"
    "t_state s c = THREAD_DEAD \<longleftrightarrow> t_state s1 c = THREAD_DEAD"
proof -
  have cA: "c \<in> set A" using w c by (auto simp: sched_wf_def)
  note q = sched_wfD(1) [OF w] and p = sched_wfD(2) [OF w]
  have nq: "c \<notin> set R" "c \<notin> set (W k)" if "t_state s c = THREAD_RUNNING" for k
    using p [OF cA] that by (auto simp: placed_def)
  have R1: "R1 = R @ [c]" "s1 = run_enqueue c (set_state c THREAD_RUNNABLE s)"
    if "t_state s c = THREAD_RUNNING" "Some c \<noteq> idle s"
    using that by (simp_all add: R1_def requeued_def s1_def requeue_current_def)
  show "queues s1 R1 S W A"
  proof (cases "t_state s c = THREAD_RUNNING \<and> Some c \<noteq> idle s")
    case True
    with R1 nq run_enqueue_queues [of "set_state c THREAD_RUNNABLE s" R S W A c] q show ?thesis by simp
  next
    case False
    with q show ?thesis by (auto simp: R1_def requeued_def s1_def requeue_current_def)
  qed
  have st: "t_state s1 = (if t_state s c = THREAD_RUNNING then (t_state s)(c := THREAD_RUNNABLE) else t_state s)"
    "t_waiting_on s1 = t_waiting_on s" "idle s1 = idle s"
    by (simp_all add: s1_def requeue_current_def Let_def)
  show "\<forall>t \<in> set A. placed s1 R1 S W t \<and> t_state s1 t \<noteq> THREAD_RUNNING \<and> (t \<noteq> c \<longrightarrow> t_state s1 t \<noteq> THREAD_DEAD)"
  proof
    fix t assume t: "t \<in> set A"
    show "placed s1 R1 S W t \<and> t_state s1 t \<noteq> THREAD_RUNNING \<and> (t \<noteq> c \<longrightarrow> t_state s1 t \<noteq> THREAD_DEAD)"
      using p [OF t] sched_wfD(3) [OF w t] c nr by (auto simp: placed_def st R1_def requeued_def)
  qed
  show "set R1 \<subseteq> set A" using sched_wfD(4) [OF w] cA by (auto simp: R1_def requeued_def)
  show "switch_fields s s1" "current s1 = current s" "thread_count s1 = thread_count s"
    "t_state s c = THREAD_DEAD \<longleftrightarrow> t_state s1 c = THREAD_DEAD"
    using st(1) by (simp_all add: switch_fields_def s1_def requeue_current_def Let_def)
qed

lemma choose_ok:
  assumes q: "queues s R S W A" and p: "\<And>t. t \<in> set A \<Longrightarrow> placed s R S W t"
    and nr: "\<And>t. t \<in> set A \<Longrightarrow> t_state s t \<noteq> THREAD_RUNNING" and i: "idle s = Some i" "i \<in> set A" and R: "set R \<subseteq> set A"
  shows "\<exists>n h u. run_dequeue s = (if R = [] then None else Some n, s\<lparr>run_head := h, run_tail := u\<rparr>)
    \<and> chosen s R = Some n \<and> n \<in> set A \<and> t_state s n = THREAD_RUNNABLE \<and> queues (s\<lparr>run_head := h, run_tail := u\<rparr>) (tl R) S W A
    \<and> (\<forall>t \<in> set A. placed (set_state n THREAD_RUNNING s) (tl R) S W t)"
proof (cases R)
  case Nil
  have "placed (set_state i THREAD_RUNNING s) [] S W t" if "t \<in> set A" for t
    using p [OF that] i by (auto simp: placed_def Nil)
  moreover have "t_state s i = THREAD_RUNNABLE" using p [OF i(2)] nr [OF i(2)] i(1) by (auto simp: placed_def)
  moreover have "run_dequeue s = (None, s\<lparr>run_head := run_head s, run_tail := run_tail s\<rparr>)"
    "queues (s\<lparr>run_head := run_head s, run_tail := run_tail s\<rparr>) [] S W A"
    using run_dequeue_Nil [of s S W A] q Nil by simp_all
  ultimately show ?thesis
    using i Nil by (intro exI [of _ i] exI [of _ "run_head s"] exI [of _ "run_tail s"]) (simp add: chosen_def)
next
  case (Cons n R')
  have d: "n \<notin> set R'" using q chain_distinct [of "t_next s" "run_head s" R] Cons by (simp add: queues_def)
  have n: "n \<in> set A" "t_state s n = THREAD_RUNNABLE" "Some n \<noteq> idle s" using R Cons p [of n] by (auto simp: placed_def)
  have "placed (set_state n THREAD_RUNNING s) R' S W t" if "t \<in> set A" for t
    using p [OF that] n d by (auto simp: placed_def Cons)
  with n run_dequeue_Cons [OF q [unfolded Cons]] show ?thesis by (auto simp: Cons chosen_def)
qed

lemma switch_to_ok:
  assumes q: "queues s R S W A" and p: "\<And>t. t \<in> set A \<Longrightarrow> placed s R S W t"
    and c: "c \<in> set A" and n: "n \<in> set A" "n \<noteq> c" "t_state s n = THREAD_RUNNING"
    and st: "\<And>t. t \<in> set A \<Longrightarrow> t \<noteq> n \<Longrightarrow> t_state s t \<noteq> THREAD_RUNNING \<and> (t \<noteq> c \<longrightarrow> t_state s t \<noteq> THREAD_DEAD)"
    and i: "i \<in> set A" "idle s = Some i"
    and sub: "set R \<subseteq> set A" "set S \<subseteq> set A" "\<And>q. set (W q) \<subseteq> set A"
    and so: "sorted (map (t_wake_tick s) S)" and cnt: "thread_count s = length A"
  shows "\<exists>s'. switch_to c n s = Some s' \<and> sched_wf s' R S W (if t_state s c = THREAD_DEAD then filter (\<lambda>u. u \<noteq> c) A else A)
    \<and> current s' = Some n \<and> t_state s' = t_state s \<and> slice_left s' = slice_left s \<and> switch_fields s s'"
proof -
  define s1 where "s1 = (let s1 = call (Vmm_as_activate (t_as s n)) (s\<lparr>current := Some n, switched_from := Some c\<rparr>)
      in if t_stack_top s1 n \<noteq> 0 then call (Set_kernel_stack (t_stack_top s1 n)) s1 else s1)"
  have sw: "switch_to c n s = finish_switch s1" by (simp add: switch_to_def s1_def Let_def)
  have q1: "queues s1 R S W A" using q by (simp add: s1_def Let_def queues_def)
  have e1: "t_state s1 = t_state s" "current s1 = Some n" "switched_from s1 = Some c" "slice_left s1 = slice_left s"
    "thread_count s1 = length A" "switch_fields s s1"
    using cnt by (simp_all add: s1_def Let_def switch_fields_def)
  have p1: "placed s1 R S W t" if "t \<in> set A" for t
    using p [OF that] placed_cong [of s1 t s] e1 by (simp add: switch_fields_def)
  show ?thesis
  proof (cases "t_state s c = THREAD_DEAD")
    case True
    have out: "c \<notin> set R" "c \<notin> set S" "c \<notin> set (W k)" for k
      using p [OF c] True by (auto simp: placed_def)
    obtain s' where s': "finish_switch s1 = Some s'" "queues s' R S W (filter (\<lambda>u. u \<noteq> c) A)" "t_state s' = t_state s1"
      "current s' = current s1" "slice_left s' = slice_left s1" "thread_count s' = thread_count s1 - 1" "switch_fields s1 s'"
      using finish_switch_ok [OF q1 e1(3) c out] True e1(1) by auto
    have "length (filter (\<lambda>u. u \<noteq> c) A) = length A - 1"
      using chain_distinct [of "t_all_next s1" "all_threads s1" A] q1 c by (simp add: queues_def filter_one_out)
    moreover have "placed s' R S W t" if "t \<in> set A" for t
      using p1 [OF that] placed_cong [of s' t s1] s'(3,7) by (simp add: switch_fields_def)
    moreover have "i \<noteq> c" using p [OF c] True i(2) by (auto simp: placed_def)
    moreover have "set (W k) \<subseteq> set A - {c}" for k using sub(3) [of k] out(3) [of k] by blast
    moreover have "t_wake_tick s' = t_wake_tick s" "idle s' = Some i" using s'(7) e1(6) i(2) by (simp_all add: switch_fields_def)
    ultimately have "sched_wf s' R S W (filter (\<lambda>u. u \<noteq> c) A)"
      using s' e1(1,2,5) n i(1) sub(1,2) out(1,2) so st by (intro sched_wfI [of s' R S W _ n i]) auto
    with True s' e1 sw show ?thesis by (simp add: switch_fields_def)
  next
    case False
    have fin: "finish_switch s1 = Some s1" using e1 False by (simp add: finish_switch_def)
    have "t_wake_tick s1 = t_wake_tick s" "idle s1 = Some i" using e1(6) i(2) by (simp_all add: switch_fields_def)
    moreover have "t_state s t \<noteq> THREAD_RUNNING \<and> t_state s t \<noteq> THREAD_DEAD" if "t \<in> set A" "t \<noteq> n" for t
      using st [OF that] False by auto
    ultimately have "sched_wf s1 R S W A"
      using q1 p1 e1(1,2,5) n i(1) sub so by (intro sched_wfI [of s1 R S W A n i]) simp_all
    with fin show ?thesis using False e1 sw by simp
  qed
qed

lemma schedule_ok:
  assumes w: "sched_wf s R S W A" and c: "current s = Some c" and nr: "t_state s c \<noteq> THREAD_RUNNABLE"
  defines "R1 \<equiv> requeued s c R"
  shows "\<exists>s' n. schedule s = Some s' \<and> chosen s R1 = Some n \<and> current s' = Some n
    \<and> sched_wf s' (tl R1) S W (if t_state s c = THREAD_DEAD then filter (\<lambda>u. u \<noteq> c) A else A)
    \<and> running s' \<and> slice_left s' = of_nat TIME_SLICE_TICKS \<and> switch_fields s s'
    \<and> (\<forall>t. t \<noteq> c \<longrightarrow> t \<noteq> n \<longrightarrow> t_state s' t = t_state s t) \<and> (t_state s c = THREAD_DEAD \<longrightarrow> n \<noteq> c)"
proof -
  have cA: "c \<in> set A" using w c by (auto simp: sched_wf_def)
  obtain i where i: "idle s = Some i" "i \<in> set A" using w by (auto simp: sched_wf_def)
  define s1 where "s1 = requeue_current c s"
  note s1 = requeue_ok [OF w c nr, folded s1_def R1_def]
  have i1: "idle s1 = idle s" using s1(4) by (simp add: switch_fields_def)
  from choose_ok [OF s1(1) _ _ i [folded i1] s1(3)] s1(2) obtain n h u where
    n: "run_dequeue s1 = (if R1 = [] then None else Some n, s1\<lparr>run_head := h, run_tail := u\<rparr>)" "chosen s1 R1 = Some n"
    "n \<in> set A" "t_state s1 n = THREAD_RUNNABLE" "queues (s1\<lparr>run_head := h, run_tail := u\<rparr>) (tl R1) S W A"
    "\<forall>t \<in> set A. placed (set_state n THREAD_RUNNING s1) (tl R1) S W t" by blast
  define s3 where "s3 = (set_state n THREAD_RUNNING (s1\<lparr>run_head := h, run_tail := u\<rparr>))\<lparr>slice_left := of_nat TIME_SLICE_TICKS\<rparr>"
  have q3: "queues s3 (tl R1) S W A" using n(5) by (simp add: s3_def queues_def)
  have p3: "placed s3 (tl R1) S W t" if "t \<in> set A" for t
    using n(6) that placed_cong [of s3 t "set_state n THREAD_RUNNING s1"] by (simp add: s3_def)
  have st3: "t_state s3 = (t_state s1)(n := THREAD_RUNNING)" "slice_left s3 = of_nat TIME_SLICE_TICKS" by (simp_all add: s3_def)
  have f3: "switch_fields s s3" "current s3 = current s" "thread_count s3 = length A" "idle s3 = Some i"
    using s1(4-6) sched_wfD(8) [OF w] i(1) i1 by (simp_all add: s3_def switch_fields_def)
  have so: "sorted (map (t_wake_tick s3) S)" using sched_wfD(7) [OF w] f3(1) by (simp add: switch_fields_def)
  have st: "t_state s3 t = t_state s t" if "t \<noteq> c" "t \<noteq> n" for t
    using that by (simp add: st3 s1_def requeue_current_def Let_def)
  have sub: "set (tl R1) \<subseteq> set A" using s1(3) by (cases R1) auto
  have slice: "(0 :: u32) < of_nat TIME_SLICE_TICKS" by (simp add: TIME_SLICE_TICKS_def TIME_SLICE_MS_def TIMER_HZ_def)
  have chs: "chosen s R1 = Some n" using n(2) unfolding chosen_def i1 .
  have sch: "schedule s = (if n = c then Some s3 else switch_to c n s3)"
    using n(1,2) by (auto simp: schedule_def c s1_def [symmetric] s3_def chosen_def)
  show ?thesis
  proof (cases "n = c")
    case True
    then have nd: "t_state s c \<noteq> THREAD_DEAD" using n(4) s1(7) by auto
    have "sched_wf s3 (tl R1) S W A"
      using q3 p3 f3(2-4) so c cA i(2) sub sched_wfD(5,6) [OF w] s1(2) st3(1) True by (intro sched_wfI [of s3 "tl R1" S W A c i]) simp_all
    with True nd sch chs f3(1,2) c st slice st3 show ?thesis by (simp add: running_def)
  next
    case False
    have d: "t_state s3 c = THREAD_DEAD \<longleftrightarrow> t_state s c = THREAD_DEAD" using s1(7) False by (simp add: st3)
    obtain s' where "switch_to c n s3 = Some s'" "sched_wf s' (tl R1) S W (if t_state s3 c = THREAD_DEAD then filter (\<lambda>u. u \<noteq> c) A else A)"
      "current s' = Some n" "t_state s' = t_state s3" "slice_left s' = slice_left s3" "switch_fields s3 s'"
      using switch_to_ok [OF q3 p3 cA n(3) False _ _ i(2) f3(4) sub sched_wfD(5,6) [OF w] so f3(3)] s1(2) st3(1) by auto
    with False sch chs f3(1) st slice st3 d show ?thesis by (simp add: running_def switch_fields_def)
  qed
qed

section \<open>Waking\<close>

text \<open>The fields a wake-up leaves alone.\<close>

definition wake_fields :: "sched \<Rightarrow> sched \<Rightarrow> bool" where
  "wake_fields s s' \<longleftrightarrow> current s' = current s \<and> idle s' = idle s \<and> preemptive s' = preemptive s
     \<and> slice_left s' = slice_left s \<and> t_wake_tick s' = t_wake_tick s"

lemma ready_ok:
  assumes q: "queues s R S W A" and t: "t \<in> set A" "Some t \<noteq> idle s" "t_waiting_on s t = None" "t \<notin> set R" "t \<notin> set S" "\<And>q. t \<notin> set (W q)"
    and p: "\<And>u. u \<in> set A \<Longrightarrow> u \<noteq> t \<Longrightarrow> placed s R S W u"
    and c: "c \<in> set A" "current s = Some c" "c \<noteq> t" and i: "i \<in> set A" "idle s = Some i"
    and st: "\<And>u. u \<in> set A \<Longrightarrow> u \<noteq> c \<Longrightarrow> u \<noteq> t \<Longrightarrow> t_state s u \<noteq> THREAD_RUNNING \<and> t_state s u \<noteq> THREAD_DEAD"
    and sub: "set R \<subseteq> set A" "set S \<subseteq> set A" "\<And>q. set (W q) \<subseteq> set A"
    and so: "sorted (map (t_wake_tick s) S)" and cnt: "thread_count s = length A"
  shows "sched_wf (run_enqueue t (set_state t THREAD_RUNNABLE s)) (R @ [t]) S W A"
proof (rule sched_wfI [of _ _ _ _ _ c i])
  show "queues (run_enqueue t (set_state t THREAD_RUNNABLE s)) (R @ [t]) S W A"
    using run_enqueue_queues [of "set_state t THREAD_RUNNABLE s" R S W A t] q t by simp
  show "placed (run_enqueue t (set_state t THREAD_RUNNABLE s)) (R @ [t]) S W u" if "u \<in> set A" for u
    using p [OF that] t by (cases "u = t") (auto simp: placed_def)
  show "t_state (run_enqueue t (set_state t THREAD_RUNNABLE s)) u \<noteq> THREAD_RUNNING
    \<and> t_state (run_enqueue t (set_state t THREAD_RUNNABLE s)) u \<noteq> THREAD_DEAD" if "u \<in> set A" "u \<noteq> c" for u
    using st [OF that] by simp
qed (use c i sub so cnt t in simp_all)

lemma placed_eq:
  "(\<And>k. u \<in> set (W' k) \<longleftrightarrow> u \<in> set (W k)) \<Longrightarrow> (u \<in> set S' \<longleftrightarrow> u \<in> set S) \<Longrightarrow> (u \<in> set R' \<longleftrightarrow> u \<in> set R) \<Longrightarrow>
   t_state s' u = t_state s u \<Longrightarrow> t_waiting_on s' u = t_waiting_on s u \<Longrightarrow> idle s' = idle s \<Longrightarrow>
   placed s' R' S' W' u = placed s R S W u"
  by (simp add: placed_def)

lemma placed_drop:
  "placed s R S W u \<Longrightarrow> u \<noteq> t \<Longrightarrow> (\<And>k. set (W' k) = set (W k) - {t}) \<Longrightarrow> set S' = set S - {t} \<Longrightarrow> set R' = set R - {t} \<Longrightarrow>
   t_state s' u = t_state s u \<Longrightarrow> t_waiting_on s' u = t_waiting_on s u \<Longrightarrow> idle s' = idle s \<Longrightarrow> placed s' R' S' W' u"
  by (simp add: placed_def)

lemma expire_ok:
  assumes w: "sched_wf s R (t # S) W A" and r: "running s"
  shows "\<exists>s'. expire t s = Some s' \<and> sched_wf s' (R @ [t]) S (\<lambda>q. filter (\<lambda>u. u \<noteq> t) (W q)) A
    \<and> t_state s' = (t_state s)(t := THREAD_RUNNABLE) \<and> wake_fields s s'"
proof -
  note D = sched_wfD [OF w]
  obtain c where c: "c \<in> set A" "current s = Some c" using w by (auto simp: sched_wf_def)
  obtain i where i: "i \<in> set A" "idle s = Some i" using w by (auto simp: sched_wf_def)
  have t: "t \<in> set A" using D(5) by simp
  have d: "t \<notin> set S" using D(1) chain_distinct [of "t_sleep_next s" "sleepers s" "t # S"] by (simp add: queues_def)
  have pt: "placed s R (t # S) W t" by (rule D(2) [OF t])
  then have st: "t_state s t = THREAD_SLEEPING \<or> t_state s t = THREAD_BLOCKED" by (auto simp: placed_def)
  then have tc: "c \<noteq> t" "Some t \<noteq> idle s" "t \<notin> set R" using r c pt by (auto simp: running_def placed_def)
  define s1 where "s1 = s\<lparr>sleepers := t_sleep_next s t\<rparr>"
  have q1: "queues s1 R S W A" using D(1) by (auto simp: queues_def s1_def)
  define W' where "W' = (\<lambda>q. filter (\<lambda>u. u \<noteq> t) (W q))"
  obtain s3 where s3: "(case t_waiting_on s1 t of
      Some q \<Rightarrow> Option.bind (waitq_remove q t s1) (\<lambda>s2.
        Some (s2\<lparr>t_waiting_on := (t_waiting_on s2)(t := None), t_timed_out := (t_timed_out s2)(t := True)\<rparr>))
    | None \<Rightarrow> Some s1) = Some s3" "queues s3 R S W' A" "t_waiting_on s3 = (t_waiting_on s)(t := None)"
    "t_state s3 = t_state s" "wake_fields s s3" "thread_count s3 = thread_count s"
  proof (cases "t_waiting_on s t")
    case None
    then have "t_state s t = THREAD_SLEEPING" using pt by (auto simp: placed_def)
    then have "t \<notin> set (W k)" for k using pt by (auto simp: placed_def)
    then have "W' = W" by (intro ext) (simp add: W'_def filter_id_conv, metis)
    with None q1 show thesis by (intro that [of s1]) (simp_all add: s1_def wake_fields_def fun_upd_idem)
  next
    case (Some q)
    then have tq: "t \<in> set (W q)" using pt by (auto simp: placed_def)
    have "t \<notin> set (W k)" if "k \<noteq> q" for k using tq D(1) that unfolding queues_def by blast
    then have "W' = W(q := filter (\<lambda>u. u \<noteq> t) (W q))" by (intro ext) (auto simp: W'_def filter_id_conv)
    with waitq_remove_ok [OF q1 tq] obtain nx h u where
      rm: "waitq_remove q t s1 = Some (s1\<lparr>t_next := nx, wq_head := h, wq_tail := u\<rparr>)"
      "queues (s1\<lparr>t_next := nx, wq_head := h, wq_tail := u\<rparr>) R S W' A" by auto
    show thesis
      by (rule that [of "s1\<lparr>t_next := nx, wq_head := h, wq_tail := u, t_waiting_on := (t_waiting_on s)(t := None),
        t_timed_out := (t_timed_out s)(t := True)\<rparr>"]) (use Some rm in \<open>simp_all add: s1_def wake_fields_def queues_def\<close>)
  qed
  have e: "expire t s = Some (run_enqueue t (set_state t THREAD_RUNNABLE s3))"
    unfolding expire_def Let_def s1_def [symmetric] s3(1) by simp
  have f: "current s3 = Some c" "idle s3 = Some i" "t_wake_tick s3 = t_wake_tick s" "thread_count s3 = length A"
    using s3(5,6) c i D(8) by (simp_all add: wake_fields_def)
  have sets: "set (W' k) = set (W k) - {t}" "set S = set (t # S) - {t}" "set R = set R - {t}" for k
    using d tc(3) by (auto simp: W'_def)
  have "placed s3 R S W' u" if "u \<in> set A" "u \<noteq> t" for u
    by (rule placed_drop [OF D(2) [OF that(1)] that(2) sets]) (use s3(3,4) f i that(2) in simp_all)
  moreover have "t_state s3 u \<noteq> THREAD_RUNNING \<and> t_state s3 u \<noteq> THREAD_DEAD" if "u \<in> set A" "u \<noteq> c" for u
    using D(3) [OF that(1)] that(2) c s3(4) by simp
  moreover have "t \<notin> set (W' k)" "set (W' k) \<subseteq> set A" for k using sets(1) [of k] D(6) [of k] by auto
  moreover have "sorted (map (t_wake_tick s) S)" "set S \<subseteq> set A" using D(7,5) by simp_all
  ultimately have "sched_wf (run_enqueue t (set_state t THREAD_RUNNABLE s3)) (R @ [t]) S W' A"
    using s3(2,3) t d tc c(1) i f D(4) by (intro ready_ok [of s3 R S W' A t c i]) simp_all
  with e s3(4,5) show ?thesis by (simp add: W'_def wake_fields_def)
qed

lemma waitq_pop_None:
  assumes "sched_wf s R S W A" and "W q = []"
  shows "waitq_pop q s = Some (None, s)"
proof -
  have "chain (t_next s) (wq_head s q) (W q)" using assms(1) by (simp add: sched_wf_def queues_def)
  then show ?thesis using assms(2) by (simp add: waitq_pop_def)
qed

lemma waitq_pop_ok:
  assumes w: "sched_wf s R S W A" and r: "running s" and Wq: "W q = t # ts"
  shows "\<exists>s'. waitq_pop q s = Some (Some t, s') \<and> sched_wf s' (R @ [t]) (filter (\<lambda>u. u \<noteq> t) S) (W(q := ts)) A
    \<and> t_state s' = (t_state s)(t := THREAD_RUNNABLE) \<and> wake_fields s s'"
proof -
  note D = sched_wfD [OF w]
  obtain c where c: "c \<in> set A" "current s = Some c" using w by (auto simp: sched_wf_def)
  obtain i where i: "i \<in> set A" "idle s = Some i" using w by (auto simp: sched_wf_def)
  have t: "t \<in> set A" using D(6) [of q] Wq by simp
  have pt: "placed s R S W t" by (rule D(2) [OF t])
  then have st: "t_state s t = THREAD_BLOCKED" using Wq unfolding placed_def by (metis list.set_intros(1))
  then have tc: "c \<noteq> t" "Some t \<noteq> idle s" "t \<notin> set R" using r c pt by (auto simp: running_def placed_def)
  have ch: "chain (t_next s) (wq_head s q) (t # ts)" "wq_tail s q = last_of (t # ts)"
    using D(1) Wq unfolding queues_def by metis+
  have d: "t \<notin> set ts" using chain_distinct [OF ch(1)] by simp
  have nk: "t \<notin> set (W k)" if "k \<noteq> q" for k using Wq D(1) that unfolding queues_def by fastforce
  define W' where "W' = W(q := ts)"
  define s2 where "s2 = s\<lparr>wq_head := (wq_head s)(q := t_next s t), wq_tail := (wq_tail s)(q := last_of ts)\<rparr>"
  have dis: "set (W' k) \<subseteq> set (W k)" for k using Wq by (auto simp: W'_def)
  have q2: "queues s2 R S W' A"
  proof -
    have "chain (t_next s) (((wq_head s)(q := t_next s t)) k) (W' k) \<and> ((wq_tail s)(q := last_of ts)) k = last_of (W' k)" for k
      using D(1) ch(1) by (auto simp: W'_def queues_def)
    moreover have "\<forall>k. set R \<inter> set (W' k) = {}" "\<forall>k k'. k \<noteq> k' \<longrightarrow> set (W' k) \<inter> set (W' k') = {}"
      using D(1) dis unfolding queues_def by blast+
    ultimately show ?thesis using D(1) unfolding queues_def s2_def by (simp del: fun_upd_apply)
  qed
  have pop: "waitq_pop q s = Option.bind (if t_waiting_on s2 t \<noteq> None
        then Option.bind (sleep_remove t s2) (\<lambda>s3. Some (s3\<lparr>t_waiting_on := (t_waiting_on s3)(t := None)\<rparr>))
        else Some s2) (\<lambda>s4. Some (Some t, run_enqueue t (set_state t THREAD_RUNNABLE s4)))"
    using ch chain_head [of "t_next s" "t_next s t" ts]
    by (auto simp: waitq_pop_def s2_def last_of_def Let_def fun_upd_idem)
  obtain s4 where s4: "(if t_waiting_on s2 t \<noteq> None
        then Option.bind (sleep_remove t s2) (\<lambda>s3. Some (s3\<lparr>t_waiting_on := (t_waiting_on s3)(t := None)\<rparr>))
        else Some s2) = Some s4" "queues s4 R (filter (\<lambda>u. u \<noteq> t) S) W' A" "t_waiting_on s4 = (t_waiting_on s)(t := None)"
    "t_state s4 = t_state s" "wake_fields s s4" "thread_count s4 = thread_count s"
  proof (cases "t_waiting_on s t = None")
    case True
    then have "t \<notin> set S" using pt st by (simp add: placed_def)
    then have "filter (\<lambda>u. u \<noteq> t) S = S" by (auto simp: filter_id_conv)
    with True q2 show thesis by (intro that [of s2]) (simp_all add: s2_def wake_fields_def fun_upd_idem)
  next
    case False
    then have "t \<in> set S" using pt by (simp add: placed_def)
    from sleep_remove_ok [OF q2 this] obtain nx h where
      rm: "sleep_remove t s2 = Some (s2\<lparr>t_sleep_next := nx, sleepers := h\<rparr>)"
      "queues (s2\<lparr>t_sleep_next := nx, sleepers := h\<rparr>) R (filter (\<lambda>u. u \<noteq> t) S) W' A" by blast
    show thesis
      by (rule that [of "s2\<lparr>t_sleep_next := nx, sleepers := h, t_waiting_on := (t_waiting_on s)(t := None)\<rparr>"])
         (use False rm in \<open>simp_all add: s2_def wake_fields_def queues_def\<close>)
  qed
  have f: "current s4 = Some c" "idle s4 = Some i" "t_wake_tick s4 = t_wake_tick s" "thread_count s4 = length A"
    using s4(5,6) c i D(8) by (simp_all add: wake_fields_def)
  have sets: "set (W' k) = set (W k) - {t}" "set (filter (\<lambda>u. u \<noteq> t) S) = set S - {t}" "set R = set R - {t}" for k
    using Wq d nk tc(3) by (auto simp: W'_def)
  have "placed s4 R (filter (\<lambda>u. u \<noteq> t) S) W' u" if "u \<in> set A" "u \<noteq> t" for u
    by (rule placed_drop [OF D(2) [OF that(1)] that(2) sets]) (use s4(3,4) f i that(2) in simp_all)
  moreover have "t_state s4 u \<noteq> THREAD_RUNNING \<and> t_state s4 u \<noteq> THREAD_DEAD" if "u \<in> set A" "u \<noteq> c" for u
    using D(3) [OF that(1)] that(2) c s4(4) by simp
  moreover have "t \<notin> set (W' k)" "set (W' k) \<subseteq> set A" for k using sets(1) [of k] D(6) [of k] by auto
  moreover have "sorted (map (t_wake_tick s) (filter (\<lambda>u. u \<noteq> t) S))" "set (filter (\<lambda>u. u \<noteq> t) S) \<subseteq> set A"
    using D(7) D(5) by (auto intro: sorted_filter)
  ultimately have "sched_wf (run_enqueue t (set_state t THREAD_RUNNABLE s4)) (R @ [t]) (filter (\<lambda>u. u \<noteq> t) S) W' A"
    using s4(2,3) t tc c(1) i f D(4) by (intro ready_ok [of s4 R _ W' A t c i]) simp_all
  with pop s4(1,4,5) show ?thesis by (simp add: W'_def wake_fields_def)
qed

lemma running_wake: "running s \<Longrightarrow> wake_fields s s' \<Longrightarrow> t_state s' = (t_state s)(t := THREAD_RUNNABLE) \<Longrightarrow> Some t \<noteq> current s \<Longrightarrow> running s'"
  by (auto simp: running_def wake_fields_def)

lemma wake_fields_trans: "wake_fields s s' \<Longrightarrow> wake_fields s' s'' \<Longrightarrow> wake_fields s s''"
  by (simp add: wake_fields_def)

lemma not_queued_current:
  assumes "sched_wf s R S W A" and "running s" and "current s = Some c"
  shows "c \<notin> set R" "c \<notin> set S" "c \<notin> set (W q)" "t_waiting_on s c = None"
proof -
  have "c \<in> set A" using assms by (auto simp: sched_wf_def)
  from sched_wfD(2) [OF assms(1) this] assms(2,3) show "c \<notin> set R" "c \<notin> set S" "c \<notin> set (W q)" "t_waiting_on s c = None"
    by (auto simp: placed_def running_def)
qed

lemma pop_all_ok:
  assumes "sched_wf s R S W A" and "running s"
  shows "\<exists>s' S'. pop_all q s = Some s' \<and> sched_wf s' (R @ W q) S' (W(q := [])) A \<and> running s' \<and> wake_fields s s'"
  using assms
proof (induction "W q" arbitrary: s R S W)
  case Nil
  then have "W(q := []) = W" by auto
  with Nil show ?case
    by (subst pop_all.simps) (auto simp: waitq_pop_None wake_fields_def)
next
  case (Cons t ts)
  obtain c where c: "current s = Some c" using Cons.prems(2) by (auto simp: running_def)
  obtain s1 where s1: "waitq_pop q s = Some (Some t, s1)" "sched_wf s1 (R @ [t]) (filter (\<lambda>u. u \<noteq> t) S) (W(q := ts)) A"
    "t_state s1 = (t_state s)(t := THREAD_RUNNABLE)" "wake_fields s s1"
    using waitq_pop_ok [OF Cons.prems, of q t ts] Cons.hyps(2) by metis
  have "Some t \<noteq> current s" using not_queued_current(3) [OF Cons.prems c, of q] c Cons.hyps(2) by (metis list.set_intros(1) option.inject)
  then have "running s1" using running_wake [OF Cons.prems(2) s1(4,3)] by simp
  from Cons.hyps(1) [of "W(q := ts)", OF _ s1(2) this] obtain s' S' where
    "pop_all q s1 = Some s'" "sched_wf s' ((R @ [t]) @ ts) S' (W(q := [])) A" "running s'" "wake_fields s1 s'" by auto
  with s1(1) wake_fields_trans [OF s1(4)] Cons.hyps(2) [symmetric] show ?case
    by (subst pop_all.simps) auto
qed

lemma expire_sleepers_ok:
  assumes "sched_wf s R S W A" and "running s"
  shows "\<exists>s' X S' W'. expire_sleepers now s = Some s' \<and> sched_wf s' (R @ X) S' W' A \<and> running s' \<and> wake_fields s s'"
  using assms
proof (induction S arbitrary: s R W)
  case Nil
  then have "sleepers s = None" by (simp add: sched_wf_def queues_def)
  with Nil have "expire_sleepers now s = Some s \<and> sched_wf s (R @ []) [] W A \<and> running s \<and> wake_fields s s"
    by (subst expire_sleepers.simps) (simp add: wake_fields_def)
  then show ?case by blast
next
  case (Cons t S)
  obtain c where c: "current s = Some c" using Cons.prems(2) by (auto simp: running_def)
  have sl: "sleepers s = Some t" using Cons.prems(1) by (simp add: sched_wf_def queues_def)
  show ?case
  proof (cases "t_wake_tick s t \<le> now")
    case False
    with Cons.prems sl have "expire_sleepers now s = Some s \<and> sched_wf s (R @ []) (t # S) W A \<and> running s \<and> wake_fields s s"
      by (subst expire_sleepers.simps) (simp add: wake_fields_def)
    then show ?thesis by blast
  next
    case True
    obtain s1 where s1: "expire t s = Some s1" "sched_wf s1 (R @ [t]) S (\<lambda>q. filter (\<lambda>u. u \<noteq> t) (W q)) A"
      "t_state s1 = (t_state s)(t := THREAD_RUNNABLE)" "wake_fields s s1"
      using expire_ok [OF Cons.prems] by blast
    have "Some t \<noteq> current s" using not_queued_current(2) [OF Cons.prems c] c by auto
    then have "running s1" using running_wake [OF Cons.prems(2) s1(4,3)] by simp
    from Cons.IH [OF s1(2) this] obtain s' X S' W' where
      "expire_sleepers now s1 = Some s'" "sched_wf s' (R @ (t # X)) S' W' A" "running s'" "wake_fields s1 s'" by auto
    with True sl s1(1) wake_fields_trans [OF s1(4)]
    have "expire_sleepers now s = Some s' \<and> sched_wf s' (R @ (t # X)) S' W' A \<and> running s' \<and> wake_fields s s'"
      by (subst expire_sleepers.simps) simp
    then show ?thesis by blast
  qed
qed

section \<open>Blocking\<close>

lemma waitq_append_sel [simp]:
  "t_state (waitq_append q c s) = (t_state s)(c := THREAD_BLOCKED)" "t_waiting_on (waitq_append q c s) = t_waiting_on s"
  "t_wake_tick (waitq_append q c s) = t_wake_tick s" "current (waitq_append q c s) = current s"
  "idle (waitq_append q c s) = idle s" "preemptive (waitq_append q c s) = preemptive s"
  "slice_left (waitq_append q c s) = slice_left s" "thread_count (waitq_append q c s) = thread_count s"
  "t_timed_out (waitq_append q c s) = t_timed_out s"
  by (simp_all add: waitq_append_def Let_def split: option.split)

lemma waitq_append_queues:
  assumes Q: "queues s R S W A" and t: "t \<notin> set R" "\<And>k. t \<notin> set (W k)"
  shows "queues (waitq_append q t s) R S (W(q := W q @ [t])) A"
proof -
  have c: "chain (t_next s) (wq_head s q) (W q)" "wq_tail s q = last_of (W q)" using Q by (simp_all add: queues_def)
  define nx h where "nx = (if W q = [] then (t_next s)(t := None) else (t_next s)(t := None, last (W q) := Some t))"
    and "h = (if W q = [] then (wq_head s)(q := Some t) else wq_head s)"
  have a: "waitq_append q t s = (set_state t THREAD_BLOCKED s)\<lparr>t_next := nx, wq_head := h, wq_tail := (wq_tail s)(q := Some t)\<rparr>"
    using c(2) by (simp add: waitq_append_def nx_def h_def last_of_def)
  have l: "last (W q) \<notin> set R" "k \<noteq> q \<Longrightarrow> last (W q) \<notin> set (W k)" if "W q \<noteq> []" for k
    using Q last_in_set [OF that] unfolding queues_def by blast+
  have "chain nx (h k) ((W(q := W q @ [t])) k) \<and> ((wq_tail s)(q := Some t)) k = last_of ((W(q := W q @ [t])) k)" for k
  proof (cases "k = q")
    case True
    then show ?thesis using chain_snoc [OF c(1) t(2)] by (auto simp: nx_def h_def)
  next
    case False
    then show ?thesis using Q l(2) [of k] t(2) [of k] by (auto simp: nx_def h_def queues_def)
  qed
  moreover have "chain nx (run_head s) R" using Q l(1) t(1) by (auto simp: nx_def queues_def)
  moreover have "\<forall>k. set R \<inter> set ((W(q := W q @ [t])) k) = {}"
    "\<forall>k k'. k \<noteq> k' \<longrightarrow> set ((W(q := W q @ [t])) k) \<inter> set ((W(q := W q @ [t])) k') = {}"
    using Q t by (auto simp: queues_def)
  ultimately show ?thesis using Q unfolding queues_def a by (simp del: fun_upd_apply)
qed

lemma block_wf:
  assumes w: "sched_wf s R S W A" and r: "running s" and c: "current s = Some c" "current s \<noteq> idle s"
  shows "sched_wf (waitq_append q c s) R S (W(q := W q @ [c])) A"
proof -
  obtain i where i: "i \<in> set A" "idle s = Some i" using w by (auto simp: sched_wf_def)
  have cA: "c \<in> set A" using w c by (auto simp: sched_wf_def)
  note n = not_queued_current [OF w r c(1)] and D = sched_wfD [OF w]
  show ?thesis
  proof (rule sched_wfI [of _ _ _ _ _ c i])
    show "queues (waitq_append q c s) R S (W(q := W q @ [c])) A" by (rule waitq_append_queues [OF D(1) n(1,3)])
    show "placed (waitq_append q c s) R S (W(q := W q @ [c])) u" if "u \<in> set A" for u
    proof (cases "u = c")
      case True
      have "c \<in> set ((W(q := W q @ [c])) q)" by simp
      then have "\<exists>k. c \<in> set ((W(q := W q @ [c])) k)" by blast
      with True n(1,2,4) c i show ?thesis by (simp add: placed_def)
    next
      case False
      with D(2) [OF that] placed_eq [of u "W(q := W q @ [c])" W S S R R "waitq_append q c s" s] show ?thesis by simp
    qed
    show "t_state (waitq_append q c s) u \<noteq> THREAD_RUNNING \<and> t_state (waitq_append q c s) u \<noteq> THREAD_DEAD" if "u \<in> set A" "u \<noteq> c" for u
      using D(3) [OF that(1)] that(2) c by simp
    show "set ((W(q := W q @ [c])) k) \<subseteq> set A" for k using D(6) [of k] cA by auto
  qed (use D(4,5,7,8) cA c i in simp_all)
qed

text \<open>A thread that sleeps until a tick, alone or while it waits on a queue.\<close>

lemma sleep_wf:
  assumes w: "sched_wf s R S W A" and r: "running s" and c: "current s = Some c" "current s \<noteq> idle s"
  shows "\<exists>s1 S'. sleep_insert c ((set_state c THREAD_SLEEPING s)\<lparr>t_wake_tick := (t_wake_tick s)(c := tick)\<rparr>) = Some s1
    \<and> sched_wf s1 R S' W A \<and> current s1 = Some c \<and> t_state s1 c = THREAD_SLEEPING \<and> preemptive s1 = preemptive s \<and> idle s1 = idle s"
proof -
  obtain i where i: "i \<in> set A" "idle s = Some i" using w by (auto simp: sched_wf_def)
  have cA: "c \<in> set A" using w c by (auto simp: sched_wf_def)
  note n = not_queued_current [OF w r c(1)] and D = sched_wfD [OF w]
  define s0 where "s0 = (set_state c THREAD_SLEEPING s)\<lparr>t_wake_tick := (t_wake_tick s)(c := tick)\<rparr>"
  have q0: "queues s0 R S W A" using D(1) by (simp add: s0_def queues_def)
  have "map (t_wake_tick s0) S = map (t_wake_tick s) S" using n(2) by (simp add: s0_def)
  then have "sorted (map (t_wake_tick s0) S)" using D(7) by (simp only:)
  from sleep_insert_ok [OF q0 n(2) this] obtain nx h S' where
    i1: "sleep_insert c s0 = Some (s0\<lparr>t_sleep_next := nx, sleepers := h\<rparr>)" "queues (s0\<lparr>t_sleep_next := nx, sleepers := h\<rparr>) R S' W A"
    "set S' = insert c (set S)" "sorted (map (t_wake_tick s0) S')" by blast
  define s1 where "s1 = s0\<lparr>t_sleep_next := nx, sleepers := h\<rparr>"
  have "sched_wf s1 R S' W A"
  proof (rule sched_wfI [of _ _ _ _ _ c i])
    show "placed s1 R S' W u" if "u \<in> set A" for u
      using D(2) [OF that] n c i i1(3) by (cases "u = c") (auto simp: placed_def s1_def s0_def)
    show "t_state s1 u \<noteq> THREAD_RUNNING \<and> t_state s1 u \<noteq> THREAD_DEAD" if "u \<in> set A" "u \<noteq> c" for u
      using D(3) [OF that(1)] that(2) c by (simp add: s1_def s0_def)
  qed (use D(4,5,6,8) cA c i i1 in \<open>simp_all add: s1_def s0_def\<close>)
  with i1(1) c show ?thesis by (auto simp: s0_def s1_def)
qed

lemma timed_block_wf:
  assumes w: "sched_wf s R S W A" and r: "running s" and c: "current s = Some c" "current s \<noteq> idle s"
  shows "\<exists>s1 S'. sleep_insert c (s\<lparr>t_waiting_on := (t_waiting_on s)(c := Some q), t_timed_out := (t_timed_out s)(c := False),
        t_wake_tick := (t_wake_tick s)(c := tick)\<rparr>) = Some s1
    \<and> sched_wf (waitq_append q c s1) R S' (W(q := W q @ [c])) A \<and> current s1 = Some c \<and> preemptive s1 = preemptive s \<and> idle s1 = idle s"
proof -
  obtain i where i: "i \<in> set A" "idle s = Some i" using w by (auto simp: sched_wf_def)
  have cA: "c \<in> set A" using w c by (auto simp: sched_wf_def)
  note n = not_queued_current [OF w r c(1)] and D = sched_wfD [OF w]
  define s0 where "s0 = s\<lparr>t_waiting_on := (t_waiting_on s)(c := Some q), t_timed_out := (t_timed_out s)(c := False),
        t_wake_tick := (t_wake_tick s)(c := tick)\<rparr>"
  have q0: "queues s0 R S W A" using D(1) by (simp add: s0_def queues_def)
  have "map (t_wake_tick s0) S = map (t_wake_tick s) S" using n(2) by (simp add: s0_def)
  then have "sorted (map (t_wake_tick s0) S)" using D(7) by (simp only:)
  from sleep_insert_ok [OF q0 n(2) this] obtain nx h S' where
    i1: "sleep_insert c s0 = Some (s0\<lparr>t_sleep_next := nx, sleepers := h\<rparr>)" "queues (s0\<lparr>t_sleep_next := nx, sleepers := h\<rparr>) R S' W A"
    "set S' = insert c (set S)" "sorted (map (t_wake_tick s0) S')" by blast
  define s1 where "s1 = s0\<lparr>t_sleep_next := nx, sleepers := h\<rparr>"
  have "sched_wf (waitq_append q c s1) R S' (W(q := W q @ [c])) A"
  proof (rule sched_wfI [of _ _ _ _ _ c i])
    show "queues (waitq_append q c s1) R S' (W(q := W q @ [c])) A"
      by (rule waitq_append_queues [OF i1(2) [folded s1_def] n(1,3)])
    show "placed (waitq_append q c s1) R S' (W(q := W q @ [c])) u" if "u \<in> set A" for u
    proof (cases "u = c")
      case True
      have "c \<in> set ((W(q := W q @ [c])) q)" by simp
      then have "\<exists>k. c \<in> set ((W(q := W q @ [c])) k)" by blast
      with True n(1,2,4) c i i1(3) show ?thesis by (simp add: placed_def s1_def s0_def)
    next
      case False
      with D(2) [OF that] placed_eq [of u "W(q := W q @ [c])" W S' S R R "waitq_append q c s1" s] i1(3) show ?thesis
        by (simp add: s1_def s0_def)
    qed
    show "t_state (waitq_append q c s1) u \<noteq> THREAD_RUNNING \<and> t_state (waitq_append q c s1) u \<noteq> THREAD_DEAD" if "u \<in> set A" "u \<noteq> c" for u
      using D(3) [OF that(1)] that(2) c by (simp add: s1_def s0_def)
    show "set ((W(q := W q @ [c])) k) \<subseteq> set A" for k using D(6) [of k] cA by auto
  qed (use D(4,5,8) cA c i i1 in \<open>simp_all add: s1_def s0_def\<close>)
  with i1(1) c show ?thesis by (auto simp: s0_def s1_def)
qed

section \<open>Runs\<close>

text \<open>
  What happens to the scheduler: calls of the running thread, and the wake-ups and timer ticks of
  interrupt handlers. A new thread comes with the addresses the allocators returned.
\<close>

datatype event = Yield | Sleep_until nat | Exit | Wait wqid | Wait_until wqid nat | Wake_one wqid | Wake_all wqid
  | Tick nat | Create string "nat option" "nat option" tid nat | Enable_preemption
  | Set_address_space "nat option" | Set_namespace "nat option" | Leave_process

definition lift :: "sched option \<Rightarrow> sched run" where
  "lift m = Option.bind m rret"

fun step :: "event \<Rightarrow> sched \<Rightarrow> sched run" where
  "step Yield s = lift (thread_yield s)"
| "step (Sleep_until tick) s = lift (thread_sleep_until tick s)"
| "step Exit s = thread_exit s"
| "step (Wait q) s = waitq_sleep False q s"
| "step (Wait_until q tick) s = waitq_sleep_until False q tick s"
| "step (Wake_one q) s = lift (waitq_wake_one q s)"
| "step (Wake_all q) s = lift (waitq_wake_all q s)"
| "step (Tick now) s = lift (sched_tick now s)"
| "step (Create name as proc t stk) s = rret (snd (thread_create_in name as proc (Some t) (Some stk) s))"
| "step Enable_preemption s = rret (sched_enable_preemption s)"
| "step (Set_address_space as) s = lift (thread_set_address_space as s)"
| "step (Set_namespace ns) s = lift (thread_set_namespace ns s)"
| "step Leave_process s = lift (thread_leave_process s)"

text \<open>The idle thread only waits for interrupts; a new thread is not at the address of a live one.\<close>

fun chain_list :: "(tid \<Rightarrow> tid option) \<Rightarrow> tid option \<Rightarrow> nat \<Rightarrow> tid list" where
  "chain_list nx p 0 = []"
| "chain_list nx None n = []"
| "chain_list nx (Some t) (Suc n) = t # chain_list nx (nx t) n"

definition live :: "sched \<Rightarrow> tid list" where
  "live s = chain_list (t_all_next s) (all_threads s) (thread_count s)"

fun allowed :: "event \<Rightarrow> sched \<Rightarrow> bool" where
  "allowed (Wake_one q) s \<longleftrightarrow> True"
| "allowed (Wake_all q) s \<longleftrightarrow> True"
| "allowed (Tick now) s \<longleftrightarrow> True"
| "allowed (Create name as proc t stk) s \<longleftrightarrow> current s \<noteq> idle s \<and> t \<notin> set (live s)"
| "allowed e s \<longleftrightarrow> current s \<noteq> idle s"

text \<open>A run takes the events in order; one that cannot happen in the state it meets is left out.\<close>

fun run :: "event list \<Rightarrow> sched \<Rightarrow> sched run" where
  "run [] s = rret s"
| "run (e # es) s = (if allowed e s then rbind (step e s) (run es) else run es s)"

lemma chain_list_eq: "chain nx p xs \<Longrightarrow> chain_list nx p (length xs) = xs"
  by (induction xs arbitrary: p) auto

lemma live_eq: "sched_wf s R S W A \<Longrightarrow> live s = A"
  using chain_list_eq [of "t_all_next s" "all_threads s" A] by (simp add: live_def sched_wf_def queues_def)

text \<open>
  How far an event takes the run queue \<open>R\<close>: it may grow at the end while the same thread runs on,
  or its first thread runs next, with a fresh slice.
\<close>

definition onward :: "bool \<Rightarrow> sched \<Rightarrow> tid list \<Rightarrow> sched \<Rightarrow> tid list \<Rightarrow> bool" where
  "onward tick s R s' R' \<longleftrightarrow> (preemptive s \<longrightarrow> preemptive s') \<and> idle s' = idle s \<and> (R \<noteq> [] \<longrightarrow>
     current s' = current s \<and> (\<exists>X. R' = R @ X) \<and> slice_left s' = (if tick \<and> preemptive s then slice_left s - 1 else slice_left s)
     \<or> current s' = Some (hd R) \<and> (\<exists>X. R' = tl R @ X) \<and> slice_left s' = of_nat TIME_SLICE_TICKS)"

text \<open>The outcome of an operation that keeps the invariant.\<close>

definition goes :: "bool \<Rightarrow> sched \<Rightarrow> tid list \<Rightarrow> sched run \<Rightarrow> bool" where
  "goes tick s R m \<longleftrightarrow> (\<exists>s' R' S W A. m = rret s' \<and> sched_wf s' R' S W A \<and> running s' \<and> onward tick s R s' R')"

lemma goesI: "m = rret s' \<Longrightarrow> sched_wf s' R' S W A \<Longrightarrow> running s' \<Longrightarrow> onward tick s R s' R' \<Longrightarrow> goes tick s R m"
  by (auto simp: goes_def)

lemma schedule_goes:
  assumes w: "sched_wf s1 (R @ X) S W A" and c: "current s1 = Some c" and nr: "t_state s1 c \<noteq> THREAD_RUNNABLE"
    and f: "idle s1 = idle s" "preemptive s \<longrightarrow> preemptive s1"
  shows "\<exists>s'. schedule s1 = Some s' \<and> goes tick s R (rret s') \<and> (t_state s1 c = THREAD_DEAD \<longrightarrow> current s' \<noteq> Some c)"
proof -
  obtain s' n where s': "schedule s1 = Some s'" "chosen s1 (requeued s1 c (R @ X)) = Some n" "current s' = Some n"
    "sched_wf s' (tl (requeued s1 c (R @ X))) S W (if t_state s1 c = THREAD_DEAD then filter (\<lambda>u. u \<noteq> c) A else A)"
    "running s'" "slice_left s' = of_nat TIME_SLICE_TICKS" "switch_fields s1 s'" "t_state s1 c = THREAD_DEAD \<longrightarrow> n \<noteq> c"
    using schedule_ok [OF w c nr] by blast
  have "current s' = Some (hd R)" "\<exists>Y. tl (requeued s1 c (R @ X)) = tl R @ Y" if "R \<noteq> []"
    using that s'(2,3) by (auto simp: requeued_def chosen_def split: if_splits)
  then have "onward tick s R s' (tl (requeued s1 c (R @ X)))"
    using s'(6,7) f by (simp add: onward_def switch_fields_def)
  then have "goes tick s R (rret s')" by (rule goesI [OF refl s'(4,5)])
  with s'(1,3,8) show ?thesis by auto
qed

lemma resched_goes:
  assumes w: "sched_wf s1 (R @ X) S W A" and r: "running s1" and f: "wake_fields s s1"
  shows "\<exists>s'. resched_if_idle s1 = Some s' \<and> goes False s R (rret s')"
proof -
  obtain c where c: "current s1 = Some c" "t_state s1 c = THREAD_RUNNING" using r by (auto simp: running_def)
  have "goes False s R (rret s1)"
    using f by (intro goesI [OF refl w r]) (auto simp: onward_def wake_fields_def)
  then show ?thesis
    using schedule_goes [OF w c(1), of s False] c(2) f by (auto simp: resched_if_idle_def wake_fields_def)
qed

lemma wake_one_goes:
  assumes w: "sched_wf s R S W A" and r: "running s"
  shows "goes False s R (step (Wake_one q) s)"
proof (cases "W q")
  case Nil
  have "wake_fields s s" by (simp add: wake_fields_def)
  then obtain s' where "resched_if_idle s = Some s'" "goes False s R (rret s')"
    using resched_goes [of s R "[]" S W A] w r by auto
  with waitq_pop_None [OF w Nil] show ?thesis by (simp add: waitq_wake_one_def lift_def)
next
  case (Cons t ts)
  obtain c where c: "current s = Some c" using r by (auto simp: running_def)
  obtain s1 where s1: "waitq_pop q s = Some (Some t, s1)" "sched_wf s1 (R @ [t]) (filter (\<lambda>u. u \<noteq> t) S) (W(q := ts)) A"
    "t_state s1 = (t_state s)(t := THREAD_RUNNABLE)" "wake_fields s s1"
    using waitq_pop_ok [OF w r Cons] by blast
  have "Some t \<noteq> current s" using not_queued_current(3) [OF w r c, of q] c Cons by auto
  then have "running s1" using running_wake [OF r s1(4,3)] by simp
  from resched_goes [OF s1(2) this s1(4)] s1(1) show ?thesis by (auto simp: waitq_wake_one_def lift_def)
qed

lemma wake_all_goes:
  assumes w: "sched_wf s R S W A" and r: "running s"
  shows "goes False s R (step (Wake_all q) s)"
proof -
  obtain s1 S' where "pop_all q s = Some s1" "sched_wf s1 (R @ W q) S' (W(q := [])) A" "running s1" "wake_fields s s1"
    using pop_all_ok [OF w r] by blast
  with resched_goes [of s1 R "W q" S' "W(q := [])" A s] show ?thesis by (auto simp: waitq_wake_all_def lift_def)
qed

lemma sched_wf_irrelevant [simp]:
  "sched_wf (s\<lparr>calls := x\<rparr>) R S W A = sched_wf s R S W A" "sched_wf (s\<lparr>idle_ticks := y\<rparr>) R S W A = sched_wf s R S W A"
  "sched_wf (s\<lparr>slice_left := z\<rparr>) R S W A = sched_wf s R S W A" "sched_wf (s\<lparr>preemptive := b\<rparr>) R S W A = sched_wf s R S W A"
  "sched_wf (s\<lparr>t_as := m\<rparr>) R S W A = sched_wf s R S W A" "sched_wf (s\<lparr>t_ns := m\<rparr>) R S W A = sched_wf s R S W A"
  "sched_wf (s\<lparr>t_process := m\<rparr>) R S W A = sched_wf s R S W A"
  by (simp_all add: sched_wf_def queues_def placed_def)

lemma account_fields:
  "sched_wf (account s) R S W A = sched_wf s R S W A" "running (account s) = running s" "wake_fields s (account s)"
proof -
  have "account s = s \<or> (\<exists>x. account s = s\<lparr>calls := x\<rparr>) \<or> (\<exists>y. account s = s\<lparr>idle_ticks := y\<rparr>)"
    by (cases "current s"; cases "t_process s (the (current s))") (auto simp: account_def call_def)
  then show "sched_wf (account s) R S W A = sched_wf s R S W A" "running (account s) = running s" "wake_fields s (account s)"
    by (auto simp: running_def wake_fields_def)
qed

lemma slice_dec: "0 < x \<Longrightarrow> x - 1 \<noteq> 0 \<Longrightarrow> 0 < x - 1 \<and> x - 1 \<le> x" for x :: u32
  by (simp add: word_gt_0 word_le_nat_alt unat_minus_one)

lemma tick_goes:
  assumes w: "sched_wf s R S W A" and r: "running s"
  shows "goes True s R (step (Tick now) s)"
proof -
  obtain c where c: "current s = Some c" "t_state s c = THREAD_RUNNING" using r by (auto simp: running_def)
  obtain s2 X S' W' where s2: "expire_sleepers now (account s) = Some s2" "sched_wf s2 (R @ X) S' W' A" "running s2"
    "wake_fields (account s) s2"
    using expire_sleepers_ok [of "account s" R S W A now] w r account_fields by blast
  have f: "wake_fields s s2" using wake_fields_trans [OF account_fields(3) s2(4)] .
  have c2: "current s2 = Some c" "t_state s2 c = THREAD_RUNNING"
    using f c s2(3) by (auto simp: wake_fields_def running_def)
  have head: "run_head s2 = None \<longleftrightarrow> R @ X = []"
    using s2(2) chain_head [of "t_next s2" "run_head s2" "R @ X"] by (simp add: sched_wf_def queues_def)
  have sw: "\<exists>s'. schedule (s2\<lparr>slice_left := v\<rparr>) = Some s' \<and> goes True s R (rret s')" for v
    using schedule_goes [of "s2\<lparr>slice_left := v\<rparr>" R X S' W' A c s True] s2(2) c2 f
    by (auto simp: wake_fields_def)
  have tick: "sched_tick now s = (if current s2 = idle s2 then (if run_head s2 \<noteq> None then schedule s2 else Some s2)
        else if preemptive s2
        then let s3 = s2\<lparr>slice_left := slice_left s2 - 1\<rparr>
             in if slice_left s3 = 0 then schedule s3 else Some s3
        else Some s2)"
    using c s2(1) by (simp add: sched_tick_def)
  consider (idle) "current s2 = idle s2" "run_head s2 = None" | (wake) "current s2 = idle s2" "run_head s2 \<noteq> None"
    | (slice) "current s2 \<noteq> idle s2" "preemptive s2" "slice_left s2 - 1 = 0"
    | (on) "current s2 \<noteq> idle s2" "preemptive s2" "slice_left s2 - 1 \<noteq> 0"
    | (off) "current s2 \<noteq> idle s2" "\<not> preemptive s2" by blast
  then show ?thesis
  proof cases
    case idle
    then have "onward True s R s2 (R @ X)" using f head by (auto simp: onward_def wake_fields_def)
    then have "goes True s R (rret s2)" by (rule goesI [OF refl s2(2,3)])
    with idle tick show ?thesis by (simp add: lift_def)
  next
    case wake
    with tick sw [of "slice_left s2"] show ?thesis by (auto simp: lift_def)
  next
    case slice
    with tick sw [of "slice_left s2 - 1"] show ?thesis by (auto simp: lift_def)
  next
    case on
    let ?s3 = "s2\<lparr>slice_left := slice_left s2 - 1\<rparr>"
    have "sched_wf ?s3 (R @ X) S' W' A" using s2(2) by simp
    moreover have "running ?s3" using s2(3) on slice_dec [of "slice_left s2"] by (auto simp: running_def)
    moreover have "onward True s R ?s3 (R @ X)" using f on by (auto simp: onward_def wake_fields_def)
    ultimately have "goes True s R (rret ?s3)" by (rule goesI [OF refl])
    with on tick show ?thesis by (simp add: lift_def)
  next
    case off
    then have "onward True s R s2 (R @ X)" using f by (auto simp: onward_def wake_fields_def)
    then have "goes True s R (rret s2)" by (rule goesI [OF refl s2(2,3)])
    with off tick show ?thesis by (simp add: lift_def)
  qed
qed

lemma onward_refl: "preemptive s \<longrightarrow> preemptive s' \<Longrightarrow> idle s' = idle s \<Longrightarrow> current s' = current s \<Longrightarrow> slice_left s' = slice_left s \<Longrightarrow>
   onward False s R s' (R @ X)"
  by (auto simp: onward_def)

lemma create_goes:
  assumes w: "sched_wf s R S W A" and r: "running s" and t: "t \<notin> set A"
  shows "goes False s R (step (Create name as proc t stk) s)"
proof -
  note D = sched_wfD [OF w]
  obtain c where c: "c \<in> set A" "current s = Some c" using w by (auto simp: sched_wf_def)
  obtain i where i: "i \<in> set A" "idle s = Some i" using w by (auto simp: sched_wf_def)
  have nt: "t \<notin> set R" "t \<notin> set S" "t \<notin> set (W k)" for k using t D(4,5) D(6) [of k] by auto
  define s1 where "s1 = (snd (thread_alloc name (Some t) (Some stk) s))\<lparr>t_as := (t_as (snd (thread_alloc name (Some t) (Some stk) s)))(t := as),
    t_process := (t_process (snd (thread_alloc name (Some t) (Some stk) s)))(t := proc)\<rparr>"
  have st: "step (Create name as proc t stk) s = rret (run_enqueue t s1)"
    by (simp add: thread_create_in_def s1_def thread_alloc_def Let_def)
  have f: "t_state s1 = (t_state s)(t := THREAD_RUNNABLE)" "t_waiting_on s1 = (t_waiting_on s)(t := None)"
    "t_wake_tick s1 = t_wake_tick s" "current s1 = current s" "idle s1 = idle s" "preemptive s1 = preemptive s"
    "slice_left s1 = slice_left s" "thread_count s1 = thread_count s + 1"
    by (simp_all add: s1_def thread_alloc_def Let_def all_threads_add_def)
  have q: "queues s1 R S W (t # A)"
    using D(1) nt t by (simp add: s1_def thread_alloc_def Let_def all_threads_add_def queues_def)
  have p: "placed s1 R S W u" if "u \<in> set A" for u
  proof -
    have "u \<noteq> t" using that t by blast
    then show ?thesis using D(2) [OF that] placed_cong [of s1 u s R S W] f by simp
  qed
  have u: "t_state s1 u \<noteq> THREAD_RUNNING \<and> t_state s1 u \<noteq> THREAD_DEAD" if "u \<in> set A" "u \<noteq> c" for u
    using D(3) [OF that(1)] that c t f(1) by auto
  have id: "set_state t THREAD_RUNNABLE s1 = s1" using f(1) by (simp add: set_state_def)
  have sub: "set (W k) \<subseteq> set (t # A)" "set R \<subseteq> set (t # A)" "set S \<subseteq> set (t # A)" for k using D(4,5) D(6) [of k] by auto
  have "sched_wf (run_enqueue t (set_state t THREAD_RUNNABLE s1)) (R @ [t]) S W (t # A)"
  proof (rule ready_ok [OF q, of t c i])
    show "t_state s1 v \<noteq> THREAD_RUNNING \<and> t_state s1 v \<noteq> THREAD_DEAD" if "v \<in> set (t # A)" "v \<noteq> c" "v \<noteq> t" for v
      using u [of v] that by simp
  qed (use p nt f(2-8) sub c i t D(7,8) in auto)
  then have "sched_wf (run_enqueue t s1) (R @ [t]) S W (t # A)" unfolding id .
  moreover have "running (run_enqueue t s1)" using r f t c by (auto simp: running_def)
  moreover have "onward False s R (run_enqueue t s1) (R @ [t])" using f by (intro onward_refl) simp_all
  ultimately show ?thesis unfolding st by (rule goesI [OF refl])
qed

lemma exit_goes:
  assumes w: "sched_wf s R S W A" and r: "running s" and c: "current s = Some c" "current s \<noteq> idle s"
  shows "goes False s R (step Exit s)"
proof -
  obtain i where i: "i \<in> set A" "idle s = Some i" using w by (auto simp: sched_wf_def)
  have cA: "c \<in> set A" using w c by (auto simp: sched_wf_def)
  note n = not_queued_current [OF w r c(1)]
  define s0 where "s0 = call (Ns_unref (t_ns s c)) (s\<lparr>t_ns := (t_ns s)(c := None)\<rparr>)"
  have w0: "sched_wf s0 R S W A" using w by (simp add: s0_def call_def)
  have f0: "t_state s0 = t_state s" "t_waiting_on s0 = t_waiting_on s" "current s0 = current s" "idle s0 = idle s" "preemptive s0 = preemptive s"
    by (simp_all add: s0_def)
  define s2 where "s2 = set_state c THREAD_DEAD s0"
  note D = sched_wfD [OF w0]
  have "sched_wf s2 R S W A"
  proof (rule sched_wfI [of _ _ _ _ _ c i])
    show "placed s2 R S W u" if "u \<in> set A" for u
    proof (cases "u = c")
      case True
      with n c i f0 show ?thesis by (simp add: placed_def s2_def)
    next
      case False
      with D(2) [OF that] placed_eq [of u W W S S R R s2 s0] show ?thesis by (simp add: s2_def)
    qed
    show "t_state s2 u \<noteq> THREAD_RUNNING \<and> t_state s2 u \<noteq> THREAD_DEAD" if "u \<in> set A" "u \<noteq> c" for u
      using D(3) [OF that(1)] that(2) c f0 by (simp add: s2_def)
  qed (use D(1,4-8) cA c i f0 in \<open>simp_all add: s2_def\<close>)
  from schedule_goes [of s2 R "[]" S W A c s False] this c f0 obtain s' where
    "schedule s2 = Some s'" "goes False s R (rret s')" "current s' \<noteq> Some c" by (auto simp: s2_def)
  with c show ?thesis by (simp add: thread_exit_def Let_def s0_def [symmetric] s2_def [symmetric])
qed

lemma block_goes:
  assumes w: "sched_wf s R S W A" and r: "running s" and c: "current s = Some c" "current s \<noteq> idle s"
  shows "goes False s R (step (Wait q) s)" "goes False s R (step (Wait_until q tick) s)" "goes False s R (step (Sleep_until tick) s)"
    "goes False s R (step Yield s)"
proof -
  have run: "t_state s c = THREAD_RUNNING" using r c by (simp add: running_def)
  obtain s' where "schedule (waitq_append q c s) = Some s'" "goes False s R (rret s')"
    using schedule_goes [of "waitq_append q c s" R "[]" S _ A c s False] block_wf [OF w r c, of q] c by auto
  with c show "goes False s R (step (Wait q) s)" by (simp add: waitq_sleep_def)
  obtain s1 S' where s1: "sleep_insert c (s\<lparr>t_waiting_on := (t_waiting_on s)(c := Some q), t_timed_out := (t_timed_out s)(c := False),
        t_wake_tick := (t_wake_tick s)(c := tick)\<rparr>) = Some s1"
    "sched_wf (waitq_append q c s1) R S' (W(q := W q @ [c])) A" "current s1 = Some c" "preemptive s1 = preemptive s" "idle s1 = idle s"
    using timed_block_wf [OF w r c] by blast
  obtain s' where "schedule (waitq_append q c s1) = Some s'" "goes False s R (rret s')"
    using schedule_goes [of "waitq_append q c s1" R "[]" S' _ A c s False] s1 by auto
  with c s1(1,3) show "goes False s R (step (Wait_until q tick) s)" by (simp add: waitq_sleep_until_def waitq_sleep_def)
  obtain s1 S' where s1: "sleep_insert c ((set_state c THREAD_SLEEPING s)\<lparr>t_wake_tick := (t_wake_tick s)(c := tick)\<rparr>) = Some s1"
    "sched_wf s1 R S' W A" "current s1 = Some c" "t_state s1 c = THREAD_SLEEPING" "preemptive s1 = preemptive s" "idle s1 = idle s"
    using sleep_wf [OF w r c] by blast
  obtain s' where "schedule s1 = Some s'" "goes False s R (rret s')"
    using schedule_goes [of s1 R "[]" S' W A c s False] s1 by auto
  with c s1(1) show "goes False s R (step (Sleep_until tick) s)" by (simp add: thread_sleep_until_def lift_def)
  obtain s' where "schedule s = Some s'" "goes False s R (rret s')"
    using schedule_goes [of s R "[]" S W A c s False] w c run by auto
  then show "goes False s R (step Yield s)" by (simp add: thread_yield_def lift_def)
qed

lemma set_goes:
  assumes w: "sched_wf s R S W A" and r: "running s"
  shows "goes False s R (step Enable_preemption s)" "goes False s R (step (Set_address_space as) s)"
    "goes False s R (step (Set_namespace ns) s)" "goes False s R (step Leave_process s)"
proof -
  obtain c where c: "current s = Some c" using r by (auto simp: running_def)
  have go: "goes False s R (rret s')" if "sched_wf s' R S W A" "t_state s' = t_state s" "current s' = current s" "idle s' = idle s"
    "slice_left s' = slice_left s" "preemptive s \<longrightarrow> preemptive s'" for s'
    using that r onward_refl [of s s' R "[]"] by (intro goesI [OF refl that(1)]) (auto simp: running_def)
  show "goes False s R (step Enable_preemption s)" using w by (auto intro!: go simp: sched_enable_preemption_def)
  show "goes False s R (step (Set_address_space as) s)" using w c
    by (auto intro!: go simp: thread_set_address_space_def lift_def call_def)
  show "goes False s R (step (Set_namespace ns) s)" using w c
    by (auto intro!: go simp: thread_set_namespace_def lift_def call_def)
  show "goes False s R (step Leave_process s)" using w c by (auto intro!: go simp: thread_leave_process_def lift_def)
qed

fun is_tick :: "event \<Rightarrow> bool" where
  "is_tick (Tick now) \<longleftrightarrow> True"
| "is_tick e \<longleftrightarrow> False"

lemma step_goes:
  assumes w: "sched_wf s R S W A" and r: "running s" and a: "allowed e s"
  shows "goes (is_tick e) s R (step e s)"
proof -
  obtain c where c: "current s = Some c" using r by (auto simp: running_def)
  show ?thesis
  proof (cases e)
    case (Create name as proc t stk)
    with a live_eq [OF w] create_goes [OF w r] show ?thesis by (simp del: step.simps)
  qed (use a wake_one_goes [OF w r] wake_all_goes [OF w r] tick_goes [OF w r] exit_goes [OF w r c] block_goes [OF w r c]
      set_goes [OF w r] in \<open>simp_all del: step.simps\<close>)
qed

section \<open>Properties\<close>

text \<open>The scheduler's variables before \<open>sched_init\<close>, which the kernel image starts with at zero.\<close>

definition unstarted :: "sched \<Rightarrow> bool" where
  "unstarted s \<longleftrightarrow> run_head s = None \<and> run_tail s = None \<and> sleepers s = None \<and> all_threads s = None
     \<and> (\<forall>q. wq_head s q = None \<and> wq_tail s q = None) \<and> current s = None \<and> thread_count s = 0"

definition sched_ok :: "sched \<Rightarrow> bool" where
  "sched_ok s \<longleftrightarrow> (\<exists>R S W A. sched_wf s R S W A \<and> running s)"

lemma sched_init_ok:
  assumes "unstarted s" and "m \<noteq> i"
  shows "\<exists>s'. sched_init (Some m) (Some i) (Some stk) s = Done s' \<and> sched_wf s' [] [] (\<lambda>q. []) [i, m] \<and> running s'"
proof -
  define s' where "s' = (case sched_init (Some m) (Some i) (Some stk) s of Done s' \<Rightarrow> s' | Panic e \<Rightarrow> s)"
  have d: "sched_init (Some m) (Some i) (Some stk) s = Done s'"
    by (simp add: s'_def sched_init_def thread_alloc_def all_threads_add_def Let_def)
  have f: "t_state s' m = THREAD_RUNNING" "t_state s' i = THREAD_RUNNABLE" "t_waiting_on s' m = None" "t_waiting_on s' i = None"
    "current s' = Some m" "idle s' = Some i" "thread_count s' = 2" "slice_left s' = of_nat TIME_SLICE_TICKS"
    "run_head s' = None" "run_tail s' = None" "sleepers s' = None" "wq_head s' = wq_head s" "wq_tail s' = wq_tail s"
    "all_threads s' = Some i" "t_all_next s' i = Some m" "t_all_next s' m = None"
    using assms by (simp_all add: s'_def sched_init_def thread_alloc_def all_threads_add_def Let_def unstarted_def)
  have "queues s' [] [] (\<lambda>q. []) [i, m]" using f assms by (simp add: queues_def unstarted_def)
  moreover have "placed s' [] [] (\<lambda>q. []) u" if "u \<in> set [i, m]" for u using f assms(2) that by (auto simp: placed_def)
  ultimately have "sched_wf s' [] [] (\<lambda>q. []) [i, m]"
    using f by (intro sched_wfI [of _ _ _ _ _ m i]) auto
  moreover have "running s'" using f by (simp add: running_def TIME_SLICE_TICKS_def TIME_SLICE_MS_def TIMER_HZ_def)
  ultimately show ?thesis using d by blast
qed

lemma sched_run_ok:
  assumes "sched_ok s"
  shows "\<exists>s'. run es s = rret s' \<and> sched_ok s'"
  using assms
proof (induction es arbitrary: s)
  case (Cons e es)
  obtain R S W A where w: "sched_wf s R S W A" "running s" using Cons.prems by (auto simp: sched_ok_def)
  show ?case
  proof (cases "allowed e s")
    case True
    obtain s1 where "step e s = rret s1" "sched_ok s1"
      using step_goes [OF w True] unfolding goes_def sched_ok_def by blast
    with True Cons.IH [of s1] show ?thesis by simp
  next
    case False
    with Cons show ?thesis by simp
  qed
qed simp

text \<open>How long a thread in the run queue can still have to wait, in ticks.\<close>

definition patience :: "sched \<Rightarrow> nat \<Rightarrow> nat" where
  "patience s k = k * TIME_SLICE_TICKS + unat (slice_left s)"

lemma onward_patience:
  assumes o: "onward tick s R s' R'" and k: "k < length R" and p: "preemptive s" and r: "running s"
  shows "current s' = Some (R ! k)
    \<or> (\<exists>k' < length R'. R' ! k' = R ! k \<and> patience s' k' + (if tick then 1 else 0) \<le> patience s k)"
proof -
  have sl: "0 < unat (slice_left s)" using r by (simp add: running_def unat_gt_0 word_gt_0)
  have dec: "unat (slice_left s - 1) = unat (slice_left s) - 1" using sl by (simp add: unat_minus_one unat_gt_0)
  have T: "unat (of_nat TIME_SLICE_TICKS :: u32) = TIME_SLICE_TICKS" by (simp add: TIME_SLICE_TICKS_def TIME_SLICE_MS_def TIMER_HZ_def)
  have "R \<noteq> []" using k by auto
  with o consider (stay) X where "R' = R @ X" "slice_left s' = (if tick \<and> preemptive s then slice_left s - 1 else slice_left s)"
    | (move) X where "current s' = Some (hd R)" "R' = tl R @ X" "slice_left s' = of_nat TIME_SLICE_TICKS"
    unfolding onward_def by blast
  then show ?thesis
  proof cases
    case stay
    with k p sl dec show ?thesis by (intro disjI2 exI [of _ k]) (auto simp: patience_def nth_append)
  next
    case move
    show ?thesis
    proof (cases k)
      case 0
      with move \<open>R \<noteq> []\<close> show ?thesis by (simp add: hd_conv_nth)
    next
      case (Suc j)
      with move k sl T have "j < length R'" "R' ! j = R ! k" "patience s' j + (if tick then 1 else 0) \<le> patience s k"
        by (auto simp: patience_def nth_append nth_tl)
      then show ?thesis by blast
    qed
  qed
qed

lemma run_reaches:
  assumes "sched_wf s R S W A" and "running s" and "preemptive s" and "k < length R" and "patience s k \<le> length (filter is_tick es)"
  shows "\<exists>es1 es2 s'. es = es1 @ es2 \<and> run es1 s = rret s' \<and> current s' = Some (R ! k)"
  using assms
proof (induction es arbitrary: s R S W A k)
  case Nil
  then have "0 < unat (slice_left s)" by (simp add: running_def unat_gt_0 word_gt_0)
  with Nil show ?case by (simp add: patience_def)
next
  case (Cons e es)
  show ?case
  proof (cases "allowed e s")
    case False
    then have "\<not> is_tick e" by (cases e) auto
    with Cons.prems Cons.IH [of s R S W A k] obtain es1 es2 s' where
      "es = es1 @ es2" "run es1 s = rret s'" "current s' = Some (R ! k)" by auto
    with False have "e # es = (e # es1) @ es2 \<and> run (e # es1) s = rret s' \<and> current s' = Some (R ! k)" by simp
    then show ?thesis by blast
  next
    case True
    obtain s1 R1 S1 W1 A1 where s1: "step e s = rret s1" "sched_wf s1 R1 S1 W1 A1" "running s1" "onward (is_tick e) s R s1 R1"
      using step_goes [OF Cons.prems(1,2) True] by (auto simp: goes_def)
    from onward_patience [OF s1(4) Cons.prems(4,3,2)] show ?thesis
    proof
      assume "current s1 = Some (R ! k)"
      with True s1(1) have "e # es = [e] @ es \<and> run [e] s = rret s1 \<and> current s1 = Some (R ! k)" by simp
      then show ?thesis by blast
    next
      assume "\<exists>k' < length R1. R1 ! k' = R ! k \<and> patience s1 k' + (if is_tick e then 1 else 0) \<le> patience s k"
      then obtain k' where k': "k' < length R1" "R1 ! k' = R ! k" "patience s1 k' + (if is_tick e then 1 else 0) \<le> patience s k" by blast
      have "preemptive s1" using s1(4) Cons.prems(3) by (simp add: onward_def)
      with Cons.IH [OF s1(2,3) _ k'(1)] k' Cons.prems(5) obtain es1 es2 s' where
        "es = es1 @ es2" "run es1 s1 = rret s'" "current s' = Some (R ! k)" by (auto split: if_splits)
      with True s1(1) have "e # es = (e # es1) @ es2 \<and> run (e # es1) s = rret s' \<and> current s' = Some (R ! k)" by simp
      then show ?thesis by blast
    qed
  qed
qed

lemma ready_position:
  assumes w: "sched_wf s R S W A" and r: "running s" and t: "t \<in> set A" "t_state s t = THREAD_RUNNABLE" "Some t \<noteq> idle s"
  shows "\<exists>k < length R. R ! k = t \<and> patience s k \<le> thread_count s * TIME_SLICE_TICKS"
proof -
  have "t \<in> set R" using sched_wfD(2) [OF w t(1)] t by (simp add: placed_def)
  then obtain k where k: "k < length R" "R ! k = t" by (auto simp: in_set_conv_nth)
  have "distinct R" using w chain_distinct [of "t_next s" "run_head s" R] by (simp add: sched_wf_def queues_def)
  then have "length R \<le> length A" using sched_wfD(4) [OF w] by (metis card_mono distinct_card card_length le_trans List.finite_set)
  then have "(k + 1) * TIME_SLICE_TICKS \<le> thread_count s * TIME_SLICE_TICKS"
    using k(1) sched_wfD(8) [OF w] by (intro mult_le_mono1) simp
  moreover have "unat (slice_left s) \<le> TIME_SLICE_TICKS"
    using r by (simp add: running_def word_le_nat_alt TIME_SLICE_TICKS_def TIME_SLICE_MS_def TIMER_HZ_def)
  ultimately show ?thesis using k by (intro exI [of _ k]) (simp add: patience_def)
qed

text \<open>
  C3: from \<open>sched_init\<close> on, whatever calls, wake-ups and ticks follow in whatever order, every
  operation returns, nothing panics, and the scheduler's lists and states agree: exactly one thread
  runs, every ready thread is once in the run queue, every blocked thread in exactly one wait queue,
  every sleeping or timed waiting thread in the list of sleepers, which stays sorted, no thread is in
  two queues that share a link, and the thread count is right.
\<close>

theorem sched_safe:
  assumes "unstarted s0" and "m \<noteq> i"
  shows "\<exists>s1 s. sched_init (Some m) (Some i) (Some stk) s0 = Done s1 \<and> run es s1 = rret s \<and> sched_ok s"
  using sched_init_ok [OF assms] sched_run_ok by (metis sched_ok_def)

text \<open>
  C6: with preemption on, a thread that is ready runs before \<open>thread_count\<close> time slices of ticks
  have passed, whatever else happens meanwhile: no ready thread starves.
\<close>

theorem sched_no_starvation:
  assumes "unstarted s0" and "m \<noteq> i" and "sched_init (Some m) (Some i) (Some stk) s0 = Done s1" and "run es0 s1 = rret s"
    and "preemptive s" and "t \<in> set (live s)" and "t_state s t = THREAD_RUNNABLE" and "Some t \<noteq> idle s"
    and "thread_count s * TIME_SLICE_TICKS \<le> length (filter is_tick es)"
  shows "\<exists>es1 es2 s'. es = es1 @ es2 \<and> run es1 s = rret s' \<and> current s' = Some t"
proof -
  have "sched_ok s1" using sched_init_ok [OF assms(1,2), of stk] assms(3) by (auto simp: sched_ok_def)
  then have "sched_ok s" using sched_run_ok [of s1 es0] assms(4) by simp
  then obtain R S W A where w: "sched_wf s R S W A" "running s" by (auto simp: sched_ok_def)
  from ready_position [OF w _ assms(7,8)] assms(6) live_eq [OF w(1)] obtain k where
    "k < length R" "R ! k = t" "patience s k \<le> thread_count s * TIME_SLICE_TICKS" by auto
  with run_reaches [OF w assms(5), of k es] assms(9) show ?thesis by auto
qed

definition zero_sched :: sched where
  "zero_sched = \<lparr>t_id = (\<lambda>t. 0), t_name = (\<lambda>t. []), t_state = (\<lambda>t. THREAD_RUNNABLE), t_stack_top = (\<lambda>t. 0),
     t_wake_tick = (\<lambda>t. 0), t_ns = (\<lambda>t. None), t_as = (\<lambda>t. None), t_process = (\<lambda>t. None), t_next = (\<lambda>t. None),
     t_sleep_next = (\<lambda>t. None), t_waiting_on = (\<lambda>t. None), t_timed_out = (\<lambda>t. False), t_all_next = (\<lambda>t. None),
     wq_head = (\<lambda>q. None), wq_tail = (\<lambda>q. None), current = None, idle = None, run_head = None, run_tail = None,
     sleepers = None, switched_from = None, all_threads = None, preemptive = False, idle_ticks = 0, slice_left = 0,
     next_id = 0, thread_count = 0, calls = []\<rparr>"

lemma zero_unstarted: "unstarted zero_sched"
  by (simp add: unstarted_def zero_sched_def)

theorem sched_safe_witness:
  "\<exists>s1 s. sched_init (Some 1) (Some 2) (Some 64) zero_sched = Done s1
    \<and> run [Create ''a'' None None 3 8, Wait 7, Tick 1, Exit, Wake_all 7, Tick 2] s1 = rret s \<and> sched_ok s"
  by (rule sched_safe [OF zero_unstarted]) simp

theorem sched_no_starvation_witness:
  "\<exists>s1 s es1 es2 s'. sched_init (Some 1) (Some 2) (Some 64) zero_sched = Done s1
    \<and> run [Create ''a'' None None 3 8, Enable_preemption] s1 = rret s
    \<and> replicate 6 (Tick 0) = es1 @ es2 \<and> run es1 s = rret s' \<and> current s' = Some 3"
proof -
  obtain s1 where s1: "sched_init (Some 1) (Some 2) (Some 64) zero_sched = Done s1" "sched_ok s1"
    using sched_init_ok [OF zero_unstarted, of 1 2 64] unfolding sched_ok_def by (metis n_not_Suc_n numeral_2_eq_2 One_nat_def)
  obtain s where s: "run [Create ''a'' None None 3 8, Enable_preemption] s1 = rret s" using sched_run_ok [OF s1(2)] by blast
  have s1': "current s1 = Some 1" "idle s1 = Some 2" "all_threads s1 = Some 2" "t_all_next s1 2 = Some 1" "thread_count s1 = 2"
    using s1(1) by (auto simp: sched_init_def zero_sched_def thread_alloc_def all_threads_add_def Let_def)
  have "current (snd (thread_create_in ''a'' None None (Some 3) (Some 8) s1)) = Some 1"
    "idle (snd (thread_create_in ''a'' None None (Some 3) (Some 8) s1)) = Some 2"
    using s1' by (simp_all add: thread_create_in_def thread_alloc_def Let_def all_threads_add_def)
  moreover have "live s1 = [2, 1]" using s1' by (simp add: live_def eval_nat_numeral)
  ultimately have "s = sched_enable_preemption (snd (thread_create_in ''a'' None None (Some 3) (Some 8) s1))"
    using s s1' by simp
  then have "preemptive s" "t_state s 3 = THREAD_RUNNABLE" "idle s = Some 2" "thread_count s = 3" "all_threads s = Some 3"
    using s1' by (simp_all add: sched_enable_preemption_def thread_create_in_def thread_alloc_def Let_def all_threads_add_def)
  moreover from this have "3 \<in> set (live s)" by (simp add: live_def eval_nat_numeral)
  ultimately have "\<exists>es1 es2 s'. replicate 6 (Tick 0) = es1 @ es2 \<and> run es1 s = rret s' \<and> current s' = Some 3"
    by (intro sched_no_starvation [OF zero_unstarted _ s1(1) s, of 3 "replicate 6 (Tick 0)"])
       (simp_all add: TIME_SLICE_TICKS_def TIME_SLICE_MS_def TIMER_HZ_def)
  with s1(1) s show ?thesis by blast
qed

end
