(* ===== verification/Namespace.thy ===== *)
theory Namespace
  imports Vnode
begin

text \<open>
  Namespaces, \<open>zkt/fs/namespace.c\<close>: the lexical cleaning of paths, the mount table, and the
  resolution of a path through unions and mounts with its reference counting. A C string is its
  characters; a string being built in a buffer is the part written so far. Locks are not
  represented: each operation is what it does while no other changes the same table.
\<close>

section \<open>Clean paths\<close>

definition VFS_NAME_MAX :: nat where "VFS_NAME_MAX = 63"
definition VFS_PATH_MAX :: nat where "VFS_PATH_MAX = 255"
definition LOCATION_LABEL_MAX :: nat where "LOCATION_LABEL_MAX = 32"

text \<open>\<open>while (len > 1 && out[len - 1] != '/') len--\<close>.\<close>

function strip_name :: "string \<Rightarrow> string" where
  "strip_name out = (if length out > 1 \<and> last out \<noteq> CHR ''/'' then strip_name (butlast out) else out)"
  by pat_completeness auto
termination by (relation "measure length") auto

declare strip_name.simps [simp del]

lemma dropWhile_rest: "p \<noteq> [] \<Longrightarrow> length (dropWhile (\<lambda>c. c \<noteq> x) (dropWhile (\<lambda>c. c = x) p)) < length p"
proof -
  assume "p \<noteq> []"
  show ?thesis
  proof (cases "dropWhile (\<lambda>c. c = x) p")
    case Nil
    show ?thesis unfolding Nil using \<open>p \<noteq> []\<close> by simp
  next
    case (Cons c cs)
    have "c \<noteq> x" using hd_dropWhile [of "\<lambda>c. c = x" p] unfolding Cons by simp
    then have "length (dropWhile (\<lambda>c. c \<noteq> x) (dropWhile (\<lambda>c. c = x) p)) \<le> length cs"
      unfolding Cons by (simp add: length_dropWhile_le)
    also have "length cs < length p" using length_dropWhile_le [of "\<lambda>c. c = x" p] unfolding Cons by simp
    finally show ?thesis .
  qed
qed

function clean_loop :: "string \<Rightarrow> string \<Rightarrow> string result" where
  "clean_loop p out =
     (if p = [] then Inr out
      else let q = dropWhile (\<lambda>c. c = CHR ''/'') p;
               name = takeWhile (\<lambda>c. c \<noteq> CHR ''/'') q;
               p' = dropWhile (\<lambda>c. c \<noteq> CHR ''/'') q;
               n = length name
           in if n = 0 \<or> n = 1 \<and> name ! 0 = CHR ''.'' then clean_loop p' out
              else if n = 2 \<and> name ! 0 = CHR ''.'' \<and> name ! 1 = CHR ''.''
              then let o1 = strip_name out
                   in clean_loop p' (if length o1 > 1 then butlast o1 else o1)
              else if n > VFS_NAME_MAX \<or> length out + 1 + n > VFS_PATH_MAX then Inl ENAMETOOLONG
              else clean_loop p' ((if length out > 1 then out @ [CHR ''/''] else out) @ name))"
  by pat_completeness auto
termination
  by (relation "measure (\<lambda>(p, out). length p)") (auto simp: dropWhile_rest)

declare clean_loop.simps [simp del]

definition vfs_clean_path :: "string \<Rightarrow> string result" where
  "vfs_clean_path path =
     (if path = [] \<or> path ! 0 \<noteq> CHR ''/'' then Inl EINVAL else clean_loop path [CHR ''/''])"

section \<open>Locations and mounts\<close>

text \<open>The members of a location in search order, each with the label of where it came from.\<close>

type_synonym location = "(vnode \<times> string) list"

definition set_label :: "string \<Rightarrow> string" where
  "set_label label = take (LOCATION_LABEL_MAX - 1) label"

definition location_copy :: "location \<Rightarrow> vstate \<Rightarrow> location \<times> vstate" where
  "location_copy src st = (src, fold (\<lambda>(v, l). vnode_ref v) src st)"

definition location_release :: "vnodes \<Rightarrow> location \<Rightarrow> vstate \<Rightarrow> location \<times> vstate" where
  "location_release vs loc st = ([], fold (\<lambda>(v, l). vnode_unref vs v) loc st)"

text \<open>The mount table keeps the order of creation.\<close>

record namespace =
  ns_refs :: u32
  ns_root :: vnode
  ns_mounts :: "(string \<times> location) list"

text \<open>\<open>ok\<close> is whether \<open>kmalloc\<close> found memory.\<close>

definition ns_create :: "bool \<Rightarrow> vnode \<Rightarrow> vstate \<Rightarrow> namespace option \<times> vstate" where
  "ns_create ok root st =
     (if \<not> ok then (None, st)
      else (Some \<lparr>ns_refs = 1, ns_root = root, ns_mounts = []\<rparr>, vnode_ref root st))"

definition ns_ref :: "namespace option \<Rightarrow> namespace option" where
  "ns_ref ns = map_option (\<lambda>n. n\<lparr>ns_refs := ns_refs n + 1\<rparr>) ns"

text \<open>The last reference releases the mounts in order, then the root, and frees the namespace.\<close>

definition ns_unref :: "vnodes \<Rightarrow> namespace option \<Rightarrow> vstate \<Rightarrow> namespace option \<times> vstate" where
  "ns_unref vs ns st = (case ns of
      None \<Rightarrow> (None, st)
    | Some n \<Rightarrow>
        let n1 = n\<lparr>ns_refs := ns_refs n - 1\<rparr>
        in if ns_refs n1 \<noteq> 0 then (Some n1, st)
           else (None, vnode_unref vs (ns_root n1)
                   (fold (\<lambda>(path, loc) st. snd (location_release vs loc st)) (ns_mounts n1) st)))"

text \<open>\<open>alloc\<close> gives the result of each \<open>kmalloc\<close> of a copy in turn.\<close>

fun fork_mounts :: "vnodes \<Rightarrow> bool list \<Rightarrow> (string \<times> location) list \<Rightarrow> namespace \<Rightarrow> vstate \<Rightarrow> namespace option \<times> vstate" where
  "fork_mounts vs alloc [] ns st = (Some ns, st)"
| "fork_mounts vs alloc ((path, loc) # ms) ns st =
     (case alloc of
        True # alloc' \<Rightarrow>
          let (copy, st1) = location_copy loc st
          in fork_mounts vs alloc' ms (ns\<lparr>ns_mounts := ns_mounts ns @ [(take VFS_PATH_MAX path, copy)]\<rparr>) st1
      | _ \<Rightarrow> (None, snd (ns_unref vs (Some ns) st)))"

definition ns_fork :: "vnodes \<Rightarrow> bool \<Rightarrow> bool list \<Rightarrow> namespace \<Rightarrow> vstate \<Rightarrow> namespace option \<times> vstate" where
  "ns_fork vs ok alloc src st = (case ns_create ok (ns_root src) st of
      (None, st1) \<Rightarrow> (None, st1)
    | (Some ns, st1) \<Rightarrow> fork_mounts vs alloc (ns_mounts src) ns st1)"

fun find_mount :: "(string \<times> location) list \<Rightarrow> string \<Rightarrow> location option" where
  "find_mount [] canon = None"
| "find_mount ((path, loc) # ms) canon = (if path = canon then Some loc else find_mount ms canon)"

definition apply_mount :: "vnodes \<Rightarrow> namespace \<Rightarrow> string \<Rightarrow> location \<Rightarrow> vstate \<Rightarrow> location \<times> vstate" where
  "apply_mount vs ns canon loc st = (case find_mount (ns_mounts ns) canon of
      None \<Rightarrow> (loc, st)
    | Some m \<Rightarrow>
        let replaced = loc; (loc1, st1) = location_copy m st
        in (loc1, snd (location_release vs replaced st1)))"

text \<open>The loop of \<open>walk_location\<close>, with the error found so far.\<close>

fun walk_members :: "vnodes \<Rightarrow> location \<Rightarrow> string \<Rightarrow> errno \<Rightarrow> vstate \<Rightarrow> vnode result \<times> vstate" where
  "walk_members vs [] name rc st = (Inl rc, st)"
| "walk_members vs ((v, l) # loc) name rc st =
     (case v_walk vs v of
        None \<Rightarrow> walk_members vs loc name rc st
      | Some w \<Rightarrow>
          if v_type vs v \<noteq> VNODE_DIR then walk_members vs loc name rc st
          else case w name of
            Inr found \<Rightarrow> (Inr found, vnode_ref found st)
          | Inl r \<Rightarrow> walk_members vs loc name r st)"

definition walk_location :: "vnodes \<Rightarrow> location \<Rightarrow> string \<Rightarrow> vstate \<Rightarrow> vnode result \<times> vstate" where
  "walk_location vs loc name st = walk_members vs loc name ENOTDIR st"

lemma dropWhile_tl: "p \<noteq> [] \<Longrightarrow> length (dropWhile P p) - Suc 0 < length p"
  using length_dropWhile_le [of P p] by (cases p) auto

text \<open>The loop of \<open>ns_resolve\<close> over what is left of the clean path, with the prefix walked so far.\<close>

function resolve_loop :: "vnodes \<Rightarrow> namespace \<Rightarrow> string \<Rightarrow> string \<Rightarrow> location \<Rightarrow> vstate \<Rightarrow> location result \<times> vstate" where
  "resolve_loop vs ns p prefix loc st =
     (if p = [] then (Inr loc, st)
      else let name = takeWhile (\<lambda>c. c \<noteq> CHR ''/'') p;
               (rc, st1) = walk_location vs loc name st;
               st2 = snd (location_release vs loc st1)
           in case rc of
                Inl e \<Rightarrow> (Inl e, st2)
              | Inr next \<Rightarrow>
                  let prefix' = prefix @ CHR ''/'' # name;
                      (loc', st3) = apply_mount vs ns prefix' [(next, set_label prefix')] st2;
                      p' = dropWhile (\<lambda>c. c \<noteq> CHR ''/'') p
                  in resolve_loop vs ns (if p' \<noteq> [] then tl p' else p') prefix' loc' st3)"
  by pat_completeness auto
termination
  by (relation "measure (\<lambda>(vs, ns, p, prefix, loc, st). length p)") (auto simp: dropWhile_tl simp del: dropWhile_eq_Nil_conv)

declare resolve_loop.simps [simp del]

text \<open>The second component of a result is the clean path, copied to \<open>canon\<close> when the caller wants it.\<close>

definition ns_resolve :: "vnodes \<Rightarrow> namespace \<Rightarrow> string \<Rightarrow> vstate \<Rightarrow> (location \<times> string) result \<times> vstate" where
  "ns_resolve vs ns path st = (case vfs_clean_path path of
      Inl e \<Rightarrow> (Inl e, st)
    | Inr clean \<Rightarrow>
        let st1 = vnode_ref (ns_root ns) st;
            (loc, st2) = apply_mount vs ns [CHR ''/''] [(ns_root ns, set_label [CHR ''/''])] st1
        in case resolve_loop vs ns (drop 1 clean) [] loc st2 of
             (Inl e, st3) \<Rightarrow> (Inl e, st3)
           | (Inr loc', st3) \<Rightarrow> (Inr (loc', take VFS_PATH_MAX clean), st3))"

text \<open>Replaces the entry in place, or adds one at the end; the old members are released last.\<close>

fun replace_mount :: "string \<Rightarrow> location \<Rightarrow> (string \<times> location) list \<Rightarrow> (string \<times> location) list" where
  "replace_mount canon loc [] = []"
| "replace_mount canon loc ((path, old) # ms) =
     (if path = canon then (path, loc) # ms else (path, old) # replace_mount canon loc ms)"

definition ns_set_mount :: "vnodes \<Rightarrow> bool \<Rightarrow> namespace \<Rightarrow> string \<Rightarrow> location \<Rightarrow> vstate \<Rightarrow> unit result \<times> namespace \<times> vstate" where
  "ns_set_mount vs ok ns canon loc st = (case find_mount (ns_mounts ns) canon of
      Some old \<Rightarrow>
        (Inr (), ns\<lparr>ns_mounts := replace_mount canon loc (ns_mounts ns)\<rparr>, snd (location_release vs old st))
    | None \<Rightarrow>
        if \<not> ok then (Inl ENOMEM, ns, snd (location_release vs loc st))
        else (Inr (), ns\<lparr>ns_mounts := ns_mounts ns @ [(take VFS_PATH_MAX canon, loc)]\<rparr>, snd (location_release vs [] st)))"

fun delete_mount :: "string \<Rightarrow> (string \<times> location) list \<Rightarrow> (string \<times> location) list" where
  "delete_mount canon [] = []"
| "delete_mount canon ((path, loc) # ms) = (if path = canon then ms else (path, loc) # delete_mount canon ms)"

definition ns_remove_mount :: "vnodes \<Rightarrow> namespace \<Rightarrow> string \<Rightarrow> vstate \<Rightarrow> unit result \<times> namespace \<times> vstate" where
  "ns_remove_mount vs ns canon st = (case find_mount (ns_mounts ns) canon of
      None \<Rightarrow> (Inl ENOENT, ns, st)
    | Some m \<Rightarrow> (Inr (), ns\<lparr>ns_mounts := delete_mount canon (ns_mounts ns)\<rparr>, snd (location_release vs m st)))"

definition ns_foreach :: "namespace \<Rightarrow> (string \<Rightarrow> location \<Rightarrow> 'c \<Rightarrow> 'c) \<Rightarrow> 'c \<Rightarrow> 'c" where
  "ns_foreach ns fn ctx = fold (\<lambda>(path, loc). fn path loc) (ns_mounts ns) ctx"

section \<open>Paths as lists of names\<close>

function comps :: "string \<Rightarrow> string list" where
  "comps p =
     (let q = dropWhile (\<lambda>c. c = CHR ''/'') p
      in if q = [] then []
         else takeWhile (\<lambda>c. c \<noteq> CHR ''/'') q # comps (dropWhile (\<lambda>c. c \<noteq> CHR ''/'') q))"
  by pat_completeness auto
termination
proof (relation "measure length", goal_cases)
  case (2 p q)
  then have "p \<noteq> []" by (metis dropWhile.simps(1))
  from dropWhile_rest [OF this] show ?case unfolding 2(1) by simp
qed simp

declare comps.simps [simp del]

definition render :: "string list \<Rightarrow> string" where
  "render ns = (if ns = [] then [CHR ''/''] else concat (map (\<lambda>c. CHR ''/'' # c) ns))"

text \<open>What one name does to the names before it, and a whole path.\<close>

definition push_name :: "string list \<Rightarrow> string \<Rightarrow> string list option" where
  "push_name ns c =
     (if c = ''.'' then Some ns
      else if c = ''..'' then Some (butlast ns)
      else if length c > VFS_NAME_MAX \<or> length (render ns) + 1 + length c > VFS_PATH_MAX then None
      else Some (ns @ [c]))"

fun norm :: "string list \<Rightarrow> string list \<Rightarrow> string list option" where
  "norm ns [] = Some ns"
| "norm ns (c # cs) = Option.bind (push_name ns c) (\<lambda>ns'. norm ns' cs)"

definition plain :: "string \<Rightarrow> bool" where
  "plain c \<longleftrightarrow> c \<noteq> [] \<and> CHR ''/'' \<notin> set c"

definition proper :: "string \<Rightarrow> bool" where
  "proper c \<longleftrightarrow> plain c \<and> c \<noteq> ''.'' \<and> c \<noteq> ''..'' \<and> length c \<le> VFS_NAME_MAX"

lemma render_simps [simp]: "render [] = [CHR ''/'']" "ns \<noteq> [] \<Longrightarrow> render (ns @ [c]) = render ns @ CHR ''/'' # c"
  "render [c] = CHR ''/'' # c"
  by (simp_all add: render_def)

lemma render_length: "0 < length (render ns)" "list_all plain ns \<Longrightarrow> 1 < length (render ns) \<longleftrightarrow> ns \<noteq> []"
proof -
  show "0 < length (render ns)" by (cases ns) (simp_all add: render_def)
  show "list_all plain ns \<Longrightarrow> 1 < length (render ns) \<longleftrightarrow> ns \<noteq> []"
    by (cases ns; cases "hd ns") (auto simp: render_def plain_def)
qed

lemma strip_name_slash [simp]: "strip_name (xs @ [CHR ''/'']) = xs @ [CHR ''/'']" "strip_name [x] = [x]"
  by (subst strip_name.simps, simp)+

lemma strip_name_plain: "CHR ''/'' \<notin> set c \<Longrightarrow> xs \<noteq> [] \<Longrightarrow> strip_name (xs @ c) = strip_name xs"
proof (induction c rule: rev_induct)
  case (snoc x c)
  have "strip_name (xs @ c @ [x]) = strip_name (xs @ c)"
    using snoc.prems by (subst strip_name.simps) (auto simp: butlast_append Suc_lessI)
  with snoc show ?case by simp
qed simp

text \<open>Going up a directory in the buffer is dropping the last name.\<close>

lemma strip_render:
  assumes "list_all plain ns"
  shows "(let o1 = strip_name (render ns) in if length o1 > 1 then butlast o1 else o1) = render (butlast ns)"
proof (cases ns rule: rev_cases)
  case (snoc ms c)
  then have c: "CHR ''/'' \<notin> set c" using assms by (simp add: plain_def)
  show ?thesis
  proof (cases "ms = []")
    case True
    then have "strip_name (render ns) = [CHR ''/'']" using snoc strip_name_plain [OF c, of "[CHR ''/'']"] by simp
    with snoc True show ?thesis by simp
  next
    case False
    then have "strip_name (render ns) = render ms @ [CHR ''/'']"
      using snoc strip_name_plain [OF c, of "render ms @ [CHR ''/'']"] by simp
    with snoc False render_length(1) [of ms] show ?thesis by (simp add: butlast_append)
  qed
qed simp

lemma plain_takeWhile: "q \<noteq> [] \<Longrightarrow> hd q \<noteq> CHR ''/'' \<Longrightarrow> plain (takeWhile (\<lambda>c. c \<noteq> CHR ''/'') q)"
  by (cases q) (auto simp: plain_def dest: set_takeWhileD)

lemma dot_names: "length c = Suc 0 \<and> c ! 0 = CHR ''.'' \<longleftrightarrow> c = ''.''"
  "length c = 2 \<and> c ! 0 = CHR ''.'' \<and> c ! Suc 0 = CHR ''.'' \<longleftrightarrow> c = ''..''"
  by (auto simp: length_Suc_conv numeral_2_eq_2)

lemma push_name_plain: "push_name ns c = Some ns' \<Longrightarrow> list_all plain ns \<Longrightarrow> plain c \<Longrightarrow> list_all plain ns'"
  by (auto simp: push_name_def list_all_iff split: if_splits dest: in_set_butlastD)

lemma clean_loop_norm:
  assumes "list_all plain ns"
  shows "clean_loop p (render ns) = (case norm ns (comps p) of None \<Rightarrow> Inl ENAMETOOLONG | Some ns' \<Rightarrow> Inr (render ns'))"
  using assms
proof (induction "length p" arbitrary: p ns rule: less_induct)
  case less
  define q where "q = dropWhile (\<lambda>c. c = CHR ''/'') p"
  define c where "c = takeWhile (\<lambda>c. c \<noteq> CHR ''/'') q"
  define p' where "p' = dropWhile (\<lambda>c. c \<noteq> CHR ''/'') q"
  show ?case
  proof (cases "q = []")
    case True
    then have cp: "comps p = []" by (subst comps.simps) (simp only: Let_def q_def [symmetric] if_True refl)
    have nil: "clean_loop [] (render ns) = Inr (render ns)" by (subst clean_loop.simps) simp
    show ?thesis
      using True by (subst clean_loop.simps) (simp add: cp nil q_def [symmetric] del: dropWhile_eq_Nil_conv)
  next
    case False
    then have p: "p \<noteq> []" unfolding q_def by (metis dropWhile.simps(1))
    have "hd q \<noteq> CHR ''/''" using hd_dropWhile [of "\<lambda>c. c = CHR ''/''" p] False by (simp add: q_def)
    then have pl: "plain c" unfolding c_def by (rule plain_takeWhile [OF False])
    have cp: "comps p = c # comps p'" using False by (subst comps.simps) (simp only: Let_def q_def [symmetric] if_False c_def p'_def)
    have len: "length p' < length p" unfolding p'_def q_def by (rule dropWhile_rest [OF p])
    have n0: "length c \<noteq> 0" using pl by (simp add: plain_def)
    have eq: "clean_loop p (render ns) =
      (if c = ''.'' then clean_loop p' (render ns)
       else if c = ''..'' then clean_loop p' (render (butlast ns))
       else if length c > VFS_NAME_MAX \<or> length (render ns) + 1 + length c > VFS_PATH_MAX then Inl ENAMETOOLONG
       else clean_loop p' (render (ns @ [c])))"
      using p n0 strip_render [OF less.prems] render_length(2) [OF less.prems]
      by (subst clean_loop.simps)
         (cases "ns = []"; simp add: q_def [symmetric] c_def [symmetric] p'_def [symmetric] Let_def dot_names)
    show ?thesis
    proof (cases "push_name ns c")
      case None
      then show ?thesis unfolding eq cp by (auto simp: push_name_def split: if_splits)
    next
      case (Some ns')
      then have "clean_loop p (render ns) = clean_loop p' (render ns')"
        unfolding eq by (auto simp: push_name_def split: if_splits)
      with less.hyps [OF len push_name_plain [OF Some less.prems pl]] Some show ?thesis by (simp add: cp)
    qed
  qed
qed

section \<open>Clean paths are canonical\<close>

lemma comps_render: "list_all plain ns \<Longrightarrow> comps (render ns) = ns"
proof (cases "ns = []")
  case True
  then show ?thesis by (subst comps.simps) simp
next
  case False
  assume "list_all plain ns"
  with False show ?thesis
  proof (induction ns)
    case (Cons c cs)
    then obtain x xs where c: "c = x # xs" "x \<noteq> CHR ''/''" "CHR ''/'' \<notin> set xs"
      by (cases c) (auto simp: plain_def)
    have r: "render (c # cs) = CHR ''/'' # c @ (if cs = [] then [] else render cs)" by (simp add: render_def)
    have t: "takeWhile (\<lambda>c. c \<noteq> CHR ''/'') (c @ (if cs = [] then [] else render cs)) = c"
      "dropWhile (\<lambda>c. c \<noteq> CHR ''/'') (c @ (if cs = [] then [] else render cs)) = (if cs = [] then [] else render cs)"
      using c by (cases cs; auto simp: render_def takeWhile_append dropWhile_append)+
    have d: "dropWhile (\<lambda>c. c = CHR ''/'') (render (c # cs)) = c @ (if cs = [] then [] else render cs)"
      unfolding r using c by simp
    have nil: "comps [] = []" by (subst comps.simps) simp
    have "comps (render (c # cs)) = c # comps (if cs = [] then [] else render cs)"
    proof (subst comps.simps, unfold Let_def d t)
      show "(if c @ (if cs = [] then [] else render cs) = [] then [] else c # comps (if cs = [] then [] else render cs))
        = c # comps (if cs = [] then [] else render cs)" using c by simp
    qed
    with Cons nil show ?case by auto
  qed simp
qed

lemma render_append: "render (ns @ [c]) = (if ns = [] then [] else render ns) @ CHR ''/'' # c"
  by (simp add: render_def)

lemma render_prefix_length: "length (if as = [] then [] else render as) \<le> length (render (as @ bs))"
  by (simp add: render_def)

lemma norm_proper: "norm ns cs = Some ns' \<Longrightarrow> list_all plain cs \<Longrightarrow> list_all proper ns \<Longrightarrow> length (render ns) \<le> VFS_PATH_MAX \<Longrightarrow>
   list_all proper ns' \<and> length (render ns') \<le> VFS_PATH_MAX"
proof (induction cs arbitrary: ns)
  case (Cons c cs)
  then obtain ns1 where ns1: "push_name ns c = Some ns1" "norm ns1 cs = Some ns'" by (auto split: Option.bind_splits)
  have b: "length (render (butlast ns)) \<le> length (render ns)"
  proof (cases ns rule: rev_cases)
    case (snoc ys y)
    then show ?thesis using render_length(1) [of ns] by (cases "ys = []") auto
  qed simp
  have "list_all proper ns1 \<and> length (render ns1) \<le> VFS_PATH_MAX"
    using ns1(1) Cons.prems(2-4) b
    by (auto simp: push_name_def list_all_iff proper_def render_append split: if_splits dest: in_set_butlastD)
  with Cons.IH [OF ns1(2)] Cons.prems(2) show ?case by simp
qed simp

lemma norm_proper_id:
  assumes "list_all proper (ns @ cs)" and "length (render (ns @ cs)) \<le> VFS_PATH_MAX"
  shows "norm ns cs = Some (ns @ cs)"
  using assms
proof (induction cs arbitrary: ns)
  case (Cons c cs)
  have c: "proper c" using Cons.prems by simp
  have "length (render ns) + 1 + length c \<le> VFS_PATH_MAX"
  proof (cases "ns = []")
    case True
    with c show ?thesis by (simp add: proper_def VFS_NAME_MAX_def VFS_PATH_MAX_def)
  next
    case False
    then show ?thesis
      using render_prefix_length [of "ns @ [c]" cs] Cons.prems(2) by (simp add: render_append)
  qed
  then have "push_name ns c = Some (ns @ [c])" using c by (auto simp: push_name_def proper_def)
  with Cons.IH [of "ns @ [c]"] Cons.prems show ?case by simp
qed simp

lemma comps_plain: "list_all plain (comps p)"
proof (induction p rule: comps.induct)
  case (1 p)
  show ?case
  proof (cases "dropWhile (\<lambda>c. c = CHR ''/'') p = []")
    case True
    then show ?thesis by (subst comps.simps) (simp only: Let_def if_True refl list.pred_inject)
  next
    case False
    have "plain (takeWhile (\<lambda>c. c \<noteq> CHR ''/'') (dropWhile (\<lambda>c. c = CHR ''/'') p))"
      using hd_dropWhile [OF False] by (intro plain_takeWhile [OF False]) simp
    with 1 [OF refl False] False show ?thesis by (subst comps.simps) (simp only: Let_def if_False list.pred_inject simp_thms)
  qed
qed

lemma clean_path_eq:
  "vfs_clean_path path =
     (if path = [] \<or> hd path \<noteq> CHR ''/'' then Inl EINVAL
      else case norm [] (comps path) of None \<Rightarrow> Inl ENAMETOOLONG | Some ns \<Rightarrow> Inr (render ns))"
  using clean_loop_norm [of "[]" path] by (cases path) (auto simp: vfs_clean_path_def)

lemma clean_path_canonical:
  assumes "vfs_clean_path path = Inr out"
  obtains ns where "norm [] (comps path) = Some ns" "out = render ns" "list_all proper ns" "length out \<le> VFS_PATH_MAX"
    "comps out = ns" "vfs_clean_path out = Inr out"
proof -
  obtain ns where ns: "norm [] (comps path) = Some ns" "out = render ns"
    using assms by (auto simp: clean_path_eq split: if_splits option.splits)
  have p: "list_all proper ns" "length out \<le> VFS_PATH_MAX"
    using norm_proper [OF ns(1) comps_plain] ns(2) by (simp_all add: VFS_PATH_MAX_def)
  then have pl: "list_all plain ns" by (auto simp: list_all_iff proper_def)
  have "hd out = CHR ''/''" "out \<noteq> []" using ns(2) by (cases ns; simp add: render_def)+
  then have "vfs_clean_path out = Inr out"
    using norm_proper_id [of "[]" ns] p ns(2) comps_render [OF pl] by (simp add: clean_path_eq)
  with that ns p comps_render [OF pl] show thesis by simp
qed

section \<open>References\<close>

text \<open>How often a location holds a vnode.\<close>

definition held :: "location \<Rightarrow> vnode \<Rightarrow> u32" where
  "held loc v = of_nat (length (filter (\<lambda>(u, l). u = v) loc))"

lemma held_simps [simp]: "held [] v = 0" "held ((u, l) # loc) v = (if u = v then 1 else 0) + held loc v"
  by (simp_all add: held_def)

lemma location_copy_refs: "refs (fold (\<lambda>(v, l). vnode_ref v) loc st) u = refs st u + held loc u"
  by (induction loc arbitrary: st) (auto simp: refs_vnode_ref add.assoc)

lemma location_release_refs: "refs (fold (\<lambda>(v, l). vnode_unref vs v) loc st) u = refs st u - held loc u"
  by (induction loc arbitrary: st) (auto simp: refs_vnode_unref)

text \<open>What a path resolves to, name by name.\<close>

fun found :: "vnodes \<Rightarrow> location \<Rightarrow> string \<Rightarrow> errno \<Rightarrow> vnode result" where
  "found vs [] name rc = Inl rc"
| "found vs ((v, l) # loc) name rc = (case v_walk vs v of
      None \<Rightarrow> found vs loc name rc
    | Some w \<Rightarrow> if v_type vs v \<noteq> VNODE_DIR then found vs loc name rc
        else case w name of Inr u \<Rightarrow> Inr u | Inl r \<Rightarrow> found vs loc name r)"

definition mounted :: "namespace \<Rightarrow> string \<Rightarrow> location \<Rightarrow> location" where
  "mounted ns path loc = (case find_mount (ns_mounts ns) path of None \<Rightarrow> loc | Some m \<Rightarrow> m)"

fun resolve_names :: "vnodes \<Rightarrow> namespace \<Rightarrow> string \<Rightarrow> location \<Rightarrow> string list \<Rightarrow> location result" where
  "resolve_names vs ns prefix loc [] = Inr loc"
| "resolve_names vs ns prefix loc (c # cs) = (case found vs loc c ENOTDIR of
      Inl e \<Rightarrow> Inl e
    | Inr v \<Rightarrow> let prefix' = prefix @ CHR ''/'' # c
               in resolve_names vs ns prefix' (mounted ns prefix' [(v, set_label prefix')]) cs)"

lemma walk_members_found:
  "\<exists>st'. walk_members vs loc name rc st = (found vs loc name rc, st')
    \<and> (\<forall>u. refs st' u = refs st u + (if found vs loc name rc = Inr u then 1 else 0))"
proof (induction loc arbitrary: rc)
  case (Cons m loc)
  obtain v l where m: "m = (v, l)" by (cases m)
  show ?case
  proof (cases "v_walk vs v")
    case None
    with m Cons show ?thesis by simp
  next
    case (Some w)
    with m Cons show ?thesis by (cases "w name") (auto simp: refs_vnode_ref)
  qed
qed simp

lemma apply_mount_refs:
  "fst (apply_mount vs ns path loc st) = mounted ns path loc"
  "refs (snd (apply_mount vs ns path loc st)) u = refs st u - held loc u + held (mounted ns path loc) u"
  by (simp_all add: apply_mount_def mounted_def location_copy_def location_release_def location_copy_refs location_release_refs
      split: option.split)

definition result_held :: "location result \<Rightarrow> vnode \<Rightarrow> u32" where
  "result_held res u = (case res of Inl e \<Rightarrow> 0 | Inr loc \<Rightarrow> held loc u)"

text \<open>The text left of a clean path with the names \<open>cs\<close> to go.\<close>

definition text_left :: "string list \<Rightarrow> string" where
  "text_left cs = drop 1 (concat (map (\<lambda>c. CHR ''/'' # c) cs))"

lemma text_left_Cons:
  assumes "plain c"
  shows "text_left (c # cs) \<noteq> []" "takeWhile (\<lambda>c. c \<noteq> CHR ''/'') (text_left (c # cs)) = c"
    "(let p' = dropWhile (\<lambda>c. c \<noteq> CHR ''/'') (text_left (c # cs)) in if p' \<noteq> [] then tl p' else p') = text_left cs"
  using assms by (cases cs; auto simp: text_left_def plain_def takeWhile_append dropWhile_append)+

lemma resolve_loop_names:
  assumes "list_all plain cs"
  shows "\<exists>st'. resolve_loop vs ns (text_left cs) prefix loc st = (resolve_names vs ns prefix loc cs, st')
    \<and> (\<forall>u. refs st' u = refs st u - held loc u + result_held (resolve_names vs ns prefix loc cs) u)"
  using assms
proof (induction cs arbitrary: prefix loc st)
  case Nil
  then show ?case by (subst resolve_loop.simps) (simp add: text_left_def result_held_def)
next
  case (Cons c cs)
  have c: "plain c" using Cons.prems by simp
  obtain st1 where w: "walk_location vs loc c st = (found vs loc c ENOTDIR, st1)"
    "\<And>u. refs st1 u = refs st u + (if found vs loc c ENOTDIR = Inr u then 1 else 0)"
    using walk_members_found [of vs loc c ENOTDIR st] by (auto simp: walk_location_def)
  define st2 where "st2 = snd (location_release vs loc st1)"
  have st2: "refs st2 u = refs st u + (if found vs loc c ENOTDIR = Inr u then 1 else 0) - held loc u" for u
    by (simp add: st2_def location_release_def location_release_refs w(2))
  show ?case
  proof (cases "found vs loc c ENOTDIR")
    case (Inl e)
    then have "resolve_loop vs ns (text_left (c # cs)) prefix loc st = (Inl e, st2)"
      using text_left_Cons [OF c, of cs] w(1) by (subst resolve_loop.simps) (simp add: st2_def Let_def)
    with Inl st2 show ?thesis by (simp add: result_held_def)
  next
    case (Inr v)
    let ?p = "prefix @ CHR ''/'' # c"
    define am where "am = apply_mount vs ns ?p [(v, set_label ?p)] st2"
    have am: "fst am = mounted ns ?p [(v, set_label ?p)]"
      "refs (snd am) u = refs st2 u - (if v = u then 1 else 0) + held (mounted ns ?p [(v, set_label ?p)]) u" for u
      unfolding am_def by (simp_all add: apply_mount_refs)
    have step: "resolve_loop vs ns (text_left (c # cs)) prefix loc st = resolve_loop vs ns (text_left cs) ?p (fst am) (snd am)"
      using text_left_Cons [OF c, of cs] w(1) Inr
      by (subst resolve_loop.simps) (simp add: st2_def [symmetric] am_def [symmetric] Let_def split_beta)
    obtain st' where "resolve_loop vs ns (text_left cs) ?p (fst am) (snd am) = (resolve_names vs ns ?p (fst am) cs, st')"
      "\<And>u. refs st' u = refs (snd am) u - held (fst am) u + result_held (resolve_names vs ns ?p (fst am) cs) u"
      using Cons.IH [of ?p "fst am" "snd am"] Cons.prems by auto
    with step Inr am st2 show ?thesis by (simp add: am(1) Let_def)
  qed
qed

lemma ns_resolve_names:
  assumes "vfs_clean_path path = Inr clean"
  shows "\<exists>st'. ns_resolve vs ns path st =
      (case resolve_names vs ns [] (mounted ns [CHR ''/''] [(ns_root ns, [CHR ''/''])]) (comps clean) of
         Inl e \<Rightarrow> Inl e | Inr loc \<Rightarrow> Inr (loc, clean), st')
    \<and> (\<forall>u. refs st' u = refs st u
          + result_held (resolve_names vs ns [] (mounted ns [CHR ''/''] [(ns_root ns, [CHR ''/''])]) (comps clean)) u)"
proof -
  obtain names where names: "clean = render names" "list_all proper names" "length clean \<le> VFS_PATH_MAX" "comps clean = names"
    by (rule clean_path_canonical [OF assms]) (metis that)
  then have pl: "list_all plain names" and left: "drop 1 clean = text_left names"
    by (auto simp: list_all_iff proper_def render_def text_left_def)
  define am where "am = apply_mount vs ns [CHR ''/''] [(ns_root ns, set_label [CHR ''/''])] (vnode_ref (ns_root ns) st)"
  have l: "set_label [CHR ''/''] = [CHR ''/'']" by (simp add: set_label_def LOCATION_LABEL_MAX_def)
  have am: "fst am = mounted ns [CHR ''/''] [(ns_root ns, [CHR ''/''])]"
    "refs (snd am) u = refs st u + held (fst am) u" for u
    unfolding am_def by (simp_all add: apply_mount_refs refs_vnode_ref l)
  obtain st' where "resolve_loop vs ns (text_left names) [] (fst am) (snd am) = (resolve_names vs ns [] (fst am) names, st')"
    "\<And>u. refs st' u = refs (snd am) u - held (fst am) u + result_held (resolve_names vs ns [] (fst am) names) u"
    using resolve_loop_names [OF pl] by blast
  with assms names left am show ?thesis
    by (simp add: ns_resolve_def Let_def am_def [symmetric] split_beta split: sum.split)
qed

section \<open>The mount table as a map\<close>

text \<open>
  An operation on a path: unmount, or mount a location with the outcome of the allocation it needs
  when nothing is mounted there. What each one returns and does to the map of mounts.
\<close>

type_synonym 'l mount_op = "string \<times> (bool \<times> 'l) option"

fun map_step :: "'l mount_op \<Rightarrow> (string \<rightharpoonup> 'l) \<Rightarrow> unit result \<times> (string \<rightharpoonup> 'l)" where
  "map_step (k, None) m = (if m k = None then Inl ENOENT else Inr (), m(k := None))"
| "map_step (k, Some (ok, l)) m = (if ok \<or> m k \<noteq> None then (Inr (), m(k \<mapsto> l)) else (Inl ENOMEM, m))"

fun map_run :: "'l mount_op list \<Rightarrow> (string \<rightharpoonup> 'l) \<Rightarrow> unit result list \<times> (string \<rightharpoonup> 'l)" where
  "map_run [] m = ([], m)"
| "map_run (op # ops) m = (let (r, m1) = map_step op m; (rs, m2) = map_run ops m1 in (r # rs, m2))"

locale mount_map =
  fixes lookup :: "'s \<Rightarrow> string \<Rightarrow> 'l option"
    and step :: "'l mount_op \<Rightarrow> 's \<Rightarrow> unit result \<times> 's"
    and inv :: "'s \<Rightarrow> bool"
    and key :: "string \<Rightarrow> bool"
  assumes step_inv: "inv s \<Longrightarrow> key (fst op) \<Longrightarrow> inv (snd (step op s))"
    and step_lookup: "inv s \<Longrightarrow> key (fst op) \<Longrightarrow>
      (fst (step op s), lookup (snd (step op s))) = map_step op (lookup s)"
begin

fun run :: "'l mount_op list \<Rightarrow> 's \<Rightarrow> unit result list \<times> 's" where
  "run [] s = ([], s)"
| "run (op # ops) s = (let (r, s1) = step op s; (rs, s2) = run ops s1 in (r # rs, s2))"

lemma run_refines:
  "inv s \<Longrightarrow> list_all (key \<circ> fst) ops \<Longrightarrow>
    inv (snd (run ops s)) \<and> (fst (run ops s), lookup (snd (run ops s))) = map_run ops (lookup s)"
proof (induction ops arbitrary: s)
  case (Cons op ops)
  obtain r s1 where st: "step op s = (r, s1)" by (cases "step op s")
  have "inv s1" "map_step op (lookup s) = (r, lookup s1)"
    using step_inv [of s op] step_lookup [of s op] Cons.prems st by auto
  with Cons.IH [of s1] Cons.prems st show ?case
    by (cases "run ops s1"; cases "map_run ops (lookup s1)") auto
qed simp

end

definition table_ok :: "namespace \<Rightarrow> bool" where
  "table_ok ns \<longleftrightarrow> distinct (map fst (ns_mounts ns)) \<and> list_all (\<lambda>(path, loc). length path \<le> VFS_PATH_MAX) (ns_mounts ns)"

definition lookup_mount :: "namespace \<Rightarrow> string \<Rightarrow> location option" where
  "lookup_mount ns = find_mount (ns_mounts ns)"

lemma find_mount_map_of: "find_mount ms = map_of ms"
  by (rule ext, rename_tac p, induct_tac ms) auto

lemma find_mount_append: "find_mount (ms @ [(p, l)]) = (if p \<in> fst ` set ms then find_mount ms else (find_mount ms)(p \<mapsto> l))"
proof (cases "p \<in> fst ` set ms")
  case True
  then obtain l' where "map_of ms p = Some l'" by (metis map_of_eq_None_iff not_Some_eq)
  with True show ?thesis by (auto simp: find_mount_map_of map_add_def fun_eq_iff split: option.split)
next
  case False
  then have "map_of ms p = None" by (simp add: map_of_eq_None_iff)
  with False show ?thesis by (auto simp: find_mount_map_of map_add_def fun_eq_iff split: option.split)
qed

lemma find_mount_None: "find_mount ms p = None \<longleftrightarrow> p \<notin> fst ` set ms"
  by (simp add: find_mount_map_of map_of_eq_None_iff)

lemma replace_mount_keys [simp]: "map fst (replace_mount p l ms) = map fst ms"
  by (induction ms) auto

lemma find_replace_mount: "find_mount ms p \<noteq> None \<Longrightarrow> find_mount (replace_mount p l ms) = (find_mount ms)(p \<mapsto> l)"
  by (induction ms) (auto simp: fun_eq_iff split: if_splits)

lemma delete_mount_keys: "set (map fst (delete_mount p ms)) \<subseteq> set (map fst ms)"
  "distinct (map fst ms) \<Longrightarrow> distinct (map fst (delete_mount p ms))"
proof -
  show sub: "set (map fst (delete_mount p ms)) \<subseteq> set (map fst ms)" for ms
  proof (induction ms)
    case (Cons m ms)
    then show ?case by (cases m; cases "fst m = p") (simp_all add: subset_insertI subset_insertI2)
  qed simp
  show "distinct (map fst ms) \<Longrightarrow> distinct (map fst (delete_mount p ms))"
  proof (induction ms)
    case (Cons m ms)
    with sub [of ms] show ?case by (cases m; cases "fst m = p") (simp_all, blast)
  qed simp
qed

lemma find_delete_mount: "distinct (map fst ms) \<Longrightarrow> find_mount (delete_mount p ms) = (find_mount ms)(p := None)"
proof (induction ms)
  case (Cons m ms)
  obtain q l where m: "m = (q, l)" by (cases m)
  have "q \<notin> fst ` set ms" using Cons.prems m by simp
  then have "find_mount ms q = None" by (simp only: find_mount_None not_False_eq_True)
  with Cons m show ?case by (auto simp: fun_eq_iff)
qed (simp add: fun_eq_iff)

lemma table_ok_keys: "table_ok ns \<longleftrightarrow> distinct (map fst (ns_mounts ns)) \<and> (\<forall>p \<in> set (map fst (ns_mounts ns)). length p \<le> VFS_PATH_MAX)"
  by (auto simp: table_ok_def list_all_iff)

text \<open>The two operations on the table, one argument for both.\<close>

definition mount_step :: "vnodes \<Rightarrow> location mount_op \<Rightarrow> namespace \<times> vstate \<Rightarrow> unit result \<times> namespace \<times> vstate" where
  "mount_step vs op s = (case snd op of
      None \<Rightarrow> ns_remove_mount vs (fst s) (fst op) (snd s)
    | Some (ok, loc) \<Rightarrow> ns_set_mount vs ok (fst s) (fst op) loc (snd s))"

fun mount_run :: "vnodes \<Rightarrow> location mount_op list \<Rightarrow> namespace \<times> vstate \<Rightarrow> unit result list \<times> namespace \<times> vstate" where
  "mount_run vs [] s = ([], s)"
| "mount_run vs (op # ops) s = (let (r, s1) = mount_step vs op s; (rs, s2) = mount_run vs ops s1 in (r # rs, s2))"

lemma set_mount_ok:
  assumes "table_ok ns" "length p \<le> VFS_PATH_MAX"
  shows "table_ok (fst (snd (ns_set_mount vs ok ns p loc st)))"
proof (cases "find_mount (ns_mounts ns) p")
  case None
  with assms find_mount_None [of "ns_mounts ns" p] show ?thesis by (simp add: ns_set_mount_def table_ok_keys)
next
  case (Some a)
  then have "map fst (ns_mounts (fst (snd (ns_set_mount vs ok ns p loc st)))) = map fst (ns_mounts ns)"
    by (simp add: ns_set_mount_def)
  with assms show ?thesis by (metis table_ok_keys)
qed

lemma set_mount_lookup:
  assumes "length p \<le> VFS_PATH_MAX"
  shows "(fst (ns_set_mount vs ok ns p loc st), lookup_mount (fst (snd (ns_set_mount vs ok ns p loc st))))
    = map_step (p, Some (ok, loc)) (lookup_mount ns)"
  using assms find_mount_None [of "ns_mounts ns" p]
  by (cases "find_mount (ns_mounts ns) p")
    (simp_all add: ns_set_mount_def lookup_mount_def find_mount_append find_replace_mount)

lemma remove_mount_ok:
  assumes "table_ok ns"
  shows "table_ok (fst (snd (ns_remove_mount vs ns p st)))"
proof (cases "find_mount (ns_mounts ns) p")
  case None
  with assms show ?thesis by (simp add: ns_remove_mount_def)
next
  case (Some a)
  then have "ns_mounts (fst (snd (ns_remove_mount vs ns p st))) = delete_mount p (ns_mounts ns)"
    by (simp add: ns_remove_mount_def)
  with assms show ?thesis
    using delete_mount_keys(1) [of p "ns_mounts ns"] delete_mount_keys(2) [of "ns_mounts ns" p]
    unfolding table_ok_keys by (simp only:) blast
qed

lemma remove_mount_lookup:
  assumes "table_ok ns"
  shows "(fst (ns_remove_mount vs ns p st), lookup_mount (fst (snd (ns_remove_mount vs ns p st)))) = map_step (p, None) (lookup_mount ns)"
  using assms find_delete_mount [of "ns_mounts ns" p]
  by (cases "find_mount (ns_mounts ns) p")
    (simp_all add: ns_remove_mount_def lookup_mount_def table_ok_def fun_eq_iff)

interpretation mtab: mount_map "lookup_mount \<circ> fst" "mount_step vs" "table_ok \<circ> fst" "\<lambda>path. length path \<le> VFS_PATH_MAX"
  for vs
proof unfold_locales
  fix s :: "namespace \<times> vstate" and op :: "location mount_op"
  assume ok: "(table_ok \<circ> fst) s" and k: "length (fst op) \<le> VFS_PATH_MAX"
  obtain p l where op: "op = (p, l)" by (cases op)
  show "(table_ok \<circ> fst) (snd (mount_step vs op s))"
    using ok k op by (cases l) (auto simp: mount_step_def set_mount_ok remove_mount_ok)
  show "(fst (mount_step vs op s), (lookup_mount \<circ> fst) (snd (mount_step vs op s))) = map_step op ((lookup_mount \<circ> fst) s)"
    using ok k op by (cases l) (auto simp: mount_step_def set_mount_lookup remove_mount_lookup)
qed

lemma mount_run_eq: "mtab.run vs ops s = mount_run vs ops s"
  by (induction ops arbitrary: s) (simp_all split: prod.split)

section \<open>References of a mount table\<close>

fun table_held :: "(string \<times> location) list \<Rightarrow> vnode \<Rightarrow> u32" where
  "table_held [] u = 0"
| "table_held ((path, loc) # ms) u = held loc u + table_held ms u"

lemma table_held_append [simp]: "table_held (ms @ ns) u = table_held ms u + table_held ns u"
  by (induction ms) (auto simp: add.assoc)

lemma table_held_replace: "find_mount ms p = Some old \<Longrightarrow> table_held (replace_mount p l ms) u = table_held ms u - held old u + held l u"
  by (induction ms) (auto split: if_splits)

lemma table_held_delete: "find_mount ms p = Some old \<Longrightarrow> table_held (delete_mount p ms) u = table_held ms u - held old u"
  by (induction ms) (auto split: if_splits)

lemma release_refs [simp]: "refs (snd (location_release vs loc st)) u = refs st u - held loc u"
  by (simp add: location_release_def location_release_refs)

lemma release_table_refs: "refs (fold (\<lambda>(path, loc) st. snd (location_release vs loc st)) ms st) u = refs st u - table_held ms u"
  by (induction ms arbitrary: st) (auto simp: diff_diff_eq)

lemma ns_unref_last_refs:
  "ns_refs ns = 1 \<Longrightarrow> fst (ns_unref vs (Some ns) st) = None
    \<and> refs (snd (ns_unref vs (Some ns) st)) u = refs st u - table_held (ns_mounts ns) u - (if u = ns_root ns then 1 else 0)"
  by (simp add: ns_unref_def refs_vnode_unref release_table_refs)

lemma fork_mounts_refs:
  assumes "fork_mounts vs alloc ms ns st = (res, st')" "ns_refs ns = 1" "list_all (\<lambda>(path, loc). length path \<le> VFS_PATH_MAX) ms"
  shows "(case res of
      None \<Rightarrow> \<not> (length ms \<le> length alloc \<and> list_all (\<lambda>b. b) (take (length ms) alloc)) \<and>
        (\<forall>u. refs st' u = refs st u - table_held (ns_mounts ns) u - (if u = ns_root ns then 1 else 0))
    | Some new \<Rightarrow> length ms \<le> length alloc \<and> list_all (\<lambda>b. b) (take (length ms) alloc) \<and> new = ns\<lparr>ns_mounts := ns_mounts ns @ ms\<rparr> \<and>
        (\<forall>u. refs st' u = refs st u + table_held ms u))"
  using assms
proof (induction ms arbitrary: alloc ns st)
  case (Cons m ms)
  obtain path loc where m: "m = (path, loc)" by (cases m)
  show ?case
  proof (cases alloc)
    case Nil
    with Cons.prems m ns_unref_last_refs [of ns vs st] show ?thesis by auto
  next
    case (Cons b alloc')
    show ?thesis
    proof (cases b)
      case True
      with Cons Cons.prems m Cons.IH [of alloc' "ns\<lparr>ns_mounts := ns_mounts ns @ [(path, loc)]\<rparr>" "fold (\<lambda>(v, l). vnode_ref v) loc st"]
      show ?thesis by (cases res) (simp_all add: location_copy_def location_copy_refs del: fold_simps)
    next
      case False
      with Cons Cons.prems m ns_unref_last_refs [of ns vs st] show ?thesis by auto
    qed
  qed
qed auto

definition op_held :: "location mount_op \<Rightarrow> vnode \<Rightarrow> u32" where
  "op_held op u = (case snd op of None \<Rightarrow> 0 | Some (ok, loc) \<Rightarrow> held loc u)"

lemma mount_step_refs:
  assumes "mount_step vs op (ns, st) = (r, ns', st')"
  shows "refs st' u - table_held (ns_mounts ns') u = refs st u - table_held (ns_mounts ns) u - op_held op u"
    and "ns_root ns' = ns_root ns" and "ns_refs ns' = ns_refs ns"
proof -
  obtain p l where op: "op = (p, l)" by (cases op)
  show "refs st' u - table_held (ns_mounts ns') u = refs st u - table_held (ns_mounts ns) u - op_held op u"
    using assms op
    by (cases "find_mount (ns_mounts ns) p"; cases l)
      (auto simp: mount_step_def ns_set_mount_def ns_remove_mount_def op_held_def table_held_replace table_held_delete
        split: if_splits)
  show "ns_root ns' = ns_root ns" "ns_refs ns' = ns_refs ns"
    using assms op by (auto simp: mount_step_def ns_set_mount_def ns_remove_mount_def split: if_splits option.splits)
qed

lemma mount_run_refs:
  "mount_run vs ops (ns, st) = (rs, ns', st') \<Longrightarrow>
    refs st' u - table_held (ns_mounts ns') u = refs st u - table_held (ns_mounts ns) u - (\<Sum>op\<leftarrow>ops. op_held op u)"
proof (induction ops arbitrary: ns st rs ns' st')
  case (Cons op ops)
  obtain r ns1 st1 where 1: "mount_step vs op (ns, st) = (r, ns1, st1)" by (metis prod_cases3)
  obtain rs1 ns2 st2 where 2: "mount_run vs ops (ns1, st1) = (rs1, ns2, st2)" by (metis prod_cases3)
  have "ns2 = ns'" "st2 = st'" using Cons.prems 1 2 by auto
  with Cons.IH [OF 2] mount_step_refs(1) [OF 1, of u] show ?case by (simp add: diff_diff_eq)
qed simp

section \<open>Correctness\<close>

text \<open>C18: Cleaning a path is lexical normalisation. A path that does not start with a slash is
  refused with EINVAL. Otherwise the names are taken in turn: empty names and "." change nothing,
  ".." drops the last name if there is one, any other is added, and a name or a result too long for
  its buffer is refused with ENAMETOOLONG. A result is canonical: slash-separated proper names (no
  empty name, "." or ".."; at most 63 characters) within 255 characters, and cleaning it again
  changes nothing.\<close>

theorem clean_path_correct:
  "vfs_clean_path path =
     (if path = [] \<or> hd path \<noteq> CHR ''/'' then Inl EINVAL
      else case norm [] (comps path) of None \<Rightarrow> Inl ENAMETOOLONG | Some ns \<Rightarrow> Inr (render ns)) \<and>
   (case vfs_clean_path path of
      Inl e \<Rightarrow> e \<in> {EINVAL, ENAMETOOLONG}
    | Inr out \<Rightarrow> list_all proper (comps out) \<and> out = render (comps out) \<and> length out \<le> VFS_PATH_MAX \<and>
        vfs_clean_path out = Inr out)"
proof (intro conjI)
  show "case vfs_clean_path path of Inl e \<Rightarrow> e \<in> {EINVAL, ENAMETOOLONG}
    | Inr out \<Rightarrow> list_all proper (comps out) \<and> out = render (comps out) \<and> length out \<le> VFS_PATH_MAX \<and> vfs_clean_path out = Inr out"
  proof (cases "vfs_clean_path path")
    case (Inl e)
    then show ?thesis by (auto simp: clean_path_eq split: if_splits option.splits)
  next
    case (Inr out)
    show ?thesis by (rule clean_path_canonical [OF Inr]) (simp add: Inr)
  qed
qed (rule clean_path_eq)

theorem clean_path_correct_witness:
  "norm [] (comps ''/usr/../bin//./sh'') = Some [''bin'', ''sh''] \<and> vfs_clean_path ''/usr/../bin//./sh'' = Inr ''/bin/sh'' \<and>
   vfs_clean_path ''/bin/sh'' = Inr ''/bin/sh'' \<and> vfs_clean_path ''bin'' = Inl EINVAL"
proof -
  have n: "norm [] (comps ''/usr/../bin//./sh'') = Some [''bin'', ''sh'']" by code_simp
  show ?thesis
    using clean_path_correct [of "''/usr/../bin//./sh''"] clean_path_correct [of "''bin''"]
    by (auto simp: n render_def)
qed

text \<open>C10: Resolving a path walks the names of its clean form from the root. At every prefix, the
  root included, what is mounted there replaces what was found; a name is looked up in the members
  of a union in order, the first directory that has it wins, and the error of the last one tried is
  returned when none has. The walks take and drop references so that on success the caller holds
  exactly one for each member of the location, and on failure none, whatever was mounted on the way.\<close>

theorem ns_resolve_correct:
  assumes "ns_resolve vs ns path st = (res, st')"
  shows "res = (case vfs_clean_path path of
      Inl e \<Rightarrow> Inl e
    | Inr clean \<Rightarrow> (case resolve_names vs ns [] (mounted ns ''/'' [(ns_root ns, ''/'')]) (comps clean) of
          Inl e \<Rightarrow> Inl e | Inr loc \<Rightarrow> Inr (loc, clean))) \<and>
    (\<forall>u. refs st' u = refs st u + (case res of Inl e \<Rightarrow> 0 | Inr (loc, canon) \<Rightarrow> held loc u))"
proof (cases "vfs_clean_path path")
  case (Inl e)
  with assms show ?thesis by (auto simp: ns_resolve_def)
next
  case (Inr clean)
  with assms ns_resolve_names [OF Inr, of vs ns st] show ?thesis by (auto simp: result_held_def split: sum.split)
qed

text \<open>A small tree: the root 0 holds the directories bin (1) and tmp (2), bin holds sh (3); the
  directory 4 holds ls (5) and is mounted in front of bin.\<close>

definition tree_walk :: "vnode \<Rightarrow> string \<Rightarrow> vnode result" where
  "tree_walk v name =
     (if v = 0 \<and> name = ''bin'' then Inr 1 else if v = 0 \<and> name = ''tmp'' then Inr 2
      else if v = 1 \<and> name = ''sh'' then Inr 3 else if v = 4 \<and> name = ''ls'' then Inr 5 else Inl ENOENT)"

definition tree :: vnodes where
  "tree = \<lparr>v_type = (\<lambda>v. if v \<in> {3, 5} then VNODE_FILE else VNODE_DIR),
           v_walk = (\<lambda>v. Some (tree_walk v)), v_has_release = (\<lambda>v. True)\<rparr>"

definition tree_ns :: namespace where
  "tree_ns = \<lparr>ns_refs = 1, ns_root = 0, ns_mounts = [(''/bin'', [(4, ''/usr''), (1, ''/bin'')])]\<rparr>"

definition tree_refs :: vstate where
  "tree_refs = \<lparr>refs = (\<lambda>v. 1), released = []\<rparr>"

theorem ns_resolve_correct_witness:
  "fst (ns_resolve tree tree_ns ''//tmp/../bin/./sh'' tree_refs) = Inr ([(3, ''/bin/sh'')], ''/bin/sh'') \<and>
   refs (snd (ns_resolve tree tree_ns ''//tmp/../bin/./sh'' tree_refs)) 3 = 2 \<and>
   refs (snd (ns_resolve tree tree_ns ''//tmp/../bin/./sh'' tree_refs)) 4 = 1"
proof -
  have e: "fst (ns_resolve tree tree_ns ''//tmp/../bin/./sh'' tree_refs) = Inr ([(3, ''/bin/sh'')], ''/bin/sh'')" by code_simp
  have "refs (snd (ns_resolve tree tree_ns ''//tmp/../bin/./sh'' tree_refs)) u = 1 + held [(3, ''/bin/sh'')] u" for u
    using ns_resolve_correct [of tree tree_ns "''//tmp/../bin/./sh''" tree_refs, OF prod.collapse [symmetric]] unfolding e
    by (simp add: tree_refs_def)
  with e show ?thesis by simp
qed

text \<open>C20: The mount table is a map from clean paths to locations. Any sequence of mounts and
  unmounts returns and leaves what the same operations on a map do, the failing ones included
  (ENOENT for a path with no mount, ENOMEM when a new entry finds no memory), the paths stay
  distinct, and the references are conserved: what a mount is given ends up in the table or is
  released, and what the table loses is released.\<close>

theorem mount_table_correct:
  assumes "table_ok ns" and "list_all (\<lambda>op. length (fst op) \<le> VFS_PATH_MAX) ops"
    and "mount_run vs ops (ns, st) = (rs, ns', st')"
  shows "table_ok ns' \<and> (rs, lookup_mount ns') = map_run ops (lookup_mount ns) \<and>
    refs st' u - table_held (ns_mounts ns') u = refs st u - table_held (ns_mounts ns) u - (\<Sum>op\<leftarrow>ops. op_held op u)"
proof -
  have "list_all ((\<lambda>path. length path \<le> VFS_PATH_MAX) \<circ> fst) ops" using assms(2) by (simp add: comp_def)
  with mtab.run_refines [of "(ns, st)" ops vs] assms mount_run_refs [OF assms(3), of u]
  show ?thesis by (simp add: mount_run_eq)
qed

theorem mount_table_correct_witness:
  "fst (mount_run tree [(''/tmp'', Some (True, [(5, ''/x'')])), (''/usr'', Some (False, [(5, ''/x'')])), (''/bin'', None), (''/bin'', None)]
      (tree_ns, tree_refs)) = [Inr (), Inl ENOMEM, Inr (), Inl ENOENT] \<and>
   lookup_mount (fst (snd (mount_run tree
     [(''/tmp'', Some (True, [(5, ''/x'')])), (''/usr'', Some (False, [(5, ''/x'')])), (''/bin'', None), (''/bin'', None)]
     (tree_ns, tree_refs)))) ''/tmp'' = Some [(5, ''/x'')]"
  (is "fst (mount_run tree ?ops _) = _ \<and> _")
proof -
  have 1: "table_ok tree_ns" by code_simp
  have 2: "list_all (\<lambda>op. length (fst op) \<le> VFS_PATH_MAX) ?ops" by code_simp
  obtain rs ns' st' where 3: "mount_run tree ?ops (tree_ns, tree_refs) = (rs, ns', st')" by (metis prod_cases3)
  show ?thesis
    using mount_table_correct [OF 1 2 3] unfolding 3 by (simp add: tree_ns_def lookup_mount_def)
qed

text \<open>C32: A fork of a namespace is a private copy with its own references: when every allocation
  succeeds it has the same mounts in the same order and one reference for each member and for the
  root, and the last unref gives all of them back. When an allocation fails nothing is kept: the
  caller gets no namespace and every reference taken so far is given back.\<close>

theorem ns_fork_correct:
  assumes "table_ok src" and "ns_fork vs ok alloc src st = (res, st')"
  shows "case res of
      None \<Rightarrow> \<not> (ok \<and> length (ns_mounts src) \<le> length alloc \<and> list_all (\<lambda>b. b) (take (length (ns_mounts src)) alloc)) \<and>
        refs st' = refs st
    | Some new \<Rightarrow> ns_refs new = 1 \<and> ns_root new = ns_root src \<and> ns_mounts new = ns_mounts src \<and>
        (\<forall>u. refs st' u = refs st u + table_held (ns_mounts src) u + (if u = ns_root src then 1 else 0)) \<and>
        fst (ns_unref vs (Some new) st') = None \<and> refs (snd (ns_unref vs (Some new) st')) = refs st"
proof (cases ok)
  case False
  with assms show ?thesis by (auto simp: ns_fork_def ns_create_def)
next
  case True
  let ?new = "\<lparr>ns_refs = 1, ns_root = ns_root src, ns_mounts = []\<rparr>"
  have "fork_mounts vs alloc (ns_mounts src) ?new (vnode_ref (ns_root src) st) = (res, st')"
    using assms(2) True by (simp add: ns_fork_def ns_create_def)
  moreover have "list_all (\<lambda>(path, loc). length path \<le> VFS_PATH_MAX) (ns_mounts src)" using assms(1) by (simp add: table_ok_def)
  ultimately show ?thesis
    using fork_mounts_refs [of vs alloc "ns_mounts src" ?new "vnode_ref (ns_root src) st" res st'] True
    by (auto simp: refs_vnode_ref ns_unref_last_refs fun_eq_iff split: option.splits)
qed

theorem ns_fork_correct_witness:
  "(case fst (ns_fork tree True [True] tree_ns tree_refs) of None \<Rightarrow> False | Some new \<Rightarrow> ns_mounts new = ns_mounts tree_ns) \<and>
   refs (snd (ns_fork tree True [True] tree_ns tree_refs)) 4 = 2 \<and>
   fst (ns_fork tree True [False] tree_ns tree_refs) = None \<and>
   refs (snd (ns_fork tree True [False] tree_ns tree_refs)) = refs tree_refs"
proof -
  have ok: "table_ok tree_ns" by code_simp
  have n: "length (ns_mounts tree_ns) = 1" "table_held (ns_mounts tree_ns) 4 = 1" "ns_root tree_ns = 0" "refs tree_refs 4 = 1" by code_simp+
  have f: "fst (ns_fork tree True [True] tree_ns tree_refs) = Some tree_ns" "fst (ns_fork tree True [False] tree_ns tree_refs) = None"
    by code_simp+
  show ?thesis
    using ns_fork_correct [OF ok, of tree True "[True]" tree_refs, OF prod.collapse [symmetric]]
      ns_fork_correct [OF ok, of tree True "[False]" tree_refs, OF prod.collapse [symmetric]]
    unfolding f by (simp add: n)
qed

end
