(* ===== verification/Vfs.thy ===== *)
theory Vfs
  imports Namespace
begin

text \<open>
  The virtual file system, \<open>zkt/fs/vfs.c\<close>: open files and changes to directories and mounts in the
  namespace of the calling thread. The operations of a file system, function pointers of a vnode,
  are parameters: \<open>'f\<close> is the state of the file systems, a missing operation is \<open>None\<close>. Open files
  are records in a store addressed by what \<open>kmalloc\<close> returned. A call through a null function
  pointer, which the code does not exclude by a test, is the value \<open>None\<close> of the call.
\<close>

unbundle bit_operations_syntax

section \<open>File systems and open files\<close>

definition VFS_UNION_MAX :: nat where "VFS_UNION_MAX = 8"

definition OREAD :: u32 where "OREAD = 0"
definition OWRITE :: u32 where "OWRITE = 1"
definition ORDWR :: u32 where "ORDWR = 2"
definition O_CREAT :: u32 where "O_CREAT = 0x200"
definition O_TRUNC :: u32 where "O_TRUNC = 0x400"
definition O_EXCL :: u32 where "O_EXCL = 0x800"
definition SEEK_SET :: u32 where "SEEK_SET = 0"
definition SEEK_CUR :: u32 where "SEEK_CUR = 1"
definition SEEK_END :: u32 where "SEEK_END = 2"

datatype bind_flag = BIND_REPLACE | BIND_BEFORE | BIND_AFTER

record dirent =
  d_name :: string
  d_type :: vnode_type
  d_size :: u32

text \<open>
  The operations. A read gives the bytes read, a write their number; \<open>readdir\<close> gives no entry past
  the last; \<open>create\<close>, as \<open>walk\<close>, gives a vnode with a new reference.
\<close>

record 'f fs_ops =
  o_nodes :: "'f \<Rightarrow> vnodes"
  o_size :: "'f \<Rightarrow> vnode \<Rightarrow> u32"
  o_read :: "vnode \<Rightarrow> ('f \<Rightarrow> u32 \<Rightarrow> nat \<Rightarrow> u8 list result \<times> 'f) option"
  o_write :: "vnode \<Rightarrow> ('f \<Rightarrow> u32 \<Rightarrow> u8 list \<Rightarrow> nat result \<times> 'f) option"
  o_readdir :: "vnode \<Rightarrow> ('f \<Rightarrow> u32 \<Rightarrow> dirent option result) option"
  o_create :: "vnode \<Rightarrow> ('f \<Rightarrow> string \<Rightarrow> vnode_type \<Rightarrow> vnode result \<times> 'f) option"
  o_remove :: "vnode \<Rightarrow> ('f \<Rightarrow> string \<Rightarrow> vnode_type \<Rightarrow> unit result \<times> 'f) option"
  o_rename :: "vnode \<Rightarrow> ('f \<Rightarrow> string \<Rightarrow> string \<Rightarrow> unit result \<times> 'f) option"
  o_truncate :: "vnode \<Rightarrow> ('f \<Rightarrow> u32 \<Rightarrow> unit result \<times> 'f) option"
  o_fileattr :: "vnode \<Rightarrow> ('f \<Rightarrow> u8 \<Rightarrow> bool \<Rightarrow> unit result \<times> u8 \<times> 'f) option"
  o_poll :: "vnode \<Rightarrow> ('f \<Rightarrow> int) option"

record ofile =
  f_refs :: u32
  f_mode :: u32
  f_name :: string
  f_loc :: location
  f_offset :: u32
  f_member :: nat
  f_index :: u32
  f_entry :: u32

text \<open>The namespace of the calling thread, the vnodes, the file systems and the open files.\<close>

record 'f vfs =
  vns :: namespace
  vst :: vstate
  disk :: 'f
  files :: "nat \<rightharpoonup> ofile"

abbreviation type_of :: "'f fs_ops \<Rightarrow> 'f vfs \<Rightarrow> vnode \<Rightarrow> vnode_type" where
  "type_of fs s v \<equiv> v_type (o_nodes fs (disk s)) v"

text \<open>\<open>f->loc.v[0]\<close>.\<close>

definition first :: "location \<Rightarrow> vnode" where
  "first loc = fst (loc ! 0)"

definition can_read :: "ofile \<Rightarrow> bool" where
  "can_read f \<longleftrightarrow> f_mode f = OREAD \<or> f_mode f = ORDWR"

definition can_write :: "ofile \<Rightarrow> bool" where
  "can_write f \<longleftrightarrow> f_mode f = OWRITE \<or> f_mode f = ORDWR"

text \<open>\<open>ns_resolve\<close>, \<open>location_release\<close> and \<open>vnode_ref\<close> on this state.\<close>

definition resolve :: "'f fs_ops \<Rightarrow> 'f vfs \<Rightarrow> string \<Rightarrow> (location \<times> string) result \<times> 'f vfs" where
  "resolve fs s path =
     (let (res, st) = ns_resolve (o_nodes fs (disk s)) (vns s) path (vst s) in (res, s\<lparr>vst := st\<rparr>))"

definition release :: "'f fs_ops \<Rightarrow> location \<Rightarrow> 'f vfs \<Rightarrow> 'f vfs" where
  "release fs loc s = s\<lparr>vst := snd (location_release (o_nodes fs (disk s)) loc (vst s))\<rparr>"

definition take_ref :: "vnode \<Rightarrow> 'f vfs \<Rightarrow> 'f vfs" where
  "take_ref v s = s\<lparr>vst := vnode_ref v (vst s)\<rparr>"

section \<open>Changes to directories\<close>

text \<open>\<open>for (p = clean; *p; p++) if (*p == '/') slash = p;\<close>\<close>

fun last_slash :: "string \<Rightarrow> nat \<Rightarrow> nat option \<Rightarrow> nat option" where
  "last_slash [] i slash = slash"
| "last_slash (c # cs) i slash = last_slash cs (i + 1) (if c = CHR ''/'' then Some i else slash)"

text \<open>The location of the parent directory, the last name, and the path of the directory.\<close>

definition parent_of :: "'f fs_ops \<Rightarrow> 'f vfs \<Rightarrow> string \<Rightarrow> (location \<times> string \<times> string) result \<times> 'f vfs" where
  "parent_of fs s path = (case vfs_clean_path path of
      Inl e \<Rightarrow> (Inl e, s)
    | Inr clean \<Rightarrow> (case last_slash clean 0 None of
        None \<Rightarrow> (Inl EINVAL, s)
      | Some slash \<Rightarrow>
          if slash + 1 = length clean then (Inl EINVAL, s)
          else let dir = take slash clean;
                   ppath = take VFS_PATH_MAX (if slash = 0 then ''/'' else dir);
                   (res, s1) = resolve fs s (if dir \<noteq> [] then dir else ''/'')
               in case res of
                    Inl e \<Rightarrow> (Inl e, s1)
                  | Inr (loc, _) \<Rightarrow> (Inr (loc, take VFS_NAME_MAX (drop (slash + 1) clean), ppath), s1)))"

definition writable_dir :: "'f fs_ops \<Rightarrow> 'f vfs \<Rightarrow> location \<Rightarrow> vnode option" where
  "writable_dir fs s loc = (if type_of fs s (first loc) = VNODE_DIR then Some (first loc) else None)"

definition create_in :: "'f fs_ops \<Rightarrow> 'f vfs \<Rightarrow> location \<Rightarrow> string \<Rightarrow> vnode_type \<Rightarrow> vnode result \<times> 'f vfs" where
  "create_in fs s loc leaf type = (case writable_dir fs s loc of
      None \<Rightarrow> (Inl ENOTDIR, s)
    | Some dir \<Rightarrow> (case o_create fs dir of
        None \<Rightarrow> (Inl EROFS, s)
      | Some create \<Rightarrow> (case create (disk s) leaf type of
          (Inl e, d) \<Rightarrow> (Inl e, s\<lparr>disk := d\<rparr>)
        | (Inr v, d) \<Rightarrow> (Inr v, take_ref v (s\<lparr>disk := d\<rparr>)))))"

definition vfs_create :: "'f fs_ops \<Rightarrow> 'f vfs \<Rightarrow> string \<Rightarrow> vnode_type \<Rightarrow> vnode result \<times> 'f vfs" where
  "vfs_create fs s path type =
     (if type \<noteq> VNODE_FILE \<and> type \<noteq> VNODE_DIR then (Inl EINVAL, s)
      else case parent_of fs s path of
        (Inl e, s1) \<Rightarrow> (Inl e, s1)
      | (Inr (loc, leaf, ppath), s1) \<Rightarrow>
          let (rc, s2) = create_in fs s1 loc leaf type in (rc, release fs loc s2))"

definition exists_for :: "'f fs_ops \<Rightarrow> 'f vfs \<Rightarrow> vnode \<Rightarrow> string \<Rightarrow> unit result \<times> 'f vfs" where
  "exists_for fs s dir leaf = (case v_walk (o_nodes fs (disk s)) dir of
      None \<Rightarrow> (Inl EROFS, s)
    | Some w \<Rightarrow> (case w leaf of
        Inl e \<Rightarrow> (Inl e, s)
      | Inr v \<Rightarrow> (Inl EROFS, release fs [(v, [])] (take_ref v s))))"

definition remove_in :: "'f fs_ops \<Rightarrow> 'f vfs \<Rightarrow> location \<Rightarrow> string \<Rightarrow> vnode_type \<Rightarrow> unit result \<times> 'f vfs" where
  "remove_in fs s loc leaf expect = (case writable_dir fs s loc of
      None \<Rightarrow> (Inl ENOTDIR, s)
    | Some dir \<Rightarrow> (case o_remove fs dir of
        Some remove \<Rightarrow> (let (rc, d) = remove (disk s) leaf expect in (rc, s\<lparr>disk := d\<rparr>))
      | None \<Rightarrow> exists_for fs s dir leaf))"

definition vfs_remove :: "'f fs_ops \<Rightarrow> 'f vfs \<Rightarrow> string \<Rightarrow> vnode_type \<Rightarrow> unit result \<times> 'f vfs" where
  "vfs_remove fs s path expect = (case parent_of fs s path of
      (Inl e, s1) \<Rightarrow> (Inl e, s1)
    | (Inr (loc, leaf, ppath), s1) \<Rightarrow>
        let (rc, s2) = remove_in fs s1 loc leaf expect in (rc, release fs loc s2))"

definition vfs_unlink :: "'f fs_ops \<Rightarrow> 'f vfs \<Rightarrow> string \<Rightarrow> unit result \<times> 'f vfs" where
  "vfs_unlink fs s path = vfs_remove fs s path VNODE_FILE"

definition vfs_rmdir :: "'f fs_ops \<Rightarrow> 'f vfs \<Rightarrow> string \<Rightarrow> unit result \<times> 'f vfs" where
  "vfs_rmdir fs s path = vfs_remove fs s path VNODE_DIR"

text \<open>One directory by two routes is told by the vnode or by the path.\<close>

definition rename_in :: "'f fs_ops \<Rightarrow> 'f vfs \<Rightarrow> location \<Rightarrow> location \<Rightarrow> string \<Rightarrow> string \<Rightarrow> string \<Rightarrow> string \<Rightarrow> unit result \<times> 'f vfs" where
  "rename_in fs s a b leaf_a leaf_b pa pb =
     (let dir = writable_dir fs s a;
          same = (dir = writable_dir fs s b \<or> pa = pb)
      in if \<not> same then (Inl EXDEV, s)
         else case dir of
           None \<Rightarrow> (Inl ENOTDIR, s)
         | Some d \<Rightarrow> (case o_rename fs d of
             Some rename \<Rightarrow> (let (rc, k) = rename (disk s) leaf_a leaf_b in (rc, s\<lparr>disk := k\<rparr>))
           | None \<Rightarrow> exists_for fs s d leaf_a))"

definition vfs_rename :: "'f fs_ops \<Rightarrow> 'f vfs \<Rightarrow> string \<Rightarrow> string \<Rightarrow> unit result \<times> 'f vfs" where
  "vfs_rename fs s from to = (case parent_of fs s from of
      (Inl e, s1) \<Rightarrow> (Inl e, s1)
    | (Inr (a, leaf_a, pa), s1) \<Rightarrow> (case parent_of fs s1 to of
        (Inl e, s2) \<Rightarrow> (Inl e, release fs a s2)
      | (Inr (b, leaf_b, pb), s2) \<Rightarrow>
          let (rc, s3) = rename_in fs s2 a b leaf_a leaf_b pa pb
          in (rc, release fs b (release fs a s3))))"

section \<open>Opening and closing\<close>

text \<open>What an open finds or creates, and the checks on what it found.\<close>

definition open_find :: "'f fs_ops \<Rightarrow> 'f vfs \<Rightarrow> string \<Rightarrow> u32 \<Rightarrow> (location \<times> string) result \<times> bool \<times> 'f vfs" where
  "open_find fs s path flags =
     (case resolve fs s path of
        (Inr x, s1) \<Rightarrow> (Inr x, True, s1)
      | (Inl e, s1) \<Rightarrow>
          if e = ENOENT \<and> flags AND O_CREAT \<noteq> 0
          then case vfs_create fs s1 path VNODE_FILE of
              (Inl e, s2) \<Rightarrow> (Inl e, False, s2)
            | (Inr v, s2) \<Rightarrow> (case vfs_clean_path path of
                Inl e \<Rightarrow> (Inl e, False, s2)
              | Inr canon \<Rightarrow> (Inr ([(v, [])], canon), False, s2))
          else (Inl e, False, s1))"

definition open_check :: "'f fs_ops \<Rightarrow> 'f vfs \<Rightarrow> vnode \<Rightarrow> u32 \<Rightarrow> u32 \<Rightarrow> bool \<Rightarrow> unit result \<times> 'f vfs" where
  "open_check fs s v acc flags existed =
     (if flags AND (O_CREAT OR O_EXCL) = O_CREAT OR O_EXCL \<and> existed then (Inl EEXIST, s)
      else if acc \<noteq> OREAD \<and> type_of fs s v = VNODE_DIR then (Inl EISDIR, s)
      else if flags AND O_TRUNC \<noteq> 0 \<and> acc \<noteq> OREAD \<and> type_of fs s v = VNODE_FILE
      then (case o_truncate fs v of
          None \<Rightarrow> (Inl EROFS, s)
        | Some trunc \<Rightarrow> (let (rc, d) = trunc (disk s) 0 in (rc, s\<lparr>disk := d\<rparr>)))
      else if acc \<noteq> OREAD \<and> o_write fs v = None then (Inl EROFS, s)
      else (Inr (), s))"

definition new_file :: "u32 \<Rightarrow> string \<Rightarrow> location \<Rightarrow> ofile" where
  "new_file mode name loc =
     \<lparr>f_refs = 1, f_mode = mode, f_name = take VFS_NAME_MAX name, f_loc = loc, f_offset = 0,
      f_member = 0, f_index = 0, f_entry = 0\<rparr>"

text \<open>\<open>addr\<close> is what \<open>kmalloc\<close> gives for the file, \<open>None\<close> without memory.\<close>

definition vfs_open :: "'f fs_ops \<Rightarrow> 'f vfs \<Rightarrow> nat option \<Rightarrow> string \<Rightarrow> u32 \<Rightarrow> nat result \<times> 'f vfs" where
  "vfs_open fs s addr path mode =
     (let acc = mode AND 3; flags = mode AND NOT 3
      in if acc \<noteq> OREAD \<and> acc \<noteq> OWRITE \<and> acc \<noteq> ORDWR \<or> flags AND NOT (O_CREAT OR O_TRUNC OR O_EXCL) \<noteq> 0
         then (Inl EINVAL, s)
         else case addr of
           None \<Rightarrow> (Inl ENOMEM, s)
         | Some a \<Rightarrow> (case open_find fs s path flags of
             (Inl e, existed, s2) \<Rightarrow> (Inl e, s2)
           | (Inr (loc, canon), existed, s2) \<Rightarrow> (case open_check fs s2 (first loc) acc flags existed of
               (Inl e, s3) \<Rightarrow> (Inl e, release fs loc s3)
             | (Inr _, s3) \<Rightarrow>
                 let slash = (case last_slash canon 0 None of None \<Rightarrow> 0 | Some i \<Rightarrow> i);
                     name = (if length canon > 1 then drop (slash + 1) canon else ''/'')
                 in (Inr a, s3\<lparr>files := (files s3)(a \<mapsto> new_file acc name loc)\<rparr>))))"

definition vfs_open_vnode :: "'f vfs \<Rightarrow> nat option \<Rightarrow> vnode \<Rightarrow> u32 \<Rightarrow> string \<Rightarrow> nat result \<times> 'f vfs" where
  "vfs_open_vnode s addr v mode name = (case addr of
      None \<Rightarrow> (Inl ENOMEM, s)
    | Some a \<Rightarrow> (Inr a, s\<lparr>files := (files s)(a \<mapsto> new_file mode name [(v, [])])\<rparr>))"

definition vfs_dup :: "'f vfs \<Rightarrow> nat \<Rightarrow> 'f vfs" where
  "vfs_dup s a = (let f = the (files s a) in s\<lparr>files := (files s)(a \<mapsto> f\<lparr>f_refs := f_refs f + 1\<rparr>)\<rparr>)"

definition vfs_close :: "'f fs_ops \<Rightarrow> 'f vfs \<Rightarrow> nat \<Rightarrow> 'f vfs" where
  "vfs_close fs s a =
     (let f = the (files s a);
          f1 = f\<lparr>f_refs := f_refs f - 1\<rparr>
      in if f_refs f1 = 0 then (release fs (f_loc f1) s)\<lparr>files := (files s)(a := None)\<rparr>
         else s\<lparr>files := (files s)(a \<mapsto> f1)\<rparr>)"

definition vfs_name :: "'f vfs \<Rightarrow> nat \<Rightarrow> string" where
  "vfs_name s a = f_name (the (files s a))"

definition vfs_vnode :: "'f vfs \<Rightarrow> nat \<Rightarrow> vnode" where
  "vfs_vnode s a = first (f_loc (the (files s a)))"

definition vfs_poll :: "'f fs_ops \<Rightarrow> 'f vfs \<Rightarrow> nat \<Rightarrow> int" where
  "vfs_poll fs s a = (case o_poll fs (vfs_vnode s a) of None \<Rightarrow> 1 | Some poll \<Rightarrow> poll (disk s))"

definition vfs_type :: "'f fs_ops \<Rightarrow> 'f vfs \<Rightarrow> nat \<Rightarrow> vnode_type" where
  "vfs_type fs s a = type_of fs s (vfs_vnode s a)"

definition vfs_is_pipe :: "'f fs_ops \<Rightarrow> 'f vfs \<Rightarrow> nat \<Rightarrow> bool" where
  "vfs_is_pipe fs s a \<longleftrightarrow> vfs_type fs s a = VNODE_PIPE"

definition vfs_size :: "'f fs_ops \<Rightarrow> 'f vfs \<Rightarrow> nat \<Rightarrow> u32" where
  "vfs_size fs s a = o_size fs (disk s) (vfs_vnode s a)"

text \<open>The file the call opens is closed again; \<open>attr\<close> is both argument and result.\<close>

definition vfs_fileattr :: "'f fs_ops \<Rightarrow> 'f vfs \<Rightarrow> nat option \<Rightarrow> string \<Rightarrow> u8 \<Rightarrow> bool \<Rightarrow> unit result \<times> u8 \<times> 'f vfs" where
  "vfs_fileattr fs s addr path attr set_attr = (case vfs_open fs s addr path OREAD of
      (Inl e, s1) \<Rightarrow> (Inl e, attr, s1)
    | (Inr a, s1) \<Rightarrow>
        let (rc, attr1, s2) = (case o_fileattr fs (vfs_vnode s1 a) of
              None \<Rightarrow> (Inl ENOSYS, attr, s1)
            | Some fileattr \<Rightarrow> (let (rc, x, d) = fileattr (disk s1) attr set_attr in (rc, x, s1\<lparr>disk := d\<rparr>)))
        in (rc, attr1, vfs_close fs s2 a))"

section \<open>Reading and writing\<close>

definition vfs_read :: "'f fs_ops \<Rightarrow> 'f vfs \<Rightarrow> nat \<Rightarrow> nat \<Rightarrow> u8 list result \<times> 'f vfs" where
  "vfs_read fs s a len =
     (let f = the (files s a); v = first (f_loc f)
      in if \<not> can_read f then (Inl EBADF, s)
         else if type_of fs s v = VNODE_DIR then (Inl EISDIR, s)
         else case o_read fs v of
           None \<Rightarrow> (Inl ENODEV, s)
         | Some read \<Rightarrow> (case read (disk s) (f_offset f) len of
             (Inl e, d) \<Rightarrow> (Inl e, s\<lparr>disk := d\<rparr>)
           | (Inr bs, d) \<Rightarrow>
               (Inr bs, s\<lparr>disk := d, files := (files s)(a \<mapsto> f\<lparr>f_offset := f_offset f + of_nat (length bs)\<rparr>)\<rparr>)))"

definition vfs_pread :: "'f fs_ops \<Rightarrow> 'f vfs \<Rightarrow> nat \<Rightarrow> nat \<Rightarrow> u32 \<Rightarrow> u8 list result \<times> 'f vfs" where
  "vfs_pread fs s a len offset =
     (let f = the (files s a); v = first (f_loc f)
      in if \<not> can_read f then (Inl EBADF, s)
         else if type_of fs s v = VNODE_DIR then (Inl EISDIR, s)
         else case o_read fs v of
           None \<Rightarrow> (Inl ENODEV, s)
         | Some read \<Rightarrow> (let (rc, d) = read (disk s) offset len in (rc, s\<lparr>disk := d\<rparr>)))"

text \<open>The write operation is called without a test.\<close>

definition vfs_pwrite :: "'f fs_ops \<Rightarrow> 'f vfs \<Rightarrow> nat \<Rightarrow> u8 list \<Rightarrow> u32 \<Rightarrow> (nat result \<times> 'f vfs) option" where
  "vfs_pwrite fs s a buf offset =
     (let f = the (files s a); v = first (f_loc f)
      in if \<not> can_write f then Some (Inl EBADF, s)
         else case o_write fs v of
           None \<Rightarrow> None
         | Some write \<Rightarrow> (let (rc, d) = write (disk s) offset buf in Some (rc, s\<lparr>disk := d\<rparr>)))"

definition vfs_write :: "'f fs_ops \<Rightarrow> 'f vfs \<Rightarrow> nat \<Rightarrow> u8 list \<Rightarrow> (nat result \<times> 'f vfs) option" where
  "vfs_write fs s a buf =
     (let f = the (files s a); v = first (f_loc f)
      in if \<not> can_write f then Some (Inl EBADF, s)
         else case o_write fs v of
           None \<Rightarrow> None
         | Some write \<Rightarrow> (case write (disk s) (f_offset f) buf of
             (Inl e, d) \<Rightarrow> Some (Inl e, s\<lparr>disk := d\<rparr>)
           | (Inr n, d) \<Rightarrow>
               Some (Inr n, s\<lparr>disk := d, files := (files s)(a \<mapsto> f\<lparr>f_offset := f_offset f + of_nat n\<rparr>)\<rparr>)))"

text \<open>\<open>base\<close> and \<open>target\<close> are 64-bit integers, wide enough for every sum here.\<close>

definition vfs_seek :: "'f fs_ops \<Rightarrow> 'f vfs \<Rightarrow> nat \<Rightarrow> u32 \<Rightarrow> u32 \<Rightarrow> int result \<times> 'f vfs" where
  "vfs_seek fs s a offset whence =
     (let f = the (files s a); v = first (f_loc f)
      in if type_of fs s v = VNODE_DIR
         then if offset \<noteq> 0 \<or> whence \<noteq> SEEK_SET then (Inl EINVAL, s)
              else (Inr 0, s\<lparr>files := (files s)(a \<mapsto> f\<lparr>f_member := 0, f_index := 0, f_entry := 0\<rparr>)\<rparr>)
         else let base = (if whence = SEEK_SET then 0 else if whence = SEEK_CUR then uint (f_offset f)
                          else if whence = SEEK_END then uint (o_size fs (disk s) v) else - 1);
                  target = base + sint offset
              in if base < 0 \<or> target < 0 \<or> target > 0x7FFFFFFF then (Inl EINVAL, s)
                 else (Inr target, s\<lparr>files := (files s)(a \<mapsto> f\<lparr>f_offset := word_of_int target\<rparr>)\<rparr>))"

section \<open>Listing directories\<close>

text \<open>The loop of \<open>vfs_readdir\<close>: from member to member until one has an entry or fails.\<close>

function readdir_loop :: "'f fs_ops \<Rightarrow> 'f \<Rightarrow> ofile \<Rightarrow> dirent option result \<times> ofile" where
  "readdir_loop fs d f =
     (if f_member f < length (f_loc f)
      then let v = fst (f_loc f ! f_member f);
               rc = (case o_readdir fs v of
                   Some readdir \<Rightarrow> if v_type (o_nodes fs d) v = VNODE_DIR then readdir d (f_index f) else Inr None
                 | None \<Rightarrow> Inr None)
           in case rc of
                Inr (Some e) \<Rightarrow> (Inr (Some e), f\<lparr>f_index := f_index f + 1, f_entry := f_entry f + 1\<rparr>)
              | Inl e \<Rightarrow> (Inl e, f)
              | Inr None \<Rightarrow> readdir_loop fs d (f\<lparr>f_member := f_member f + 1, f_index := 0\<rparr>)
      else (Inr None, f))"
  by pat_completeness auto
termination by (relation "measure (\<lambda>(fs, d, f). length (f_loc f) - f_member f)") auto

declare readdir_loop.simps [simp del]

definition readdir_file :: "'f fs_ops \<Rightarrow> 'f \<Rightarrow> ofile \<Rightarrow> dirent option result \<times> ofile" where
  "readdir_file fs d f =
     (if v_type (o_nodes fs d) (first (f_loc f)) \<noteq> VNODE_DIR then (Inl ENOTDIR, f) else readdir_loop fs d f)"

definition vfs_readdir :: "'f fs_ops \<Rightarrow> 'f vfs \<Rightarrow> nat \<Rightarrow> dirent option result \<times> 'f vfs" where
  "vfs_readdir fs s a =
     (let (rc, f) = readdir_file fs (disk s) (the (files s a)) in (rc, s\<lparr>files := (files s)(a \<mapsto> f)\<rparr>))"

lemma readdir_loop_entry: "readdir_loop fs d f = (Inr (Some e), f') \<Longrightarrow> f_entry f' = f_entry f + 1"
proof (induction fs d f rule: readdir_loop.induct)
  case (1 fs d f)
  show ?case using 1(2) 1(1) [OF _ refl refl]
    by (subst (asm) (1) readdir_loop.simps) (auto simp add: Let_def split: if_splits option.splits sum.splits)
qed

lemma readdir_file_entry: "readdir_file fs d f = (Inr (Some e), f') \<Longrightarrow> f_entry f' = f_entry f + 1"
  by (auto simp: readdir_file_def readdir_loop_entry split: if_splits)

text \<open>The loop of \<open>vfs_readdir_at\<close> that skips entries; \<open>Inr True\<close> when it reaches the one asked for.\<close>

function skip_entries :: "'f fs_ops \<Rightarrow> 'f \<Rightarrow> u32 \<Rightarrow> ofile \<Rightarrow> bool result \<times> ofile" where
  "skip_entries fs d entry f =
     (if f_entry f < entry
      then case readdir_file fs d f of
          (Inl e, f1) \<Rightarrow> (Inl e, f1)
        | (Inr None, f1) \<Rightarrow> (Inr False, f1)
        | (Inr (Some _), f1) \<Rightarrow> skip_entries fs d entry f1
      else (Inr True, f))"
  by pat_completeness auto
termination
proof (relation "measure (\<lambda>(fs, d, entry, f). unat entry - unat (f_entry f))", goal_cases)
  case (2 fs d entry f r f1 x e)
  then have "f_entry f1 = f_entry f + 1" using readdir_file_entry by metis
  moreover have "unat (f_entry f + 1) = unat (f_entry f) + 1"
    using 2(1) unsigned_less [of entry, where 'a = nat] by (simp add: word_less_nat_alt unat_word_ariths)
  ultimately show ?case using 2(1) by (simp add: word_less_nat_alt)
qed simp

declare skip_entries.simps [simp del]

definition vfs_readdir_at :: "'f fs_ops \<Rightarrow> 'f vfs \<Rightarrow> nat \<Rightarrow> u32 \<Rightarrow> dirent option result \<times> 'f vfs" where
  "vfs_readdir_at fs s a entry =
     (let f = the (files s a);
          f1 = (if entry < f_entry f then f\<lparr>f_member := 0, f_index := 0, f_entry := 0\<rparr> else f);
          (rc, f2) = skip_entries fs (disk s) entry f1;
          s1 = s\<lparr>files := (files s)(a \<mapsto> f2)\<rparr>
      in case rc of
           Inl e \<Rightarrow> (Inl e, s1)
         | Inr False \<Rightarrow> (Inr None, s1)
         | Inr True \<Rightarrow> vfs_readdir fs s1 a)"

section \<open>Binds and mounts\<close>

text \<open>
  The union a bind composes, and its entry in the mount table; \<open>ok\<close> is whether \<open>kmalloc\<close> finds
  memory for a new entry.
\<close>

definition bound :: "bind_flag \<Rightarrow> location \<Rightarrow> location \<Rightarrow> location" where
  "bound flag from onto =
     (let loc1 = (if flag = BIND_AFTER then onto else from);
          loc2 = (if flag = BIND_REPLACE then [] else if flag = BIND_AFTER then from else onto)
      in loc1 @ loc2)"

definition bind_result :: "'f fs_ops \<Rightarrow> 'f vfs \<Rightarrow> bool \<Rightarrow> location \<Rightarrow> location \<Rightarrow> string \<Rightarrow> bind_flag \<Rightarrow> unit result \<times> 'f vfs" where
  "bind_result fs s ok from onto old_canon flag =
     (let from_dir = (type_of fs s (first from) = VNODE_DIR);
          onto_dir = (type_of fs s (first onto) = VNODE_DIR)
      in if from_dir \<noteq> onto_dir then (Inl (if onto_dir then ENOTDIR else EISDIR), s)
         else if flag \<noteq> BIND_REPLACE \<and> \<not> onto_dir then (Inl ENOTDIR, s)
         else if length (bound flag from onto) > VFS_UNION_MAX then (Inl EINVAL, s)
         else let st = fold (\<lambda>(v, l). vnode_ref v) (bound flag from onto) (vst s);
                  (rc, ns, st1) = ns_set_mount (o_nodes fs (disk s)) ok (vns s) old_canon (bound flag from onto) st
              in (rc, s\<lparr>vns := ns, vst := st1\<rparr>))"

definition bind_locations :: "'f fs_ops \<Rightarrow> 'f vfs \<Rightarrow> bool \<Rightarrow> location \<Rightarrow> location \<Rightarrow> string \<Rightarrow> bind_flag \<Rightarrow> unit result \<times> 'f vfs" where
  "bind_locations fs s ok from onto old_canon flag =
     (let (rc, s1) = bind_result fs s ok from onto old_canon flag
      in (rc, release fs onto (release fs from s1)))"

definition vfs_bind :: "'f fs_ops \<Rightarrow> 'f vfs \<Rightarrow> bool \<Rightarrow> string \<Rightarrow> string \<Rightarrow> bind_flag \<Rightarrow> unit result \<times> 'f vfs" where
  "vfs_bind fs s ok new_path old_path flag = (case resolve fs s new_path of
      (Inl e, s1) \<Rightarrow> (Inl e, s1)
    | (Inr (from, _), s1) \<Rightarrow> (case resolve fs s1 old_path of
        (Inl e, s2) \<Rightarrow> (Inl e, release fs from s2)
      | (Inr (onto, old_canon), s2) \<Rightarrow> bind_locations fs s2 ok from onto old_canon flag))"

definition vfs_mount :: "'f fs_ops \<Rightarrow> 'f vfs \<Rightarrow> bool \<Rightarrow> vnode \<Rightarrow> string \<Rightarrow> string \<Rightarrow> bind_flag \<Rightarrow> unit result \<times> 'f vfs" where
  "vfs_mount fs s ok root label old_path flag = (case resolve fs s old_path of
      (Inl e, s1) \<Rightarrow> (Inl e, s1)
    | (Inr (onto, old_canon), s1) \<Rightarrow>
        bind_locations fs (take_ref root s1) ok [(root, set_label label)] onto old_canon flag)"

definition vfs_unbind :: "'f fs_ops \<Rightarrow> 'f vfs \<Rightarrow> string \<Rightarrow> unit result \<times> 'f vfs" where
  "vfs_unbind fs s old_path = (case vfs_clean_path old_path of
      Inl e \<Rightarrow> (Inl e, s)
    | Inr canon \<Rightarrow>
        let (rc, ns, st) = ns_remove_mount (o_nodes fs (disk s)) (vns s) canon (vst s)
        in (rc, s\<lparr>vns := ns, vst := st\<rparr>))"

section \<open>Resolution\<close>

text \<open>The facts of a resolution a client uses, whatever the path.\<close>

lemma resolve_refs:
  assumes "ns_resolve vs ns path st = (res, st')"
  shows "refs st' u = refs st u + (case res of Inl e \<Rightarrow> 0 | Inr (loc, canon) \<Rightarrow> held loc u)"
proof (cases "vfs_clean_path path")
  case (Inl e)
  with assms show ?thesis by (auto simp: ns_resolve_def)
next
  case (Inr clean)
  with assms ns_resolve_names [OF Inr, of vs ns st] show ?thesis by (auto simp: result_held_def split: sum.split)
qed

end
