(* ===== verification/Vfs_Inv.thy ===== *)
theory Vfs_Inv
  imports Vfs
begin

text \<open>
  What the calls of \<open>zkt/fs/vfs.c\<close> keep: the shape of locations, mounts and open files, and the
  balance of references.
\<close>

section \<open>What a call moves\<close>

text \<open>
  A call that leaves the mounts and the open files alone, and after which every vnode \<open>u\<close> has
  \<open>g u\<close> more references.
\<close>

definition moves :: "'f vfs \<Rightarrow> 'f vfs \<Rightarrow> (vnode \<Rightarrow> u32) \<Rightarrow> bool" where
  "moves s s' g \<longleftrightarrow> vns s' = vns s \<and> files s' = files s \<and> (\<forall>u. refs (vst s') u = refs (vst s) u + g u)"

lemma moves_refl [simp]: "moves s s (\<lambda>u. 0)"
  by (simp add: moves_def)

lemma moves_trans: "moves s s1 g \<Longrightarrow> moves s1 s2 h \<Longrightarrow> moves s s2 (\<lambda>u. g u + h u)"
  by (simp add: moves_def add.assoc)

lemma moves_eq: "moves s s1 g \<Longrightarrow> (\<And>u. g u = h u) \<Longrightarrow> moves s s1 h"
  by (simp add: moves_def)

lemma moves_disk [simp]: "moves s (s\<lparr>disk := d\<rparr>) (\<lambda>u. 0)"
  by (simp add: moves_def)

lemma moves_release: "moves s (release fs loc s) (\<lambda>u. - held loc u)"
  by (simp add: moves_def release_def)

lemma moves_take_ref: "moves s (take_ref v s) (held [(v, l)])"
  by (simp add: moves_def take_ref_def refs_vnode_ref)

lemmas moves_frame = moves_def [THEN iffD1, THEN conjunct1] moves_def [THEN iffD1, THEN conjunct2, THEN conjunct1]

definition got :: "'a result \<Rightarrow> ('a \<Rightarrow> vnode \<Rightarrow> u32) \<Rightarrow> vnode \<Rightarrow> u32" where
  "got res f u = (case res of Inl e \<Rightarrow> 0 | Inr x \<Rightarrow> f x u)"

lemma got_simps [simp]: "got (Inl e) f u = 0" "got (Inr x) f u = f x u" "got r (\<lambda>x u. 0) u = 0"
  by (auto simp: got_def split: sum.split)

lemma moves_resolve: "resolve fs s path = (res, s') \<Longrightarrow> moves s s' (got res (\<lambda>(loc, canon). held loc)) \<and> disk s' = disk s"
proof -
  assume r: "resolve fs s path = (res, s')"
  then obtain st where *: "ns_resolve (o_nodes fs (disk s)) (vns s) path (vst s) = (res, st)" "s' = s\<lparr>vst := st\<rparr>"
    by (auto simp: resolve_def split: prod.splits)
  from resolve_refs [OF *(1)] *(2) show ?thesis by (auto simp: moves_def got_def split: sum.splits)
qed

lemma moves_parent_of: "parent_of fs s path = (res, s') \<Longrightarrow> moves s s' (got res (\<lambda>(loc, leaf, ppath). held loc)) \<and> disk s' = disk s"
  by (auto simp: parent_of_def Let_def got_def split: sum.splits option.splits if_splits prod.splits
      dest!: moves_resolve intro!: moves_eq [OF moves_refl] elim!: moves_eq)

lemma moves_create_in: "create_in fs s loc leaf type = (res, s') \<Longrightarrow> moves s s' (got res (\<lambda>v. held [(v, [])]))"
  by (auto simp: create_in_def split: option.splits sum.splits prod.splits
      intro!: moves_eq [OF moves_refl] moves_eq [OF moves_disk] moves_eq [OF moves_trans [OF moves_disk moves_take_ref]])

lemma moves_exists_for: "exists_for fs s dir leaf = (res, s') \<Longrightarrow> moves s s' (\<lambda>u. 0) \<and> disk s' = disk s"
  using moves_trans [OF moves_take_ref moves_release]
  by (auto simp: exists_for_def split: option.splits sum.splits) (auto simp: moves_def release_def take_ref_def refs_vnode_ref)

lemma moves_remove_in: "remove_in fs s loc leaf expect = (res, s') \<Longrightarrow> moves s s' (\<lambda>u. 0)"
  by (auto simp: remove_in_def split: option.splits prod.splits dest: moves_exists_for)

lemma moves_rename_in: "rename_in fs s a b leaf_a leaf_b pa pb = (res, s') \<Longrightarrow> moves s s' (\<lambda>u. 0)"
  by (auto simp: rename_in_def Let_def split: option.splits prod.splits if_splits dest: moves_exists_for)

text \<open>A call that works in the parent directory and releases it.\<close>

lemma moves_in_parent:
  assumes "parent_of fs s path = (Inr (loc, leaf, pp), s1)" and "moves s1 s2 g"
  shows "moves s (release fs loc s2) g"
  using moves_trans [OF moves_trans [OF conjunct1 [OF moves_parent_of [OF assms(1)]] assms(2)] moves_release [of s2 fs loc]]
  by (auto elim!: moves_eq)

lemma moves_parent_fails: "parent_of fs s path = (Inl e, s') \<Longrightarrow> moves s s' (\<lambda>u. 0)"
  by (drule moves_parent_of) (auto elim!: moves_eq)

lemma moves_create: "vfs_create fs s path type = (res, s') \<Longrightarrow> moves s s' (got res (\<lambda>v. held [(v, [])]))"
  by (auto simp: vfs_create_def split: if_splits prod.splits sum.splits
      intro!: moves_eq [OF moves_refl] moves_eq [OF moves_parent_fails] elim!: moves_in_parent dest!: moves_create_in)

lemma moves_remove: "vfs_remove fs s path expect = (res, s') \<Longrightarrow> moves s s' (\<lambda>u. 0)"
  by (auto simp: vfs_remove_def split: prod.splits sum.splits
      intro: moves_parent_fails elim!: moves_in_parent dest!: moves_remove_in)

lemma moves_rename: "vfs_rename fs s from to = (res, s') \<Longrightarrow> moves s s' (\<lambda>u. 0)"
proof -
  assume r: "vfs_rename fs s from to = (res, s')"
  obtain p s1 where p: "parent_of fs s from = (p, s1)" by (cases "parent_of fs s from")
  show ?thesis
  proof (cases p)
    case (Inl e)
    with r p moves_parent_fails [of fs s "from"] show ?thesis by (simp add: vfs_rename_def)
  next
    case (Inr x)
    obtain a leaf_a pa where x: "x = (a, leaf_a, pa)" by (cases x)
    obtain q s2 where q: "parent_of fs s1 to = (q, s2)" by (cases "parent_of fs s1 to")
    have p1: "parent_of fs s from = (Inr (a, leaf_a, pa), s1)" using p Inr x by simp
    show ?thesis
    proof (cases q)
      case (Inl e)
      with r p1 q moves_in_parent [OF p1 moves_parent_fails [of fs s1 to]] show ?thesis by (simp add: vfs_rename_def)
    next
      case (Inr y)
      obtain b leaf_b pb where y: "y = (b, leaf_b, pb)" by (cases y)
      obtain rc s3 where n: "rename_in fs s2 a b leaf_a leaf_b pa pb = (rc, s3)" by (cases "rename_in fs s2 a b leaf_a leaf_b pa pb")
      have "moves s2 (release fs a s3) (\<lambda>u. - held a u)"
        using moves_trans [OF moves_rename_in [OF n] moves_release [of s3 fs a]] by simp
      from moves_in_parent [OF q [unfolded Inr y] this]
      have "moves s1 (release fs b (release fs a s3)) (\<lambda>u. - held a u)" .
      from moves_trans [OF conjunct1 [OF moves_parent_of [OF p1]] this]
      show ?thesis using r p1 q Inr y n by (auto simp: vfs_rename_def elim!: moves_eq)
    qed
  qed
qed

lemma moves_open_find:
  assumes "open_find fs s path flags = (res, existed, s')"
  shows "moves s s' (got res (\<lambda>(loc, canon). held loc))"
proof -
  obtain r s1 where r: "resolve fs s path = (r, s1)" by (cases "resolve fs s path")
  have m: "moves s s1 (got r (\<lambda>(loc, canon). held loc))" using moves_resolve [OF r] by simp
  show ?thesis
  proof (cases r)
    case (Inl e)
    show ?thesis
    proof (cases "e = ENOENT \<and> flags AND O_CREAT \<noteq> 0")
      case True
      obtain c s2 where c: "vfs_create fs s1 path VNODE_FILE = (c, s2)" by (cases "vfs_create fs s1 path VNODE_FILE")
      have clean: "vfs_clean_path path = Inl e' \<Longrightarrow> r = Inl e' " for e' using r by (auto simp: resolve_def ns_resolve_def split: prod.splits)
      have no: "vfs_clean_path path \<noteq> Inl ENOENT" by (auto simp: clean_path_eq split: option.splits)
      then obtain canon where "vfs_clean_path path = Inr canon"
        using clean Inl True by (cases "vfs_clean_path path") auto
      with assms r Inl True c moves_trans [OF m moves_create [OF c]] show ?thesis
        by (cases c) (auto simp: open_find_def elim!: moves_eq)
    next
      case False
      with assms r Inl m show ?thesis by (auto simp: open_find_def)
    qed
  next
    case (Inr x)
    with assms r m show ?thesis by (auto simp: open_find_def)
  qed
qed

lemma moves_open_check: "open_check fs s v acc flags existed = (res, s') \<Longrightarrow> moves s s' (\<lambda>u. 0)"
  by (auto simp: open_check_def split: if_splits option.splits prod.splits)

section \<open>Well-formed states\<close>

definition loc_ok :: "location \<Rightarrow> bool" where
  "loc_ok loc \<longleftrightarrow> loc \<noteq> [] \<and> length loc \<le> VFS_UNION_MAX \<and> list_all (\<lambda>(v, label). length label < LOCATION_LABEL_MAX) loc"

definition ns_ok :: "namespace \<Rightarrow> bool" where
  "ns_ok ns \<longleftrightarrow> table_ok ns \<and> list_all (\<lambda>(path, loc). vfs_clean_path path = Inr path \<and> loc_ok loc) (ns_mounts ns)"

definition file_ok :: "'f fs_ops \<Rightarrow> ofile \<Rightarrow> bool" where
  "file_ok fs f \<longleftrightarrow> loc_ok (f_loc f) \<and> length (f_name f) \<le> VFS_NAME_MAX \<and> f_member f \<le> length (f_loc f) \<and>
     (can_write f \<longrightarrow> o_write fs (first (f_loc f)) \<noteq> None)"

definition vfs_ok :: "'f fs_ops \<Rightarrow> 'f vfs \<Rightarrow> bool" where
  "vfs_ok fs s \<longleftrightarrow> ns_ok (vns s) \<and> finite (dom (files s)) \<and> (\<forall>f \<in> ran (files s). file_ok fs f)"

lemma loc_ok_single: "length label < LOCATION_LABEL_MAX \<Longrightarrow> loc_ok [(v, label)]"
  by (simp add: loc_ok_def VFS_UNION_MAX_def)

lemma set_label_length [simp]: "length (set_label label) < LOCATION_LABEL_MAX"
  by (auto simp: set_label_def LOCATION_LABEL_MAX_def)

lemma find_mount_ok: "list_all (\<lambda>(path, loc). P path loc) ms \<Longrightarrow> find_mount ms p = Some loc \<Longrightarrow> P p loc"
  by (induction ms) (auto split: if_splits)

lemma mounted_ok: "ns_ok ns \<Longrightarrow> loc_ok loc \<Longrightarrow> loc_ok (mounted ns p loc)"
  by (auto simp: mounted_def ns_ok_def split: option.split dest: find_mount_ok)

lemma resolve_names_ok: "ns_ok ns \<Longrightarrow> loc_ok loc \<Longrightarrow> resolve_names vs ns prefix loc cs = Inr loc' \<Longrightarrow> loc_ok loc'"
proof (induction cs arbitrary: prefix loc)
  case (Cons c cs)
  then obtain v where v: "found vs loc c ENOTDIR = Inr v" by (auto split: sum.splits)
  show ?case
    by (rule Cons.IH [OF Cons.prems(1) mounted_ok [OF Cons.prems(1) loc_ok_single]]) (use Cons.prems(3) v in \<open>auto simp: Let_def\<close>)
qed simp

lemma resolve_result:
  assumes "resolve fs s path = (Inr (loc, canon), s')"
  shows "vfs_clean_path path = Inr canon"
    "resolve_names (o_nodes fs (disk s)) (vns s) [] (mounted (vns s) ''/'' [(ns_root (vns s), ''/'')]) (comps canon) = Inr loc"
proof -
  obtain st where *: "ns_resolve (o_nodes fs (disk s)) (vns s) path (vst s) = (Inr (loc, canon), st)"
    using assms by (auto simp: resolve_def split: prod.splits)
  then obtain clean where c: "vfs_clean_path path = Inr clean" by (auto simp: ns_resolve_def split: sum.splits)
  with ns_resolve_names [OF c, of "o_nodes fs (disk s)" "vns s" "vst s"] * show "vfs_clean_path path = Inr canon"
    "resolve_names (o_nodes fs (disk s)) (vns s) [] (mounted (vns s) ''/'' [(ns_root (vns s), ''/'')]) (comps canon) = Inr loc"
    by (auto split: sum.splits)
qed

lemma resolve_ok:
  assumes "resolve fs s path = (Inr (loc, canon), s')" "ns_ok (vns s)"
  shows "loc_ok loc" "vfs_clean_path canon = Inr canon" "length canon \<le> VFS_PATH_MAX"
proof -
  show "loc_ok loc"
    by (rule resolve_names_ok [OF assms(2) mounted_ok [OF assms(2) loc_ok_single] resolve_result(2) [OF assms(1)]])
      (simp add: LOCATION_LABEL_MAX_def)
  show "vfs_clean_path canon = Inr canon" "length canon \<le> VFS_PATH_MAX"
    by (rule clean_path_canonical [OF resolve_result(1) [OF assms(1)]], assumption)+
qed

section \<open>References outside\<close>

definition files_held :: "(nat \<rightharpoonup> ofile) \<Rightarrow> vnode \<Rightarrow> u32" where
  "files_held fm u = (\<Sum>a \<in> dom fm. held (f_loc (the (fm a))) u)"

lemma files_held_new: "finite (dom fm) \<Longrightarrow> fm a = None \<Longrightarrow> files_held (fm(a \<mapsto> f)) u = files_held fm u + held (f_loc f) u"
proof -
  assume *: "finite (dom fm)" "fm a = None"
  then have "files_held (fm(a \<mapsto> f)) u = held (f_loc f) u + (\<Sum>b \<in> dom fm. held (f_loc (the ((fm(a \<mapsto> f)) b))) u)"
    by (auto simp: files_held_def domIff)
  also have "(\<Sum>b \<in> dom fm. held (f_loc (the ((fm(a \<mapsto> f)) b))) u) = files_held fm u"
    unfolding files_held_def using *(2) by (intro sum.cong) auto
  finally show ?thesis by (simp only: add.commute)
qed

lemma files_held_gone: "finite (dom fm) \<Longrightarrow> fm a = Some f \<Longrightarrow> files_held (fm(a := None)) u = files_held fm u - held (f_loc f) u"
  using files_held_new [of "fm(a := None)" a f u] by (simp add: fun_upd_idem)

lemma files_held_keep: "finite (dom fm) \<Longrightarrow> fm a = Some f \<Longrightarrow> f_loc f' = f_loc f \<Longrightarrow> files_held (fm(a \<mapsto> f')) u = files_held fm u"
  using files_held_new [of "fm(a := None)" a f' u] files_held_gone [of fm a f u] by simp

text \<open>The references to a vnode that neither the mounts nor the open files hold.\<close>

definition outside :: "'f vfs \<Rightarrow> vnode \<Rightarrow> u32" where
  "outside s u = refs (vst s) u - table_held (ns_mounts (vns s)) u - files_held (files s) u"

definition step_ok :: "'f fs_ops \<Rightarrow> 'f vfs \<Rightarrow> 'f vfs \<Rightarrow> (vnode \<Rightarrow> u32) \<Rightarrow> bool" where
  "step_ok fs s s' g \<longleftrightarrow> vfs_ok fs s' \<and> (\<forall>u. outside s' u = outside s u + g u)"

lemma step_moves: "vfs_ok fs s \<Longrightarrow> moves s s' g \<Longrightarrow> step_ok fs s s' g"
  by (simp add: step_ok_def vfs_ok_def moves_def outside_def)

lemma step_new_file:
  assumes "vfs_ok fs s" "moves s s1 g" "files s a = None" "file_ok fs f"
  shows "step_ok fs s (s1\<lparr>files := (files s1)(a \<mapsto> f)\<rparr>) (\<lambda>u. g u - held (f_loc f) u)"
  using assms by (auto simp: step_ok_def vfs_ok_def moves_def outside_def files_held_new ran_def)

lemma step_file:
  assumes "vfs_ok fs s" "files s a = Some f" "f_loc f' = f_loc f" "f_mode f' = f_mode f" "f_name f' = f_name f" "f_member f' \<le> length (f_loc f)"
  shows "step_ok fs s (s\<lparr>disk := d, files := (files s)(a \<mapsto> f')\<rparr>) (\<lambda>u. 0)"
proof -
  have "file_ok fs f" using assms by (auto simp: vfs_ok_def ran_def)
  then have "file_ok fs f'" using assms(3-) by (simp add: file_ok_def can_write_def)
  with assms show ?thesis by (auto simp: step_ok_def vfs_ok_def outside_def files_held_keep ran_def)
qed

lemma file_okD: "vfs_ok fs s \<Longrightarrow> files s a = Some f \<Longrightarrow> file_ok fs f"
  by (auto simp: vfs_ok_def ran_def)

section \<open>Each call\<close>

lemma open_check_write:
  assumes "open_check fs s v acc flags existed = (Inr x, s')" "acc \<noteq> OREAD" "\<And>v. o_truncate fs v \<noteq> None \<Longrightarrow> o_write fs v \<noteq> None"
  shows "o_write fs v \<noteq> None"
  using assms by (auto simp: open_check_def split: if_splits option.splits)

lemma open_find_ok:
  assumes "open_find fs s path flags = (Inr (loc, canon), existed, s')" "ns_ok (vns s)"
  shows "loc_ok loc"
proof -
  obtain r s1 where r: "resolve fs s path = (r, s1)" by (cases "resolve fs s path")
  have "loc_ok [(v, [])]" for v by (rule loc_ok_single) (simp add: LOCATION_LABEL_MAX_def)
  with assms r resolve_ok(1) [of fs s path loc canon s'] show ?thesis
    by (cases r) (auto simp: open_find_def split: if_splits sum.splits prod.splits)
qed

lemma file_ok_new: "loc_ok loc \<Longrightarrow> (mode = OWRITE \<or> mode = ORDWR \<Longrightarrow> o_write fs (first loc) \<noteq> None) \<Longrightarrow> file_ok fs (new_file mode name loc)"
  by (auto simp: file_ok_def new_file_def can_write_def)

text \<open>The part of an open that follows the check of its mode.\<close>

definition open_at :: "'f fs_ops \<Rightarrow> 'f vfs \<Rightarrow> nat \<Rightarrow> string \<Rightarrow> u32 \<Rightarrow> u32 \<Rightarrow> nat result \<times> 'f vfs" where
  "open_at fs s a path acc flags = (case open_find fs s path flags of
      (Inl e, existed, s2) \<Rightarrow> (Inl e, s2)
    | (Inr (loc, canon), existed, s2) \<Rightarrow> (case open_check fs s2 (first loc) acc flags existed of
        (Inl e, s3) \<Rightarrow> (Inl e, release fs loc s3)
      | (Inr _, s3) \<Rightarrow>
          let slash = (case last_slash canon 0 None of None \<Rightarrow> 0 | Some i \<Rightarrow> i);
              name = (if length canon > 1 then drop (slash + 1) canon else ''/'')
          in (Inr a, s3\<lparr>files := (files s3)(a \<mapsto> new_file acc name loc)\<rparr>)))"

lemma vfs_open_at:
  "vfs_open fs s addr path mode = (Inl EINVAL, s) \<or> vfs_open fs s addr path mode = (Inl ENOMEM, s) \<or>
   (\<exists>a. addr = Some a \<and> vfs_open fs s addr path mode = open_at fs s a path (mode AND 3) (mode AND NOT 3))"
  unfolding vfs_open_def open_at_def Let_def by (cases addr) simp_all

lemma open_at_cases:
  assumes "open_at fs s a path acc flags = (res, s')"
  obtains (fails) e where "res = Inl e" "moves s s' (\<lambda>u. 0)"
  | (opens) s2 s3 loc canon existed name where "res = Inr a"
      "open_find fs s path flags = (Inr (loc, canon), existed, s2)"
      "open_check fs s2 (first loc) acc flags existed = (Inr (), s3)"
      "moves s s3 (held loc)" "s' = s3\<lparr>files := (files s3)(a \<mapsto> new_file acc name loc)\<rparr>"
proof -
  obtain r existed s2 where o: "open_find fs s path flags = (r, existed, s2)" by (metis prod_cases3)
  note m = moves_open_find [OF o]
  show thesis
  proof (cases r)
    case (Inl e)
    with assms o m show thesis by (intro fails [of e]) (auto simp: open_at_def elim!: moves_eq)
  next
    case (Inr x)
    obtain loc canon where x: "x = (loc, canon)" by (cases x)
    obtain rc s3 where c: "open_check fs s2 (first loc) acc flags existed = (rc, s3)"
      by (cases "open_check fs s2 (first loc) acc flags existed")
    have m3: "moves s s3 (held loc)" using moves_trans [OF m moves_open_check [OF c]] Inr x by (auto elim!: moves_eq)
    show thesis
    proof (cases rc)
      case (Inl e)
      have "moves s (release fs loc s3) (\<lambda>u. 0)" using moves_trans [OF m3 moves_release [of s3 fs loc]] by simp
      with assms o Inr x c Inl show thesis by (intro fails [of e]) (auto simp: open_at_def)
    next
      case (Inr y)
      with assms o \<open>r = Inr x\<close> x c m3 show thesis by (intro opens [of loc canon existed s2 s3]) (auto simp: open_at_def Let_def)
    qed
  qed
qed

lemma step_open_at:
  assumes "open_at fs s a path acc flags = (res, s')" "vfs_ok fs s" "files s a = None"
    "\<And>v. o_truncate fs v \<noteq> None \<Longrightarrow> o_write fs v \<noteq> None"
  shows "step_ok fs s s' (\<lambda>u. 0) \<and> (\<forall>b. res = Inr b \<longrightarrow> (\<exists>f. files s' b = Some f))"
  using assms(1)
proof (cases rule: open_at_cases)
  case (fails e)
  then show ?thesis using step_moves [OF assms(2)] by simp
next
  case (opens s2 s3 loc canon existed name)
  have w: "acc = OWRITE \<or> acc = ORDWR \<Longrightarrow> o_write fs (first loc) \<noteq> None"
    by (rule open_check_write [OF opens(3) _ assms(4)]) (auto simp: OREAD_def OWRITE_def ORDWR_def)
  have "loc_ok loc" using open_find_ok [OF opens(2)] assms(2) by (simp add: vfs_ok_def)
  from step_new_file [OF assms(2) opens(4) assms(3) file_ok_new [OF this w]] opens(1,5)
  show ?thesis by (simp add: new_file_def)
qed

lemma step_open:
  assumes "vfs_open fs s addr path mode = (res, s')" "vfs_ok fs s" "\<And>a. addr = Some a \<Longrightarrow> files s a = None"
    "\<And>v. o_truncate fs v \<noteq> None \<Longrightarrow> o_write fs v \<noteq> None"
  shows "step_ok fs s s' (\<lambda>u. 0) \<and> (\<forall>b. res = Inr b \<longrightarrow> (\<exists>f. files s' b = Some f))"
  using vfs_open_at [of fs s addr path mode] step_open_at [OF _ assms(2) assms(3) assms(4)] step_moves [OF assms(2) moves_refl]
  unfolding assms(1) by (metis Pair_inject sum.distinct(1))

lemma step_open_vnode:
  assumes "vfs_open_vnode s addr v mode name = (res, s')" "vfs_ok fs s" "\<And>a. addr = Some a \<Longrightarrow> files s a = None"
    "mode = OWRITE \<or> mode = ORDWR \<Longrightarrow> o_write fs v \<noteq> None"
  shows "step_ok fs s s' (\<lambda>u. if addr \<noteq> None \<and> u = v then - 1 else 0)"
proof (cases addr)
  case None
  with assms show ?thesis by (auto simp: vfs_open_vnode_def intro: step_moves)
next
  case (Some a)
  have "file_ok fs (new_file mode name [(v, [])])"
    using assms(4) by (intro file_ok_new loc_ok_single) (auto simp: LOCATION_LABEL_MAX_def first_def)
  from step_new_file [OF assms(2) moves_refl assms(3) [OF Some] this] assms(1) Some show ?thesis
    by (auto simp: vfs_open_vnode_def new_file_def step_ok_def)
qed

lemma step_dup: "vfs_ok fs s \<Longrightarrow> files s a = Some f \<Longrightarrow> step_ok fs s (vfs_dup s a) (\<lambda>u. 0)"
  using step_file [of fs s a f "f\<lparr>f_refs := f_refs f + 1\<rparr>" "disk s"] file_okD [of fs s a f]
  by (simp add: vfs_dup_def file_ok_def)

lemma step_close: "vfs_ok fs s \<Longrightarrow> files s a = Some f \<Longrightarrow> step_ok fs s (vfs_close fs s a) (\<lambda>u. 0)"
proof -
  assume *: "vfs_ok fs s" "files s a = Some f"
  show ?thesis
  proof (cases "f_refs f - 1 = 0")
    case True
    have "ran ((files s)(a := None)) \<subseteq> ran (files s)" by (auto simp: ran_def)
    with True * files_held_gone [of "files s" a f] show ?thesis
      by (auto simp: vfs_close_def step_ok_def vfs_ok_def outside_def release_def)
  next
    case False
    with * step_file [of fs s a f "f\<lparr>f_refs := f_refs f - 1\<rparr>" "disk s"] file_okD [of fs s a f]
    show ?thesis by (simp add: vfs_close_def file_ok_def)
  qed
qed

lemma step_fileattr:
  assumes "vfs_fileattr fs s addr path attr set_attr = (res, attr', s')" "vfs_ok fs s" "\<And>a. addr = Some a \<Longrightarrow> files s a = None"
    "\<And>v. o_truncate fs v \<noteq> None \<Longrightarrow> o_write fs v \<noteq> None"
  shows "step_ok fs s s' (\<lambda>u. 0)"
proof -
  obtain r s1 where o: "vfs_open fs s addr path OREAD = (r, s1)" by (cases "vfs_open fs s addr path OREAD")
  note st = step_open [OF o assms(2-4)]
  show ?thesis
  proof (cases r)
    case (Inl e)
    with assms(1) o st show ?thesis by (simp add: vfs_fileattr_def)
  next
    case (Inr a)
    obtain d where s': "s' = vfs_close fs (s1\<lparr>disk := d\<rparr>) a"
      using assms(1) o Inr by (cases "o_fileattr fs (vfs_vnode s1 a)") (auto simp: vfs_fileattr_def split: prod.splits intro: that [of "disk s1"] that)
    have "\<exists>f. files (s1\<lparr>disk := d\<rparr>) a = Some f" using st Inr by simp
    moreover have "vfs_ok fs (s1\<lparr>disk := d\<rparr>)" using st by (simp add: step_ok_def vfs_ok_def)
    ultimately show ?thesis using step_close [of fs "s1\<lparr>disk := d\<rparr>" a] st unfolding s' by (auto simp: step_ok_def outside_def)
  qed
qed

lemma readdir_loop_keeps:
  "readdir_loop fs d f = (r, f') \<Longrightarrow> f_member f \<le> length (f_loc f) \<Longrightarrow>
    f_loc f' = f_loc f \<and> f_mode f' = f_mode f \<and> f_name f' = f_name f \<and> f_member f' \<le> length (f_loc f)"
proof (induction fs d f rule: readdir_loop.induct)
  case (1 fs d f)
  from 1(2,3) 1(1) [OF _ refl refl] show ?case
    by (subst (asm) (1) readdir_loop.simps) (auto simp add: Let_def split: if_splits option.splits sum.splits)
qed

lemma readdir_file_keeps:
  "readdir_file fs d f = (r, f') \<Longrightarrow> f_member f \<le> length (f_loc f) \<Longrightarrow>
    f_loc f' = f_loc f \<and> f_mode f' = f_mode f \<and> f_name f' = f_name f \<and> f_member f' \<le> length (f_loc f)"
  by (auto simp: readdir_file_def split: if_splits dest: readdir_loop_keeps)

lemma skip_entries_keeps:
  "skip_entries fs d entry f = (r, f') \<Longrightarrow> f_member f \<le> length (f_loc f) \<Longrightarrow>
    f_loc f' = f_loc f \<and> f_mode f' = f_mode f \<and> f_name f' = f_name f \<and> f_member f' \<le> length (f_loc f)"
proof (induction fs d entry f rule: skip_entries.induct)
  case (1 fs d entry f)
  obtain x f1 where x: "readdir_file fs d f = (x, f1)" by (cases "readdir_file fs d f")
  have k: "f_loc f1 = f_loc f \<and> f_mode f1 = f_mode f \<and> f_name f1 = f_name f \<and> f_member f1 \<le> length (f_loc f)"
    using readdir_file_keeps [OF x 1(3)] .
  show ?case
  proof (cases "\<exists>y. f_entry f < entry \<and> x = Inr (Some y)")
    case True
    with 1(2) x have "skip_entries fs d entry f1 = (r, f')" by (subst (asm) skip_entries.simps) auto
    with 1(1) [OF _ x [symmetric]] True k show ?thesis by auto
  next
    case False
    with 1(2,3) x k show ?thesis
      by (subst (asm) skip_entries.simps) (auto split: if_splits sum.splits option.splits)
  qed
qed

lemma step_readdir: "vfs_readdir fs s a = (r, s') \<Longrightarrow> vfs_ok fs s \<Longrightarrow> files s a = Some f \<Longrightarrow> step_ok fs s s' (\<lambda>u. 0)"
proof -
  assume *: "vfs_readdir fs s a = (r, s')" "vfs_ok fs s" "files s a = Some f"
  obtain x f1 where x: "readdir_file fs (disk s) f = (x, f1)" by (cases "readdir_file fs (disk s) f")
  with readdir_file_keeps [OF x] * step_file [of fs s a f f1 "disk s"] file_okD [of fs s a f]
  show ?thesis by (auto simp: vfs_readdir_def file_ok_def)
qed

lemma step_trans: "step_ok fs s s1 g \<Longrightarrow> step_ok fs s1 s2 h \<Longrightarrow> step_ok fs s s2 (\<lambda>u. g u + h u)"
  by (simp add: step_ok_def add.assoc)

lemma step_readdir_at: "vfs_readdir_at fs s a entry = (r, s') \<Longrightarrow> vfs_ok fs s \<Longrightarrow> files s a = Some f \<Longrightarrow> step_ok fs s s' (\<lambda>u. 0)"
proof -
  assume *: "vfs_readdir_at fs s a entry = (r, s')" "vfs_ok fs s" "files s a = Some f"
  define f1 where "f1 = (if entry < f_entry f then f\<lparr>f_member := 0, f_index := 0, f_entry := 0\<rparr> else f)"
  obtain x f2 where x: "skip_entries fs (disk s) entry f1 = (x, f2)" by (cases "skip_entries fs (disk s) entry f1")
  define s1 where "s1 = s\<lparr>files := (files s)(a \<mapsto> f2)\<rparr>"
  have "f_member f1 \<le> length (f_loc f1)" "f_loc f1 = f_loc f" "f_mode f1 = f_mode f" "f_name f1 = f_name f"
    using file_okD [OF *(2,3)] by (auto simp: f1_def file_ok_def)
  with skip_entries_keeps [OF x] step_file [OF *(2,3), of f2 "disk s"] have s1: "step_ok fs s s1 (\<lambda>u. 0)" "files s1 a = Some f2"
    by (simp_all add: s1_def)
  have "s' = s1 \<or> vfs_readdir fs s1 a = (r, s')"
    using * x by (auto simp: vfs_readdir_at_def f1_def [symmetric] s1_def [symmetric] Let_def split: sum.splits bool.splits)
  then show ?thesis
  proof
    assume "vfs_readdir fs s1 a = (r, s')"
    from step_trans [OF s1(1) step_readdir [OF this _ s1(2)]] s1 show ?thesis by (simp add: step_ok_def)
  qed (use s1 in simp)
qed

lemma step_same: "vfs_ok fs s \<Longrightarrow> step_ok fs s s (\<lambda>u. 0)"
  by (rule step_moves) simp_all

lemma step_disk: "vfs_ok fs s \<Longrightarrow> step_ok fs s (s\<lparr>disk := d\<rparr>) (\<lambda>u. 0)"
  by (rule step_moves) simp_all

lemma step_read: "vfs_read fs s a len = (r, s') \<Longrightarrow> vfs_ok fs s \<Longrightarrow> files s a = Some f \<Longrightarrow> step_ok fs s s' (\<lambda>u. 0)"
  using file_okD [of fs s a f]
  by (auto simp: vfs_read_def Let_def file_ok_def split: if_splits option.splits prod.splits sum.splits intro!: step_same step_disk step_file)

lemma step_pread: "vfs_pread fs s a len offset = (r, s') \<Longrightarrow> vfs_ok fs s \<Longrightarrow> step_ok fs s s' (\<lambda>u. 0)"
  by (auto simp: vfs_pread_def Let_def split: if_splits option.splits prod.splits intro!: step_same step_disk)

lemma step_write:
  "vfs_ok fs s \<Longrightarrow> files s a = Some f \<Longrightarrow> \<exists>r s'. vfs_write fs s a buf = Some (r, s') \<and> step_ok fs s s' (\<lambda>u. 0)"
  using file_okD [of fs s a f]
  by (auto simp: vfs_write_def Let_def file_ok_def split: option.splits prod.splits sum.splits intro!: step_same step_disk step_file)

lemma step_pwrite:
  "vfs_ok fs s \<Longrightarrow> files s a = Some f \<Longrightarrow> \<exists>r s'. vfs_pwrite fs s a buf offset = Some (r, s') \<and> step_ok fs s s' (\<lambda>u. 0)"
  using file_okD [of fs s a f]
  by (auto simp: vfs_pwrite_def Let_def file_ok_def split: option.splits prod.splits intro!: step_same step_disk)

lemma step_seek: "vfs_seek fs s a offset whence = (r, s') \<Longrightarrow> vfs_ok fs s \<Longrightarrow> files s a = Some f \<Longrightarrow> step_ok fs s s' (\<lambda>u. 0)"
  using file_okD [of fs s a f] step_file [of fs s a f _ "disk s"]
  by (auto simp: vfs_seek_def Let_def file_ok_def split: if_splits intro!: step_same)

lemma list_all_replace_mount: "list_all P ms \<Longrightarrow> P (p, l) \<Longrightarrow> list_all P (replace_mount p l ms)"
  by (induction ms) auto

lemma list_all_delete_mount: "list_all P ms \<Longrightarrow> list_all P (delete_mount p ms)"
  by (induction ms) auto

lemma set_mount_ns_ok:
  assumes "ns_ok ns" "vfs_clean_path p = Inr p" "length p \<le> VFS_PATH_MAX" "loc_ok loc"
  shows "ns_ok (fst (snd (ns_set_mount vs ok ns p loc st)))"
proof -
  have "list_all (\<lambda>(path, loc). vfs_clean_path path = Inr path \<and> loc_ok loc) (ns_mounts (fst (snd (ns_set_mount vs ok ns p loc st))))"
    using assms by (auto simp: ns_set_mount_def ns_ok_def list_all_replace_mount split: option.split)
  with set_mount_ok [of ns p] assms show ?thesis by (simp add: ns_ok_def)
qed

lemma remove_mount_ns_ok: "ns_ok ns \<Longrightarrow> ns_ok (fst (snd (ns_remove_mount vs ns p st)))"
  using remove_mount_ok [of ns vs p st]
  by (auto simp: ns_ok_def ns_remove_mount_def list_all_delete_mount split: option.splits)

lemma bound_ok: "loc_ok from \<Longrightarrow> loc_ok onto \<Longrightarrow> length (bound flag from onto) \<le> VFS_UNION_MAX \<Longrightarrow> loc_ok (bound flag from onto)"
  by (auto simp: loc_ok_def bound_def Let_def split: if_splits)

lemma step_bind_result:
  assumes "bind_result fs s ok from onto canon flag = (r, s')" "vfs_ok fs s" "loc_ok from" "loc_ok onto"
    "vfs_clean_path canon = Inr canon" "length canon \<le> VFS_PATH_MAX"
  shows "step_ok fs s s' (\<lambda>u. 0)"
proof (cases "s' = s")
  case True
  with assms(2) show ?thesis by (simp add: step_same)
next
  case False
  let ?b = "bound flag from onto"
  define st where "st = fold (\<lambda>(v, l). vnode_ref v) ?b (vst s)"
  obtain rc ns st1 where m: "ns_set_mount (o_nodes fs (disk s)) ok (vns s) canon ?b st = (rc, ns, st1)" by (metis prod_cases3)
  have s': "s' = s\<lparr>vns := ns, vst := st1\<rparr>" and l: "length ?b \<le> VFS_UNION_MAX"
    using assms(1) False m by (auto simp: bind_result_def st_def [symmetric] Let_def split: if_splits)
  have "ns_ok ns" using set_mount_ns_ok [of "vns s" canon ?b "o_nodes fs (disk s)" ok st] bound_ok [OF assms(3,4) l] assms m
    by (simp add: vfs_ok_def)
  moreover have "refs st1 u - table_held (ns_mounts ns) u = refs (vst s) u - table_held (ns_mounts (vns s)) u" for u
    using mount_step_refs(1) [of "o_nodes fs (disk s)" "(canon, Some (ok, ?b))" "vns s" st rc ns st1 u] m
    by (simp add: mount_step_def op_held_def st_def location_copy_refs)
  ultimately show ?thesis using assms(2) by (simp add: s' step_ok_def vfs_ok_def outside_def)
qed

lemma step_bind_locations:
  assumes "bind_locations fs s ok from onto canon flag = (r, s')" "vfs_ok fs s" "loc_ok from" "loc_ok onto"
    "vfs_clean_path canon = Inr canon" "length canon \<le> VFS_PATH_MAX"
  shows "step_ok fs s s' (\<lambda>u. - held from u - held onto u)"
proof -
  obtain rc s1 where b: "bind_result fs s ok from onto canon flag = (rc, s1)" by (cases "bind_result fs s ok from onto canon flag")
  note st = step_bind_result [OF b assms(2-6)]
  have "moves s1 s' (\<lambda>u. - held from u - held onto u)"
    using moves_trans [OF moves_release [of s1 fs "from"] moves_release [of "release fs from s1" fs onto]] assms(1) b
    by (auto simp: bind_locations_def)
  from step_trans [OF st step_moves [OF _ this]] st show ?thesis by (simp add: step_ok_def)
qed

lemma step_bind:
  assumes "vfs_bind fs s ok new_path old_path flag = (r, s')" "vfs_ok fs s"
  shows "step_ok fs s s' (\<lambda>u. 0)"
proof -
  obtain x s1 where x: "resolve fs s new_path = (x, s1)" by (cases "resolve fs s new_path")
  note m1 = conjunct1 [OF moves_resolve [OF x]]
  show ?thesis
  proof (cases x)
    case (Inl e)
    with assms x step_moves [OF assms(2) m1] show ?thesis by (auto simp: vfs_bind_def step_ok_def)
  next
    case (Inr p)
    obtain "from" c where p: "p = (from, c)" by (cases p)
    obtain y s2 where y: "resolve fs s1 old_path = (y, s2)" by (cases "resolve fs s1 old_path")
    note m2 = conjunct1 [OF moves_resolve [OF y]]
    have n: "ns_ok (vns s)" "ns_ok (vns s1)" using assms(2) m1 by (auto simp: vfs_ok_def moves_def)
    show ?thesis
    proof (cases y)
      case (Inl e)
      have "moves s (release fs from s2) (\<lambda>u. 0)"
        using moves_trans [OF moves_trans [OF m1 m2] moves_release [of s2 fs "from"]] Inl p \<open>x = Inr p\<close> by (auto elim!: moves_eq)
      with assms x y Inl p \<open>x = Inr p\<close> step_moves [OF assms(2)] show ?thesis by (auto simp: vfs_bind_def)
    next
      case (Inr q)
      obtain onto canon where q: "q = (onto, canon)" by (cases q)
      have b: "bind_locations fs s2 ok from onto canon flag = (r, s')"
        using assms(1) x y Inr p q \<open>x = Inr p\<close> by (simp add: vfs_bind_def)
      have st: "step_ok fs s s2 (\<lambda>u. held from u + held onto u)"
        using step_moves [OF assms(2) moves_trans [OF m1 m2]] Inr p q \<open>x = Inr p\<close> by (simp add: step_ok_def)
      have "step_ok fs s2 s' (\<lambda>u. - held from u - held onto u)"
        by (rule step_bind_locations [OF b]) (use st resolve_ok(1) [OF x [unfolded \<open>x = Inr p\<close> p] n(1)]
            resolve_ok [OF y [unfolded Inr q] n(2)] in \<open>auto simp: step_ok_def\<close>)
      from step_trans [OF st this] show ?thesis by (simp add: step_ok_def)
    qed
  qed
qed

lemma step_mount:
  assumes "vfs_mount fs s ok root label old_path flag = (r, s')" "vfs_ok fs s"
  shows "step_ok fs s s' (\<lambda>u. 0)"
proof -
  obtain x s1 where x: "resolve fs s old_path = (x, s1)" by (cases "resolve fs s old_path")
  note m1 = conjunct1 [OF moves_resolve [OF x]]
  show ?thesis
  proof (cases x)
    case (Inl e)
    with assms x step_moves [OF assms(2) m1] show ?thesis by (auto simp: vfs_mount_def step_ok_def)
  next
    case (Inr p)
    obtain onto canon where p: "p = (onto, canon)" by (cases p)
    have b: "bind_locations fs (take_ref root s1) ok [(root, set_label label)] onto canon flag = (r, s')"
      using assms(1) x Inr p by (simp add: vfs_mount_def)
    have st: "step_ok fs s (take_ref root s1) (\<lambda>u. held onto u + held [(root, set_label label)] u)"
      using step_moves [OF assms(2) moves_trans [OF m1 moves_take_ref]] Inr p by (simp add: step_ok_def)
    have "step_ok fs (take_ref root s1) s' (\<lambda>u. - held [(root, set_label label)] u - held onto u)"
      by (rule step_bind_locations [OF b]) (use st resolve_ok [OF x [unfolded Inr p]] assms(2) in \<open>auto simp: step_ok_def vfs_ok_def loc_ok_single\<close>)
    from step_trans [OF st this] show ?thesis by (simp add: step_ok_def)
  qed
qed

lemma step_unbind: "vfs_unbind fs s path = (r, s') \<Longrightarrow> vfs_ok fs s \<Longrightarrow> step_ok fs s s' (\<lambda>u. 0)"
proof -
  assume *: "vfs_unbind fs s path = (r, s')" "vfs_ok fs s"
  show ?thesis
  proof (cases "vfs_clean_path path")
    case (Inl e)
    with * show ?thesis by (auto simp: vfs_unbind_def intro: step_same)
  next
    case (Inr canon)
    obtain rc ns st where m: "ns_remove_mount (o_nodes fs (disk s)) (vns s) canon (vst s) = (rc, ns, st)" by (metis prod_cases3)
    have "refs st u - table_held (ns_mounts ns) u = refs (vst s) u - table_held (ns_mounts (vns s)) u" for u
      using mount_step_refs(1) [of "o_nodes fs (disk s)" "(canon, None)" "vns s" "vst s" rc ns st u] m
      by (simp add: mount_step_def op_held_def)
    with * Inr m remove_mount_ns_ok [of "vns s" "o_nodes fs (disk s)" canon "vst s"] show ?thesis
      by (auto simp: vfs_unbind_def step_ok_def vfs_ok_def outside_def)
  qed
qed

section \<open>Sequences of calls\<close>

text \<open>
  The calls that change the state, with what \<open>kmalloc\<close> answers where they allocate: an address for
  an open file, whether there is memory for an entry of the mount table.
\<close>

datatype call =
    Open "nat option" string u32
  | Open_Vnode "nat option" vnode u32 string
  | Dup nat
  | Close nat
  | Read nat nat
  | Pread nat nat u32
  | Write nat "u8 list"
  | Pwrite nat "u8 list" u32
  | Seek nat u32 u32
  | Readdir nat
  | Readdir_At nat u32
  | Create string vnode_type
  | Unlink string
  | Rmdir string
  | Rename string string
  | Fileattr "nat option" string u8 bool
  | Bind bool string string bind_flag
  | Mount bool vnode string string bind_flag
  | Unbind string

text \<open>
  The state after a call and the references it hands to its caller: one on what it creates, and one
  less on a vnode whose reference it takes over. \<open>None\<close> is a call through a null pointer.
\<close>

fun vfs_call :: "'f fs_ops \<Rightarrow> 'f vfs \<Rightarrow> call \<Rightarrow> ('f vfs \<times> (vnode \<Rightarrow> u32)) option" where
  "vfs_call fs s (Open addr path mode) = Some (snd (vfs_open fs s addr path mode), \<lambda>u. 0)"
| "vfs_call fs s (Open_Vnode addr v mode name) =
     Some (snd (vfs_open_vnode s addr v mode name), \<lambda>u. if addr \<noteq> None \<and> u = v then - 1 else 0)"
| "vfs_call fs s (Dup a) = Some (vfs_dup s a, \<lambda>u. 0)"
| "vfs_call fs s (Close a) = Some (vfs_close fs s a, \<lambda>u. 0)"
| "vfs_call fs s (Read a len) = Some (snd (vfs_read fs s a len), \<lambda>u. 0)"
| "vfs_call fs s (Pread a len offset) = Some (snd (vfs_pread fs s a len offset), \<lambda>u. 0)"
| "vfs_call fs s (Write a buf) = map_option (\<lambda>r. (snd r, \<lambda>u. 0)) (vfs_write fs s a buf)"
| "vfs_call fs s (Pwrite a buf offset) = map_option (\<lambda>r. (snd r, \<lambda>u. 0)) (vfs_pwrite fs s a buf offset)"
| "vfs_call fs s (Seek a offset whence) = Some (snd (vfs_seek fs s a offset whence), \<lambda>u. 0)"
| "vfs_call fs s (Readdir a) = Some (snd (vfs_readdir fs s a), \<lambda>u. 0)"
| "vfs_call fs s (Readdir_At a entry) = Some (snd (vfs_readdir_at fs s a entry), \<lambda>u. 0)"
| "vfs_call fs s (Create path type) =
     (let (res, s') = vfs_create fs s path type in Some (s', got res (\<lambda>v. held [(v, [])])))"
| "vfs_call fs s (Unlink path) = Some (snd (vfs_unlink fs s path), \<lambda>u. 0)"
| "vfs_call fs s (Rmdir path) = Some (snd (vfs_rmdir fs s path), \<lambda>u. 0)"
| "vfs_call fs s (Rename from to) = Some (snd (vfs_rename fs s from to), \<lambda>u. 0)"
| "vfs_call fs s (Fileattr addr path attr set_attr) = Some (snd (snd (vfs_fileattr fs s addr path attr set_attr)), \<lambda>u. 0)"
| "vfs_call fs s (Bind ok new_path old_path flag) = Some (snd (vfs_bind fs s ok new_path old_path flag), \<lambda>u. 0)"
| "vfs_call fs s (Mount ok root label old_path flag) = Some (snd (vfs_mount fs s ok root label old_path flag), \<lambda>u. 0)"
| "vfs_call fs s (Unbind path) = Some (snd (vfs_unbind fs s path), \<lambda>u. 0)"

text \<open>
  What the callers and \<open>kmalloc\<close> keep to: a file that is used is open, an allocated address is that
  of no open file, and a vnode opened for writing without a path has a write operation.
\<close>

fun allowed :: "'f fs_ops \<Rightarrow> 'f vfs \<Rightarrow> call \<Rightarrow> bool" where
  "allowed fs s (Open addr path mode) \<longleftrightarrow> Option.is_none (Option.bind addr (files s))"
| "allowed fs s (Fileattr addr path attr set_attr) \<longleftrightarrow> Option.is_none (Option.bind addr (files s))"
| "allowed fs s (Open_Vnode addr v mode name) \<longleftrightarrow>
     Option.is_none (Option.bind addr (files s)) \<and> (mode = OREAD \<or> \<not> Option.is_none (o_write fs v))"
| "allowed fs s (Dup a) \<longleftrightarrow> files s a \<noteq> None"
| "allowed fs s (Close a) \<longleftrightarrow> files s a \<noteq> None"
| "allowed fs s (Read a len) \<longleftrightarrow> files s a \<noteq> None"
| "allowed fs s (Pread a len offset) \<longleftrightarrow> files s a \<noteq> None"
| "allowed fs s (Write a buf) \<longleftrightarrow> files s a \<noteq> None"
| "allowed fs s (Pwrite a buf offset) \<longleftrightarrow> files s a \<noteq> None"
| "allowed fs s (Seek a offset whence) \<longleftrightarrow> files s a \<noteq> None"
| "allowed fs s (Readdir a) \<longleftrightarrow> files s a \<noteq> None"
| "allowed fs s (Readdir_At a entry) \<longleftrightarrow> files s a \<noteq> None"
| "allowed fs s _ \<longleftrightarrow> True"

text \<open>The states along a sequence of calls, each allowed where it is made.\<close>

inductive calls :: "'f fs_ops \<Rightarrow> 'f vfs \<Rightarrow> call list \<Rightarrow> 'f vfs \<Rightarrow> (vnode \<Rightarrow> u32) \<Rightarrow> bool" for fs where
  no_call: "calls fs s [] s (\<lambda>u. 0)"
| one_more: "calls fs s cs s1 g \<Longrightarrow> allowed fs s1 c \<Longrightarrow> vfs_call fs s1 c = Some (s2, h) \<Longrightarrow> calls fs s (cs @ [c]) s2 (\<lambda>u. g u + h u)"

definition fs_writes :: "'f fs_ops \<Rightarrow> bool" where
  "fs_writes fs \<longleftrightarrow> (\<forall>v. o_truncate fs v \<noteq> None \<longrightarrow> o_write fs v \<noteq> None)"

lemma fresh_addr: "Option.is_none (Option.bind addr fm) \<Longrightarrow> (\<And>a. addr = Some a \<Longrightarrow> fm a = None)"
  by (cases addr) (simp_all add: Option.is_none_def)

text \<open>A call on a well-formed state does not jump through a null pointer, keeps the state
  well-formed and accounts for its references.\<close>

lemma call_step:
  assumes ok: "vfs_ok fs s" and al: "allowed fs s c" and w: "fs_writes fs"
  shows "\<exists>s' g. vfs_call fs s c = Some (s', g) \<and> step_ok fs s s' g"
proof -
  have w': "\<And>v. o_truncate fs v \<noteq> None \<Longrightarrow> o_write fs v \<noteq> None" using w by (simp add: fs_writes_def)
  note pair = prod.collapse [symmetric]
  show ?thesis
  proof (cases c)
    case (Open addr path mode)
    then have fresh: "\<And>a. addr = Some a \<Longrightarrow> files s a = None" using al fresh_addr [of addr "files s"] by simp
    obtain r s' where o: "vfs_open fs s addr path mode = (r, s')" by (cases "vfs_open fs s addr path mode")
    from step_open [OF o ok fresh w'] Open o show ?thesis by simp
  next
    case (Open_Vnode addr v mode name)
    have "mode = OWRITE \<or> mode = ORDWR \<Longrightarrow> o_write fs v \<noteq> None"
      using al Open_Vnode by (auto simp: Option.is_none_def OREAD_def OWRITE_def ORDWR_def)
    moreover have fresh: "\<And>a. addr = Some a \<Longrightarrow> files s a = None" using al Open_Vnode fresh_addr [of addr "files s"] by simp
    obtain r s' where o: "vfs_open_vnode s addr v mode name = (r, s')" by (cases "vfs_open_vnode s addr v mode name")
    ultimately show ?thesis using step_open_vnode [OF o ok fresh] Open_Vnode by simp
  next
    case (Fileattr addr path attr set_attr)
    then have fresh: "\<And>a. addr = Some a \<Longrightarrow> files s a = None" using al fresh_addr [of addr "files s"] by simp
    obtain r x s' where o: "vfs_fileattr fs s addr path attr set_attr = (r, x, s')" by (metis prod_cases3)
    from step_fileattr [OF o ok fresh w'] Fileattr o show ?thesis by simp
  next
    case (Create path type)
    obtain r s' where c: "vfs_create fs s path type = (r, s')" by (cases "vfs_create fs s path type")
    with Create step_moves [OF ok moves_create [OF c]] show ?thesis by simp
  next
    case (Write a buf)
    then obtain f where "files s a = Some f" using al by auto
    from step_write [OF ok this, of buf] Write show ?thesis by auto
  next
    case (Pwrite a buf offset)
    then obtain f where "files s a = Some f" using al by auto
    from step_pwrite [OF ok this, of buf offset] Pwrite show ?thesis by auto
  qed (use al ok in \<open>auto simp: vfs_unlink_def vfs_rmdir_def
        intro: step_dup step_close step_pread [OF pair] step_read [OF pair] step_seek [OF pair] step_readdir [OF pair]
          step_readdir_at [OF pair] step_moves [OF _ moves_remove [OF pair]] step_moves [OF _ moves_rename [OF pair]]
          step_bind [OF pair] step_mount [OF pair] step_unbind [OF pair]\<close>)
qed

lemma calls_step: "calls fs s cs s' g \<Longrightarrow> vfs_ok fs s \<Longrightarrow> fs_writes fs \<Longrightarrow> step_ok fs s s' g"
proof (induction rule: calls.induct)
  case (one_more s cs s1 g c s2 h)
  then have st: "step_ok fs s s1 g" by simp
  then have "step_ok fs s1 s2 h" using call_step [of fs s1 c] one_more by (auto simp: step_ok_def)
  with st show ?case by (rule step_trans)
qed (simp add: step_same)

section \<open>Correctness\<close>

text \<open>C9: The state stays well-formed. Whatever sequence of opens, reads, writes, seeks, listings,
  creations, removals, renames, binds, mounts and unbinds is made, with files used only while open,
  every mount is of a clean path that fits its buffer and appears once, every union there or in an
  open file has between one and eight members with labels that fit, every name fits, the listing
  cursor stays within the union, and a file open for writing has a write operation. No call made in
  such a state jumps through a null pointer. The file systems that can truncate can write.\<close>

theorem vfs_type_safe:
  assumes "calls fs s cs s' g" and "vfs_ok fs s" and "fs_writes fs"
  shows "vfs_ok fs s' \<and> (\<forall>c. allowed fs s' c \<longrightarrow> vfs_call fs s' c \<noteq> None)"
proof -
  have "vfs_ok fs s'" using calls_step [OF assms] by (simp add: step_ok_def)
  with call_step [of fs s'] assms(3) show ?thesis by force
qed

text \<open>C7: References balance. Along any sequence of calls the references to a vnode that neither
  the mount table nor an open file holds change only by those the calls handed to their callers: one
  more for a vnode the caller created, one less for a vnode opened without a path, whose reference
  the file takes over. Every other reference a call takes, on any path through it and with every
  error, it has released or stored where a close or an unbind finds it.\<close>

theorem vfs_refs_conserved:
  assumes "calls fs s cs s' g" and "vfs_ok fs s" and "fs_writes fs"
  shows "outside s' u = outside s u + g u"
  using calls_step [OF assms] by (simp add: step_ok_def)

text \<open>The small tree as a file system: every file can be read and written, and tmp takes new files.\<close>

definition tree_fs :: "unit fs_ops" where
  "tree_fs = \<lparr>o_nodes = (\<lambda>d. tree), o_size = (\<lambda>d v. 0),
     o_read = (\<lambda>v. if v = 3 then Some (\<lambda>d offset len. (Inr (replicate len 7), d)) else None),
     o_write = (\<lambda>v. if v = 3 then Some (\<lambda>d offset buf. (Inr (length buf), d)) else None),
     o_readdir = (\<lambda>v. None),
     o_create = (\<lambda>v. if v = 2 then Some (\<lambda>d name type. (Inr 6, d)) else None),
     o_remove = (\<lambda>v. None), o_rename = (\<lambda>v. None), o_truncate = (\<lambda>v. None), o_fileattr = (\<lambda>v. None), o_poll = (\<lambda>v. None)\<rparr>"

definition tree_vfs :: "unit vfs" where
  "tree_vfs = \<lparr>vns = tree_ns, vst = tree_refs, disk = (), files = (\<lambda>a. None)\<rparr>"

definition tree_opened :: "unit vfs" where
  "tree_opened = snd (vfs_open tree_fs tree_vfs (Some 100) ''/bin/sh'' 2)"

definition tree_created :: "unit vfs" where
  "tree_created = snd (vfs_create tree_fs tree_vfs ''/tmp/x'' VNODE_FILE)"

lemma tree_ok: "vfs_ok tree_fs tree_vfs" "fs_writes tree_fs"
proof -
  have "ns_ok tree_ns" by code_simp
  then show "vfs_ok tree_fs tree_vfs" by (simp add: vfs_ok_def tree_vfs_def)
  show "fs_writes tree_fs" by (simp add: fs_writes_def tree_fs_def)
qed

theorem vfs_type_safe_witness:
  "vfs_ok tree_fs tree_opened \<and> vfs_call tree_fs tree_opened (Write 100 [1, 2]) \<noteq> None"
proof -
  have "vfs_call tree_fs tree_vfs (Open (Some 100) ''/bin/sh'' 2) = Some (tree_opened, \<lambda>u. 0)" by (simp add: tree_opened_def)
  from one_more [OF no_call _ this] have c: "calls tree_fs tree_vfs [Open (Some 100) ''/bin/sh'' 2] tree_opened (\<lambda>u. 0 + 0)"
    by (simp add: tree_vfs_def)
  have "allowed tree_fs tree_opened (Write 100 [1, 2])" by code_simp
  with vfs_type_safe [OF c tree_ok] show ?thesis by blast
qed

theorem vfs_refs_conserved_witness:
  "outside tree_vfs 6 = 1 \<and> outside tree_created 6 = 2"
proof -
  have "fst (vfs_create tree_fs tree_vfs ''/tmp/x'' VNODE_FILE) = Inr 6" by code_simp
  then have "vfs_call tree_fs tree_vfs (Create ''/tmp/x'' VNODE_FILE) = Some (tree_created, got (Inr 6) (\<lambda>v. held [(v, [])]))"
    by (simp add: tree_created_def split_beta)
  from one_more [OF no_call _ this]
  have c: "calls tree_fs tree_vfs [Create ''/tmp/x'' VNODE_FILE] tree_created (\<lambda>u. 0 + got (Inr 6) (\<lambda>v. held [(v, [])]) u)"
    by simp
  have "outside tree_vfs 6 = 1" by (simp add: outside_def tree_vfs_def tree_ns_def tree_refs_def files_held_def)
  with vfs_refs_conserved [OF c tree_ok, of 6] show ?thesis by simp
qed

text \<open>A directory opened for reading with \<open>O_TRUNC\<close> is opened.\<close>

theorem open_truncate_directory:
  "type_of fs s v = VNODE_DIR \<Longrightarrow> open_check fs s v OREAD O_TRUNC existed = (Inr (), s)"
  by (simp add: open_check_def O_TRUNC_def O_CREAT_def O_EXCL_def)

end
