(* ===== verification/Vfs_Dir.thy ===== *)
theory Vfs_Dir
  imports Vfs_Inv
begin

text \<open>
  What a process sees of a union: listing it, in order or by entry number, and resolving paths after
  a bind.
\<close>

section \<open>Listing a union\<close>

text \<open>
  The entries a member of a union contributes: those its \<open>readdir\<close> gives by index, none when it is
  not a directory or cannot be listed.
\<close>

definition member_lists :: "'f fs_ops \<Rightarrow> 'f \<Rightarrow> vnode \<times> string \<Rightarrow> dirent list \<Rightarrow> bool" where
  "member_lists fs d m es = (case o_readdir fs (fst m) of
      None \<Rightarrow> es = []
    | Some readdir \<Rightarrow>
        if v_type (o_nodes fs d) (fst m) \<noteq> VNODE_DIR then es = []
        else \<forall>i. readdir d i = Inr (if unat i < length es then Some (es ! unat i) else None))"

definition entry_at :: "'a list \<Rightarrow> nat \<Rightarrow> 'a option" where
  "entry_at xs p = (if p < length xs then Some (xs ! p) else None)"

text \<open>The cursor of an open directory stands before entry \<open>p\<close> of the whole listing.\<close>

definition cursor :: "dirent list list \<Rightarrow> ofile \<Rightarrow> nat \<Rightarrow> bool" where
  "cursor ess f p \<longleftrightarrow> length ess = length (f_loc f) \<and> f_member f \<le> length ess \<and>
     unat (f_index f) \<le> (if f_member f < length ess then length (ess ! f_member f) else 0) \<and>
     p = length (concat (take (f_member f) ess)) + unat (f_index f) \<and> unat (f_entry f) = p"

lemma concat_split:
  assumes "m < length ess"
  shows "concat ess = concat (take m ess) @ ess ! m @ concat (drop (Suc m) ess)"
  using assms by (metis concat.simps(2) concat_append id_take_nth_drop)

lemma cursor_le: "cursor ess f p \<Longrightarrow> p \<le> length (concat ess)"
proof -
  assume c: "cursor ess f p"
  show ?thesis
  proof (cases "f_member f < length ess")
    case True
    with c concat_split [OF True] show ?thesis by (simp add: cursor_def)
  next
    case False
    with c show ?thesis by (simp add: cursor_def)
  qed
qed

lemma unat_suc: "unat (w :: u32) < n \<Longrightarrow> n < 2 ^ 32 \<Longrightarrow> unat (w + 1) = unat w + 1"
  by (simp add: unat_word_ariths)

lemma readdir_loop_entry_at:
  assumes "cursor ess f p" "list_all2 (member_lists fs d) (f_loc f) ess" "length (concat ess) < 2 ^ 32"
  shows "\<exists>f'. readdir_loop fs d f = (Inr (entry_at (concat ess) p), f') \<and> cursor ess f' (min (p + 1) (length (concat ess)))
    \<and> f_loc f' = f_loc f"
  using assms
proof (induction "length (f_loc f) - f_member f" arbitrary: f rule: less_induct)
  case less
  let ?m = "f_member f" and ?i = "unat (f_index f)"
  show ?case
  proof (cases "?m < length ess")
    case False
    with less.prems show ?thesis
      by (subst readdir_loop.simps) (auto simp: cursor_def entry_at_def)
  next
    case True
    then have l: "?m < length (f_loc f)" using less.prems(1) by (simp add: cursor_def)
    have m: "member_lists fs d (f_loc f ! ?m) (ess ! ?m)" using less.prems(2) l by (simp add: list_all2_conv_all_nth)
    define rc where "rc = (case o_readdir fs (fst (f_loc f ! ?m)) of
        Some readdir \<Rightarrow> if v_type (o_nodes fs d) (fst (f_loc f ! ?m)) = VNODE_DIR then readdir d (f_index f) else Inr None
      | None \<Rightarrow> Inr None)"
    have rc: "rc = Inr (entry_at (ess ! ?m) ?i)"
      using m by (auto simp: rc_def member_lists_def entry_at_def split: option.splits if_splits)
    have p: "p = length (concat (take ?m ess)) + ?i" "unat (f_entry f) = p" "?i \<le> length (ess ! ?m)"
      using less.prems(1) True by (auto simp: cursor_def)
    note sp = concat_split [OF True]
    have small: "length (ess ! ?m) < 2 ^ 32" using less.prems(3) sp by simp
    show ?thesis
    proof (cases "?i < length (ess ! ?m)")
      case True': True
      let ?f = "f\<lparr>f_index := f_index f + 1, f_entry := f_entry f + 1\<rparr>"
      have "p < length (concat ess)" using p True' sp by simp
      then have e: "unat (f_entry f + 1) = p + 1" using p(2) less.prems(3) unat_suc [of "f_entry f" "length (concat ess)"] by simp
      have i: "unat (f_index f + 1) = ?i + 1" using unat_suc [OF True' small] .
      have "cursor ess ?f (min (p + 1) (length (concat ess)))"
        using less.prems(1) True True' p e i \<open>p < length (concat ess)\<close> by (simp add: cursor_def)
      moreover have "concat ess ! p = (ess ! ?m) ! ?i" unfolding sp p(1) using True' by (simp add: nth_append)
      ultimately show ?thesis
        using l rc True' \<open>p < length (concat ess)\<close>
        by (subst readdir_loop.simps) (simp add: rc_def [symmetric] entry_at_def)
    next
      case False
      let ?f = "f\<lparr>f_member := ?m + 1, f_index := 0\<rparr>"
      have "cursor ess ?f p"
        using less.prems(1) True False p by (auto simp: cursor_def take_Suc_conv_app_nth)
      moreover have "length (f_loc ?f) - f_member ?f < length (f_loc f) - ?m" using l by simp
      ultimately obtain f' where "readdir_loop fs d ?f = (Inr (entry_at (concat ess) p), f')"
        "cursor ess f' (min (p + 1) (length (concat ess)))" "f_loc f' = f_loc f"
        using less.hyps [of ?f] less.prems(2,3) by auto
      then show ?thesis
        using l rc False by (subst readdir_loop.simps) (simp add: rc_def [symmetric] entry_at_def)
    qed
  qed
qed

text \<open>A directory opened on a union: its first member is a directory, and the members have entries.\<close>

definition listing :: "'f fs_ops \<Rightarrow> 'f \<Rightarrow> ofile \<Rightarrow> dirent list list \<Rightarrow> bool" where
  "listing fs d f ess \<longleftrightarrow> v_type (o_nodes fs d) (first (f_loc f)) = VNODE_DIR \<and>
     list_all2 (member_lists fs d) (f_loc f) ess \<and> length (concat ess) < 2 ^ 32"

lemma listing_loc: "f_loc f' = f_loc f \<Longrightarrow> listing fs d f' ess = listing fs d f ess"
  by (simp add: listing_def)

lemma readdir_file_entry_at:
  assumes "cursor ess f p" "listing fs d f ess"
  shows "\<exists>f'. readdir_file fs d f = (Inr (entry_at (concat ess) p), f') \<and> cursor ess f' (min (p + 1) (length (concat ess)))
    \<and> f_loc f' = f_loc f"
  using readdir_loop_entry_at [OF assms(1), of fs d] assms(2) by (simp add: listing_def readdir_file_def)

lemma skip_entries_at:
  assumes "cursor ess f p" "listing fs d f ess" "p \<le> unat entry"
  shows "\<exists>f'. skip_entries fs d entry f = (Inr (unat entry \<le> length (concat ess)), f') \<and>
    cursor ess f' (min (unat entry) (length (concat ess))) \<and> f_loc f' = f_loc f"
  using assms
proof (induction "unat entry - p" arbitrary: f p rule: less_induct)
  case less
  have e: "unat (f_entry f) = p" using less.prems(1) by (simp add: cursor_def)
  show ?case
  proof (cases "p = unat entry")
    case True
    with e have "f_entry f = entry" by (metis unsigned_word_eqI)
    with less.prems(1) True cursor_le [OF less.prems(1)] show ?thesis by (subst skip_entries.simps) simp
  next
    case False
    then have lt: "f_entry f < entry" using less.prems(3) e by (simp add: word_less_nat_alt)
    obtain f1 where f1: "readdir_file fs d f = (Inr (entry_at (concat ess) p), f1)"
      "cursor ess f1 (min (p + 1) (length (concat ess)))" "f_loc f1 = f_loc f"
      using readdir_file_entry_at [OF less.prems(1,2)] by blast
    show ?thesis
    proof (cases "p < length (concat ess)")
      case True
      then have c: "cursor ess f1 (p + 1)" using f1(2) by simp
      have "skip_entries fs d entry f = skip_entries fs d entry f1"
        using lt f1(1) True by (subst skip_entries.simps) (simp add: entry_at_def)
      with less.hyps [OF _ c] less.prems False f1(3) show ?thesis by (simp add: listing_loc [OF f1(3)])
    next
      case F: False
      then have "p = length (concat ess)" using cursor_le [OF less.prems(1)] by simp
      with lt f1 F less.prems(3) False show ?thesis by (subst skip_entries.simps) (simp add: entry_at_def)
    qed
  qed
qed

text \<open>Requests on an open directory: the next entry, or the entry of a number; and the same on a list
  with a position.\<close>

fun list_requests :: "'f fs_ops \<Rightarrow> 'f vfs \<Rightarrow> nat \<Rightarrow> u32 option list \<Rightarrow> dirent option result list \<times> 'f vfs" where
  "list_requests fs s a [] = ([], s)"
| "list_requests fs s a (r # rs) =
     (let (x, s1) = (case r of None \<Rightarrow> vfs_readdir fs s a | Some n \<Rightarrow> vfs_readdir_at fs s a n);
          (xs, s2) = list_requests fs s1 a rs
      in (x # xs, s2))"

fun list_replies :: "'a list \<Rightarrow> nat \<Rightarrow> u32 option list \<Rightarrow> 'a option list" where
  "list_replies es p [] = []"
| "list_replies es p (r # rs) =
     (let q = (case r of None \<Rightarrow> p | Some n \<Rightarrow> unat n)
      in entry_at es q # list_replies es (min (q + 1) (length es)) rs)"

lemma readdir_at_entry:
  assumes "files s a = Some f" "cursor ess f p" "listing fs (disk s) f ess"
  shows "\<exists>f'. vfs_readdir_at fs s a n = (Inr (entry_at (concat ess) (unat n)), s\<lparr>files := (files s)(a \<mapsto> f')\<rparr>) \<and>
    cursor ess f' (min (unat n + 1) (length (concat ess))) \<and> f_loc f' = f_loc f"
proof -
  define f1 where "f1 = (if n < f_entry f then f\<lparr>f_member := 0, f_index := 0, f_entry := 0\<rparr> else f)"
  have l: "f_loc f1 = f_loc f" by (simp add: f1_def)
  obtain q where q: "cursor ess f1 q" "q \<le> unat n"
    using assms(2) by (cases "n < f_entry f") (auto simp: f1_def cursor_def word_le_nat_alt not_less)
  obtain f2 where f2: "skip_entries fs (disk s) n f1 = (Inr (unat n \<le> length (concat ess)), f2)"
    "cursor ess f2 (min (unat n) (length (concat ess)))" "f_loc f2 = f_loc f"
    using skip_entries_at [OF q(1) _ q(2), of fs "disk s"] assms(3) l by (auto simp: listing_loc [OF l])
  show ?thesis
  proof (cases "unat n \<le> length (concat ess)")
    case True
    then obtain f3 where "readdir_file fs (disk s) f2 = (Inr (entry_at (concat ess) (unat n)), f3)"
      "cursor ess f3 (min (unat n + 1) (length (concat ess)))" "f_loc f3 = f_loc f2"
      using readdir_file_entry_at [OF f2(2), of fs "disk s"] assms(3) by (auto simp: listing_loc [OF f2(3)])
    with True f2 assms(1) show ?thesis
      by (intro exI [of _ f3]) (simp add: vfs_readdir_at_def f1_def [symmetric] vfs_readdir_def)
  next
    case False
    with f2 assms(1) show ?thesis
      by (intro exI [of _ f2]) (simp add: vfs_readdir_at_def f1_def [symmetric] entry_at_def)
  qed
qed

lemma list_requests_replies:
  assumes "files s a = Some f" "cursor ess f p" "listing fs (disk s) f ess"
  shows "fst (list_requests fs s a rs) = map Inr (list_replies (concat ess) p rs)"
  using assms
proof (induction rs arbitrary: s f p)
  case (Cons r rs)
  define q where "q = (case r of None \<Rightarrow> p | Some n \<Rightarrow> unat n)"
  obtain f' where f': "(case r of None \<Rightarrow> vfs_readdir fs s a | Some n \<Rightarrow> vfs_readdir_at fs s a n)
      = (Inr (entry_at (concat ess) q), s\<lparr>files := (files s)(a \<mapsto> f')\<rparr>)"
    "cursor ess f' (min (q + 1) (length (concat ess)))" "f_loc f' = f_loc f"
  proof (cases r)
    case None
    with Cons.prems readdir_file_entry_at [OF Cons.prems(2,3)] that show ?thesis by (auto simp: vfs_readdir_def q_def)
  next
    case (Some n)
    with Cons.prems readdir_at_entry [OF Cons.prems, of n] that show ?thesis by (auto simp: q_def)
  qed
  from Cons.IH [OF _ f'(2)] f' Cons.prems(3) show ?case
    by (simp add: q_def [symmetric] listing_loc [OF f'(3)] split_beta)
qed simp

section \<open>Resolving after a bind\<close>

definition path_of :: "string list \<Rightarrow> string" where
  "path_of cs = concat (map (\<lambda>c. CHR ''/'' # c) cs)"

lemma render_path_of: "cs \<noteq> [] \<Longrightarrow> render cs = path_of cs"
  by (simp add: render_def path_of_def)

lemma mounted_cong: "find_mount (ns_mounts ns') p = find_mount (ns_mounts ns) p \<Longrightarrow> mounted ns' p loc = mounted ns p loc"
  by (simp add: mounted_def)

lemma resolve_names_agree:
  assumes "\<And>k. 0 < k \<Longrightarrow> k \<le> length cs \<Longrightarrow>
    find_mount (ns_mounts ns') (P @ path_of (take k cs)) = find_mount (ns_mounts ns) (P @ path_of (take k cs))"
  shows "resolve_names vs ns' P loc cs = resolve_names vs ns P loc cs"
  using assms
proof (induction cs arbitrary: P loc)
  case (Cons c cs)
  have "find_mount (ns_mounts ns') (P @ CHR ''/'' # c) = find_mount (ns_mounts ns) (P @ CHR ''/'' # c)"
    using Cons.prems [of 1] by (simp add: path_of_def)
  moreover have "resolve_names vs ns' (P @ CHR ''/'' # c) l cs = resolve_names vs ns (P @ CHR ''/'' # c) l cs" for l
    using Cons.prems [of "Suc k" for k] by (intro Cons.IH) (simp add: path_of_def)
  ultimately show ?case by (simp add: Let_def mounted_cong [of ns' _ ns] split: sum.split)
qed simp

lemma resolve_names_append:
  "resolve_names vs ns P loc (cs @ ds) = (case resolve_names vs ns P loc cs of
      Inl e \<Rightarrow> Inl e | Inr l \<Rightarrow> resolve_names vs ns (P @ path_of cs) l ds)"
  by (induction cs arbitrary: P loc) (simp_all add: path_of_def Let_def split: sum.split)

definition from_root :: "'f fs_ops \<Rightarrow> 'f \<Rightarrow> namespace \<Rightarrow> string list \<Rightarrow> location result" where
  "from_root fs d ns cs = resolve_names (o_nodes fs d) ns [] (mounted ns ''/'' [(ns_root ns, ''/'')]) cs"

lemma resolve_fst:
  "fst (resolve fs s path) = (case vfs_clean_path path of
      Inl e \<Rightarrow> Inl e
    | Inr clean \<Rightarrow> (case from_root fs (disk s) (vns s) (comps clean) of Inl e \<Rightarrow> Inl e | Inr loc \<Rightarrow> Inr (loc, clean)))"
proof (cases "vfs_clean_path path")
  case (Inl e)
  then show ?thesis by (simp add: resolve_def ns_resolve_def)
next
  case (Inr clean)
  from ns_resolve_names [OF Inr, of "o_nodes fs (disk s)" "vns s" "vst s"] Inr show ?thesis
    by (auto simp: resolve_def from_root_def)
qed

lemma resolve_same: "vns s1 = vns s \<Longrightarrow> disk s1 = disk s \<Longrightarrow> fst (resolve fs s1 path) = fst (resolve fs s path)"
  unfolding resolve_fst by (simp only:)

text \<open>Two mount tables that agree on every prefix of a path resolve it alike.\<close>

lemma from_root_agree:
  assumes "ns_root ns' = ns_root ns"
    and "\<And>k. k \<le> length cs \<Longrightarrow> find_mount (ns_mounts ns') (render (take k cs)) = find_mount (ns_mounts ns) (render (take k cs))"
  shows "from_root fs d ns' cs = from_root fs d ns cs"
proof -
  have "resolve_names (o_nodes fs d) ns' [] loc cs = resolve_names (o_nodes fs d) ns [] loc cs" for loc
  proof (rule resolve_names_agree)
    fix k assume k: "0 < k" "k \<le> length cs"
    then have "take k cs \<noteq> []" by auto
    then show "find_mount (ns_mounts ns') ([] @ path_of (take k cs)) = find_mount (ns_mounts ns) ([] @ path_of (take k cs))"
      using assms(2) [OF k(2)] by (simp add: render_path_of)
  qed
  moreover have "find_mount (ns_mounts ns') ''/'' = find_mount (ns_mounts ns) ''/''" using assms(2) [of 0] by simp
  then have "mounted ns' ''/'' loc = mounted ns ''/'' loc" for loc by (rule mounted_cong)
  ultimately show ?thesis unfolding from_root_def by (simp only: assms(1))
qed

lemma render_inj: "list_all plain as \<Longrightarrow> list_all plain bs \<Longrightarrow> render as = render bs \<Longrightarrow> as = bs"
  by (metis comps_render)

text \<open>A path whose own mount is set to \<open>b\<close> resolves to \<open>b\<close>, if it resolved before.\<close>

lemma from_root_mount:
  assumes "ns_root ns' = ns_root ns" and "find_mount (ns_mounts ns') = (find_mount (ns_mounts ns))(render cs \<mapsto> b)"
    and "list_all plain cs" and "from_root fs d ns cs = Inr loc"
  shows "from_root fs d ns' cs = Inr b"
proof (cases cs rule: rev_cases)
  case Nil
  with assms(2) show ?thesis by (simp add: from_root_def mounted_def)
next
  case (snoc ds c)
  have agree: "from_root fs d ns' ds = from_root fs d ns ds"
  proof (rule from_root_agree [OF assms(1)])
    fix k assume "k \<le> length ds"
    then have "take k ds \<noteq> cs" unfolding snoc by (auto dest: arg_cong [of _ _ length])
    moreover have "list_all plain (take k ds)" using assms(3) snoc by (auto simp: list_all_iff dest: in_set_takeD)
    ultimately have "render (take k ds) \<noteq> render cs" using render_inj assms(3) by blast
    then show "find_mount (ns_mounts ns') (render (take k ds)) = find_mount (ns_mounts ns) (render (take k ds))"
      using assms(2) by simp
  qed
  obtain l where l: "from_root fs d ns ds = Inr l"
    using assms(4) unfolding snoc from_root_def by (auto simp: resolve_names_append split: sum.splits)
  obtain v where v: "found (o_nodes fs d) l c ENOTDIR = Inr v"
    using assms(4) l unfolding snoc from_root_def by (auto simp: resolve_names_append split: sum.splits)
  have "render cs = path_of ds @ CHR ''/'' # c" unfolding snoc by (simp add: render_path_of path_of_def)
  then have "mounted ns' (path_of ds @ CHR ''/'' # c) x = b" for x using assms(2) by (simp add: mounted_def)
  with agree l v show ?thesis unfolding snoc from_root_def by (simp add: resolve_names_append Let_def)
qed

lemma bind_result_success:
  assumes "bind_result fs s ok from onto canon flag = (Inr (), s')" "length canon \<le> VFS_PATH_MAX"
  shows "disk s' = disk s" "ns_root (vns s') = ns_root (vns s)"
    "find_mount (ns_mounts (vns s')) = (find_mount (ns_mounts (vns s)))(canon \<mapsto> bound flag from onto)"
proof -
  let ?b = "bound flag from onto"
  define st where "st = fold (\<lambda>(v, l). vnode_ref v) ?b (vst s)"
  obtain rc ns st1 where m: "ns_set_mount (o_nodes fs (disk s)) ok (vns s) canon ?b st = (rc, ns, st1)" by (metis prod_cases3)
  have s': "s' = s\<lparr>vns := ns, vst := st1\<rparr>" "rc = Inr ()"
    using assms(1) m by (auto simp: bind_result_def st_def [symmetric] Let_def split: if_splits)
  have "(Inr (), lookup_mount ns) = map_step (canon, Some (ok, ?b)) (lookup_mount (vns s))"
    using set_mount_lookup [OF assms(2), of "o_nodes fs (disk s)" ok "vns s" ?b st] m s'(2) by simp
  then have "find_mount (ns_mounts ns) = (find_mount (ns_mounts (vns s)))(canon \<mapsto> ?b)"
    by (auto simp: lookup_mount_def split: if_splits)
  moreover have "ns_root ns = ns_root (vns s)"
    using mount_step_refs(2) [of "o_nodes fs (disk s)" "(canon, Some (ok, ?b))" "vns s" st rc ns st1] m by (simp add: mount_step_def)
  ultimately show "disk s' = disk s" "ns_root (vns s') = ns_root (vns s)"
    "find_mount (ns_mounts (vns s')) = (find_mount (ns_mounts (vns s)))(canon \<mapsto> ?b)" by (simp_all add: s')
qed

lemma bind_success:
  assumes "vfs_bind fs s ok new_path old_path flag = (Inr (), s')"
  obtains "from" c onto canon where "fst (resolve fs s new_path) = Inr (from, c)" "fst (resolve fs s old_path) = Inr (onto, canon)"
    "vfs_clean_path old_path = Inr canon" "disk s' = disk s" "ns_root (vns s') = ns_root (vns s)"
    "find_mount (ns_mounts (vns s')) = (find_mount (ns_mounts (vns s)))(canon \<mapsto> bound flag from onto)"
proof -
  obtain x s1 where x: "resolve fs s new_path = (x, s1)" by (cases "resolve fs s new_path")
  then obtain "from" c where fc: "x = Inr (from, c)" using assms by (cases x) (auto simp: vfs_bind_def)
  obtain y s2 where y: "resolve fs s1 old_path = (y, s2)" by (cases "resolve fs s1 old_path")
  then obtain onto canon where oc: "y = Inr (onto, canon)" using assms x fc by (cases y) (auto simp: vfs_bind_def)
  have m1: "vns s1 = vns s" "disk s1 = disk s" using moves_resolve [OF x] by (auto simp: moves_def)
  have m2: "vns s2 = vns s" "disk s2 = disk s" using moves_resolve [OF y] m1 by (auto simp: moves_def)
  have old: "fst (resolve fs s old_path) = Inr (onto, canon)" using resolve_same [OF m1, of fs old_path] unfolding y oc by simp
  have clean: "vfs_clean_path old_path = Inr canon" using resolve_result(1) y oc by metis
  obtain r s3 where b: "bind_result fs s2 ok from onto canon flag = (r, s3)" by (cases "bind_result fs s2 ok from onto canon flag")
  have "r = Inr ()" and s': "s' = release fs onto (release fs from s3)"
    using assms x y fc oc b by (auto simp: vfs_bind_def bind_locations_def)
  moreover have "length canon \<le> VFS_PATH_MAX" by (rule clean_path_canonical [OF clean]) assumption
  ultimately have b3: "disk s3 = disk s" "ns_root (vns s3) = ns_root (vns s)"
    "find_mount (ns_mounts (vns s3)) = (find_mount (ns_mounts (vns s)))(canon \<mapsto> bound flag from onto)"
    using bind_result_success [of fs s2 ok "from" onto canon flag s3] b m2 by simp_all
  have "disk s' = disk s3" "vns s' = vns s3" unfolding s' by (simp_all add: release_def)
  with b3 show thesis by (intro that [of "from" c onto canon] old clean) (simp_all add: x fc)
qed

section \<open>Correctness\<close>

text \<open>C22: A union is listed as one list, the entries of its members in union order. From a freshly
  opened or rewound directory, any mix of requests for the next entry and for the entry of a number,
  forwards and backwards, is answered as from that list: the entry, or nothing past the last one, and
  the next entry is the one after the last answered. Members that are not directories or cannot be
  listed contribute nothing.\<close>

theorem vfs_listing_correct:
  assumes "files s a = Some f" and "f_member f = 0" and "f_index f = 0" and "f_entry f = 0"
    and "listing fs (disk s) f ess"
  shows "fst (list_requests fs s a rs) = map Inr (list_replies (concat ess) 0 rs)"
proof (rule list_requests_replies [OF assms(1) _ assms(5)])
  have "length ess = length (f_loc f)" using assms(5) by (auto simp: listing_def dest: list_all2_lengthD)
  then show "cursor ess f 0" using assms(2-4) by (simp add: cursor_def)
qed

text \<open>The directories 4 and 1 of the small tree as one union, each with one entry.\<close>

definition list_fs :: "unit fs_ops" where
  "list_fs = tree_fs\<lparr>o_readdir := (\<lambda>v. if v = 4 then Some (\<lambda>d i. Inr (if unat i < 1 then Some \<lparr>d_name = ''ls'', d_type = VNODE_FILE, d_size = 9\<rparr> else None))
     else if v = 1 then Some (\<lambda>d i. Inr (if unat i < 1 then Some \<lparr>d_name = ''sh'', d_type = VNODE_FILE, d_size = 8\<rparr> else None)) else None)\<rparr>"

definition list_vfs :: "unit vfs" where
  "list_vfs = tree_vfs\<lparr>files := [100 \<mapsto> new_file OREAD ''bin'' [(4, ''/usr''), (1, ''/bin'')]]\<rparr>"

theorem vfs_listing_correct_witness:
  "fst (list_requests list_fs list_vfs 100 [None, Some 1, None, Some 0]) =
    [Inr (Some \<lparr>d_name = ''ls'', d_type = VNODE_FILE, d_size = 9\<rparr>), Inr (Some \<lparr>d_name = ''sh'', d_type = VNODE_FILE, d_size = 8\<rparr>),
     Inr None, Inr (Some \<lparr>d_name = ''ls'', d_type = VNODE_FILE, d_size = 9\<rparr>)]"
proof -
  let ?ess = "[[\<lparr>d_name = ''ls'', d_type = VNODE_FILE, d_size = 9\<rparr>], [\<lparr>d_name = ''sh'', d_type = VNODE_FILE, d_size = 8\<rparr>]]"
  have f: "files list_vfs 100 = Some (new_file OREAD ''bin'' [(4, ''/usr''), (1, ''/bin'')])" by (simp add: list_vfs_def)
  have "listing list_fs (disk list_vfs) (new_file OREAD ''bin'' [(4, ''/usr''), (1, ''/bin'')]) ?ess"
    by (simp add: listing_def member_lists_def list_fs_def tree_fs_def tree_def new_file_def first_def)
  from vfs_listing_correct [OF f _ _ _ this, of "[None, Some 1, None, Some 0]"] show ?thesis
    by (simp add: new_file_def entry_at_def)
qed

text \<open>Whether resolving a path passes a clean path, or ends there.\<close>

definition passes :: "string \<Rightarrow> string \<Rightarrow> bool" where
  "passes canon path = (case vfs_clean_path path of
      Inl e \<Rightarrow> False
    | Inr clean \<Rightarrow> list_ex (\<lambda>k. render (take k (comps clean)) = canon) [0..<length (comps clean) + 1])"

lemma resolve_not_passing:
  assumes "disk s' = disk s" "ns_root (vns s') = ns_root (vns s)"
    "find_mount (ns_mounts (vns s')) = (find_mount (ns_mounts (vns s)))(canon := m)" "\<not> passes canon path"
  shows "fst (resolve fs s' path) = fst (resolve fs s path)"
proof (cases "vfs_clean_path path")
  case (Inl e)
  then show ?thesis by (simp add: resolve_fst)
next
  case (Inr clean)
  have "from_root fs (disk s) (vns s') (comps clean) = from_root fs (disk s) (vns s) (comps clean)"
  proof (rule from_root_agree [OF assms(2)])
    fix k assume "k \<le> length (comps clean)"
    then have "render (take k (comps clean)) \<noteq> canon"
      using assms(4) Inr by (cases "k = length (comps clean)") (auto simp: passes_def list_ex_iff)
    then show "find_mount (ns_mounts (vns s')) (render (take k (comps clean))) = find_mount (ns_mounts (vns s)) (render (take k (comps clean)))"
      using assms(3) by simp
  qed
  then show ?thesis unfolding resolve_fst assms(1) Inr by simp
qed

lemma unbind_bind:
  assumes "vfs_ok fs s" "vfs_bind fs s ok new_path old_path flag = (Inr (), s')" "vfs_clean_path old_path = Inr canon"
    "lookup_mount (vns s) canon = None"
  shows "fst (resolve fs (snd (vfs_unbind fs s' old_path)) path) = fst (resolve fs s path)"
proof -
  obtain b where b: "disk s' = disk s" "ns_root (vns s') = ns_root (vns s)" "find_mount (ns_mounts (vns s')) = (find_mount (ns_mounts (vns s)))(canon \<mapsto> b)"
    using assms(3) by (rule_tac bind_success [OF assms(2)]) (metis sum.inject(2))
  have ok: "table_ok (vns s')" using step_bind [OF assms(2,1)] by (simp add: step_ok_def vfs_ok_def ns_ok_def)
  obtain rc ns st where m: "ns_remove_mount (o_nodes fs (disk s')) (vns s') canon (vst s') = (rc, ns, st)" by (metis prod_cases3)
  define t where "t = snd (vfs_unbind fs s' old_path)"
  have t: "t = s'\<lparr>vns := ns, vst := st\<rparr>" using m assms(3) by (simp add: t_def vfs_unbind_def)
  have root: "ns_root ns = ns_root (vns s')"
    using mount_step_refs(2) [of "o_nodes fs (disk s')" "(canon, None)" "vns s'" "vst s'" rc ns st] m by (simp add: mount_step_def)
  have "lookup_mount ns = (lookup_mount (vns s'))(canon := None)"
    using remove_mount_lookup [OF ok, of "o_nodes fs (disk s')" canon "vst s'"] m by simp
  then have "find_mount (ns_mounts ns) = find_mount (ns_mounts (vns s))"
    using b(3) assms(4) by (simp add: lookup_mount_def fun_upd_idem)
  then have "from_root fs (disk s) ns cs = from_root fs (disk s) (vns s) cs" for cs
    using root b(2) by (intro from_root_agree) simp_all
  moreover have "disk t = disk s" "vns t = ns" by (simp_all add: t b(1))
  ultimately show ?thesis unfolding t_def [symmetric] resolve_fst by (simp only:)
qed


lemma tree_resolve:
  "fst (resolve tree_fs tree_vfs ''/tmp'') = Inr ([(2, ''/tmp'')], ''/tmp'')"
  "fst (resolve tree_fs tree_vfs ''/bin'') = Inr ([(4, ''/usr''), (1, ''/bin'')], ''/bin'')"
  by code_simp+

lemma tree_bind: "fst (vfs_bind tree_fs tree_vfs True ''/tmp'' ''/bin'' BIND_AFTER) = Inr ()"
proof -
  obtain s1 where x: "resolve tree_fs tree_vfs ''/tmp'' = (Inr ([(2, ''/tmp'')], ''/tmp''), s1)"
    using tree_resolve(1) by (metis prod.collapse)
  have m1: "vns s1 = tree_ns" using moves_resolve [OF x] by (simp add: moves_def tree_vfs_def)
  then obtain s2 where y: "resolve tree_fs s1 ''/bin'' = (Inr ([(4, ''/usr''), (1, ''/bin'')], ''/bin''), s2)"
    using tree_resolve(2) resolve_same [of s1 tree_vfs tree_fs "''/bin''"] by (cases "resolve tree_fs s1 ''/bin''") (auto simp: tree_vfs_def)
  have "vns s2 = tree_ns" using moves_resolve [OF y] m1 by (simp add: moves_def)
  moreover have "v_type (o_nodes tree_fs d) 2 = VNODE_DIR" "v_type (o_nodes tree_fs d) 4 = VNODE_DIR" for d
    by (simp_all add: tree_fs_def tree_def)
  moreover have "find_mount (ns_mounts tree_ns) ''/bin'' = Some [(4, ''/usr''), (1, ''/bin'')]" by (simp add: tree_ns_def)
  ultimately show ?thesis
    by (simp add: vfs_bind_def x y bind_locations_def bind_result_def bound_def first_def VFS_UNION_MAX_def ns_set_mount_def
        split_beta)
qed


end
