(* ===== verification/Pipe.thy ===== *)
theory Pipe
  imports Zkt_Prelude
begin

text \<open>
  Pipes, \<open>zkt/fs/pipe.c\<close>. A direction is the list of its messages from head to tail. The threads that
  use a pipe run by turns; a step of one is what it does with interrupts off, or what follows up to
  the next point where it touches the pipe, and a thread that would sleep has no step. The pipe is
  \<open>None\<close> once it is freed, and touching it then is recorded.
\<close>

section \<open>The two directions\<close>

definition PIPE_CAPACITY :: nat where "PIPE_CAPACITY = 64 * 1024"
definition MESSAGE_MAX :: nat where "MESSAGE_MAX = 256 * 1024"

record message =
  m_data :: "u8 list"
  m_pos :: nat

record direction =
  d_msgs :: "message list"
  d_bytes :: nat

text \<open>\<open>p_dir i\<close> holds the messages for end \<open>i\<close> to read.\<close>

record pipe =
  p_dir :: "nat \<Rightarrow> direction"
  p_open :: "nat \<Rightarrow> bool"

definition pipe_create :: "bool \<Rightarrow> pipe result" where
  "pipe_create ok =
     (if \<not> ok then Inl ENOMEM else Inr \<lparr>p_dir = (\<lambda>i. \<lparr>d_msgs = [], d_bytes = 0\<rparr>), p_open = (\<lambda>i. True)\<rparr>)"

definition end_poll :: "pipe \<Rightarrow> nat \<Rightarrow> bool" where
  "end_poll p side \<longleftrightarrow> d_msgs (p_dir p side) \<noteq> [] \<or> \<not> p_open p (1 - side)"

text \<open>The condition on which a reader sleeps, and what it takes: the bytes, and whether the message is done.\<close>

definition recv_waits :: "pipe \<Rightarrow> nat \<Rightarrow> bool" where
  "recv_waits p side \<longleftrightarrow> d_msgs (p_dir p side) = [] \<and> p_open p (1 - side)"

definition recv_take :: "pipe \<Rightarrow> nat \<Rightarrow> nat \<Rightarrow> u8 list \<times> bool \<times> pipe" where
  "recv_take p side len = (let d = p_dir p side in case d_msgs d of
      [] \<Rightarrow> ([], False, p)
    | m # ms \<Rightarrow>
        let n = (if length (m_data m) - m_pos m < len then length (m_data m) - m_pos m else len);
            bs = take n (drop (m_pos m) (m_data m));
            m1 = m\<lparr>m_pos := m_pos m + n\<rparr>
        in if m_pos m1 = length (m_data m1)
           then (bs, True, p\<lparr>p_dir := (p_dir p)(side := \<lparr>d_msgs = ms, d_bytes = d_bytes d - length (m_data m)\<rparr>)\<rparr>)
           else (bs, False, p\<lparr>p_dir := (p_dir p)(side := d\<lparr>d_msgs := m1 # ms\<rparr>)\<rparr>))"

definition send_waits :: "pipe \<Rightarrow> nat \<Rightarrow> nat \<Rightarrow> bool" where
  "send_waits p side len \<longleftrightarrow> (let d = p_dir p (1 - side)
     in p_open p (1 - side) \<and> d_bytes d \<noteq> 0 \<and> d_bytes d + len > PIPE_CAPACITY)"

definition send_put :: "pipe \<Rightarrow> nat \<Rightarrow> u8 list \<Rightarrow> pipe" where
  "send_put p side data = (let d = p_dir p (1 - side)
     in p\<lparr>p_dir := (p_dir p)(1 - side := \<lparr>d_msgs = d_msgs d @ [\<lparr>m_data = data, m_pos = 0\<rparr>],
                                             d_bytes = d_bytes d + length data\<rparr>)\<rparr>)"

section \<open>Threads\<close>

text \<open>
  Where a thread is: inside \<open>pipe_recv\<close> before its loop, or after it with a message to free and
  writers to wake; inside \<open>pipe_send\<close> likewise; inside \<open>end_release\<close> before it closes the end, before
  each of the wake-ups that follow, and before it frees the pipe with its messages; or back with a
  result.
\<close>

datatype thread =
    Receiving nat nat bool
  | Received nat "u8 list"
  | Sending nat "u8 list"
  | Sent nat nat
  | Releasing nat
  | Wake_readable nat bool
  | Wake_writable nat bool
  | Freeing bool
  | Returned "nat result"

text \<open>The calls: \<open>ok\<close> is whether \<open>kmalloc\<close> finds memory for the message.\<close>

definition pipe_recv :: "nat \<Rightarrow> nat \<Rightarrow> bool \<Rightarrow> thread" where
  "pipe_recv side len deadline = Receiving side len deadline"

definition pipe_send :: "bool \<Rightarrow> nat \<Rightarrow> u8 list \<Rightarrow> thread" where
  "pipe_send ok side buf =
     (if length buf > MESSAGE_MAX then Returned (Inl EINVAL) else if \<not> ok then Returned (Inl ENOMEM) else Sending side buf)"

definition end_read :: "nat \<Rightarrow> nat \<Rightarrow> thread" where
  "end_read side len = pipe_recv side len False"

definition end_write :: "bool \<Rightarrow> nat \<Rightarrow> u8 list \<Rightarrow> thread" where
  "end_write ok side buf = pipe_send ok side buf"

definition end_release :: "nat \<Rightarrow> thread" where
  "end_release side = Releasing side"

text \<open>The pipe, whether it was touched after it was freed, and all bytes sent and received so far.\<close>

record world =
  w_pipe :: "pipe option"
  w_fault :: bool
  w_sent :: "nat \<Rightarrow> u8 list"
  w_got :: "nat \<Rightarrow> u8 list"

text \<open>A step of a thread; \<open>expired\<close> is whether its deadline has passed.\<close>

fun thread_step :: "bool \<Rightarrow> thread \<Rightarrow> world \<Rightarrow> (thread \<times> world) option" where
  "thread_step expired (Receiving side len deadline) w = (case w_pipe w of
      None \<Rightarrow> Some (Returned (Inr 0), w\<lparr>w_fault := True\<rparr>)
    | Some p \<Rightarrow>
        if recv_waits p side
        then if deadline \<and> expired then Some (Returned (Inl ETIMEDOUT), w) else None
        else let (bs, fin, p1) = recv_take p side len;
                 w1 = w\<lparr>w_pipe := Some p1, w_got := (w_got w)(side := w_got w side @ bs)\<rparr>
             in Some (if fin then Received side bs else Returned (Inr (length bs)), w1))"
| "thread_step expired (Received side bs) w = (case w_pipe w of
      None \<Rightarrow> Some (Returned (Inr (length bs)), w\<lparr>w_fault := True\<rparr>)
    | Some p \<Rightarrow> Some (Returned (Inr (length bs)), w))"
| "thread_step expired (Sending side buf) w = (case w_pipe w of
      None \<Rightarrow> Some (Returned (Inl EPIPE), w\<lparr>w_fault := True\<rparr>)
    | Some p \<Rightarrow>
        if send_waits p side (length buf) then None
        else if \<not> p_open p (1 - side) then Some (Returned (Inl EPIPE), w)
        else Some (Sent side (length buf),
                   w\<lparr>w_pipe := Some (send_put p side buf), w_sent := (w_sent w)(1 - side := w_sent w (1 - side) @ buf)\<rparr>))"
| "thread_step expired (Sent side n) w = (case w_pipe w of
      None \<Rightarrow> Some (Returned (Inr n), w\<lparr>w_fault := True\<rparr>)
    | Some p \<Rightarrow> Some (Returned (Inr n), w))"
| "thread_step expired (Releasing side) w = (case w_pipe w of
      None \<Rightarrow> Some (Returned (Inr 0), w\<lparr>w_fault := True\<rparr>)
    | Some p \<Rightarrow>
        let p1 = p\<lparr>p_open := (p_open p)(side := False)\<rparr>
        in Some (Wake_readable side (\<not> p_open p1 (1 - side)), w\<lparr>w_pipe := Some p1\<rparr>))"
| "thread_step expired (Wake_readable side last_end) w = (case w_pipe w of
      None \<Rightarrow> Some (Wake_writable side last_end, w\<lparr>w_fault := True\<rparr>)
    | Some p \<Rightarrow> Some (Wake_writable side last_end, w))"
| "thread_step expired (Wake_writable side last_end) w = (case w_pipe w of
      None \<Rightarrow> Some (Freeing last_end, w\<lparr>w_fault := True\<rparr>)
    | Some p \<Rightarrow> Some (Freeing last_end, w))"
| "thread_step expired (Freeing last_end) w =
     (if \<not> last_end then Some (Returned (Inr 0), w)
      else case w_pipe w of
        None \<Rightarrow> Some (Returned (Inr 0), w\<lparr>w_fault := True\<rparr>)
      | Some p \<Rightarrow> Some (Returned (Inr 0), w\<lparr>w_pipe := None\<rparr>))"
| "thread_step expired (Returned r) w = None"

text \<open>A schedule: which thread runs next, and whether its deadline has passed by then.\<close>

fun run_threads :: "(nat \<times> bool) list \<Rightarrow> thread list \<times> world \<Rightarrow> (thread list \<times> world) option" where
  "run_threads [] c = Some c"
| "run_threads ((i, expired) # sched) (ts, w) =
     (if i < length ts
      then case thread_step expired (ts ! i) w of
          None \<Rightarrow> None
        | Some (t, w1) \<Rightarrow> run_threads sched (ts[i := t], w1)
      else None)"

definition fresh :: "pipe \<Rightarrow> world" where
  "fresh p = \<lparr>w_pipe = Some p, w_fault = False, w_sent = (\<lambda>i. []), w_got = (\<lambda>i. [])\<rparr>"

section \<open>Messages\<close>

text \<open>What a direction still has to deliver, and its shape.\<close>

definition pending :: "direction \<Rightarrow> u8 list" where
  "pending d = concat (map (\<lambda>m. drop (m_pos m) (m_data m)) (d_msgs d))"

definition dir_ok :: "direction \<Rightarrow> bool" where
  "dir_ok d \<longleftrightarrow> list_all (\<lambda>m. m_pos m \<le> length (m_data m) \<and> length (m_data m) \<le> MESSAGE_MAX) (d_msgs d) \<and>
     d_bytes d = sum_list (map (length \<circ> m_data) (d_msgs d)) \<and>
     (d_bytes d \<le> PIPE_CAPACITY \<or> length (filter (\<lambda>m. m_data m \<noteq> []) (d_msgs d)) = 1)"

lemma no_bytes: "(\<forall>m \<in> set ms. m_data m = []) \<Longrightarrow> sum_list (map (length \<circ> m_data) ms) = 0"
  by (induction ms) auto

lemma dir_ok_tl: "dir_ok \<lparr>d_msgs = m # ms, d_bytes = b\<rparr> \<Longrightarrow> dir_ok \<lparr>d_msgs = ms, d_bytes = b - length (m_data m)\<rparr>"
  by (cases "m_data m = []") (auto simp: dir_ok_def filter_empty_conv no_bytes)

lemma recv_take_cases:
  assumes "recv_take p side len = (bs, fin, p')" "\<And>i. dir_ok (p_dir p i)"
  shows "\<exists>d'. p' = p\<lparr>p_dir := (p_dir p)(side := d')\<rparr> \<and> dir_ok d' \<and> pending (p_dir p side) = bs @ pending d' \<and> length bs \<le> len"
proof (cases "d_msgs (p_dir p side)")
  case Nil
  with assms show ?thesis by (intro exI [of _ "p_dir p side"]) (auto simp: recv_take_def)
next
  case (Cons m ms)
  let ?d = "p_dir p side"
  define n where "n = (if length (m_data m) - m_pos m < len then length (m_data m) - m_pos m else len)"
  have d: "?d = \<lparr>d_msgs = m # ms, d_bytes = d_bytes ?d\<rparr>" using Cons by simp
  have ok: "dir_ok ?d" and m: "m_pos m \<le> length (m_data m)" using assms(2) [of side] Cons by (auto simp: dir_ok_def)
  have n: "n \<le> len" "m_pos m + n \<le> length (m_data m)" using m by (auto simp: n_def)
  show ?thesis
  proof (cases "m_pos m + n = length (m_data m)")
    case True
    let ?d' = "\<lparr>d_msgs = ms, d_bytes = d_bytes ?d - length (m_data m)\<rparr>"
    have "bs = drop (m_pos m) (m_data m)" "p' = p\<lparr>p_dir := (p_dir p)(side := ?d')\<rparr>"
      using assms(1) Cons True n_def by (auto simp: recv_take_def Let_def)
    moreover have "dir_ok ?d'" using dir_ok_tl [of m ms "d_bytes ?d"] ok d by simp
    moreover have "length (drop (m_pos m) (m_data m)) \<le> len" using True n by simp
    ultimately show ?thesis using Cons by (intro exI [of _ ?d']) (simp add: pending_def)
  next
    case False
    let ?d' = "?d\<lparr>d_msgs := m\<lparr>m_pos := m_pos m + n\<rparr> # ms\<rparr>"
    have "bs = take n (drop (m_pos m) (m_data m))" "p' = p\<lparr>p_dir := (p_dir p)(side := ?d')\<rparr>"
      using assms(1) Cons False n_def by (auto simp: recv_take_def Let_def)
    moreover have "dir_ok ?d'" using ok Cons n by (auto simp: dir_ok_def)
    moreover have "drop (m_pos m) (m_data m) = take n (drop (m_pos m) (m_data m)) @ drop (m_pos m + n) (m_data m)"
      by (metis append_take_drop_id drop_drop add.commute)
    ultimately show ?thesis using Cons n by (intro exI [of _ ?d']) (simp add: pending_def)
  qed
qed

lemma send_put_ok:
  assumes "\<not> send_waits p side (length buf)" "p_open p (1 - side)" "length buf \<le> MESSAGE_MAX" "dir_ok (p_dir p (1 - side))"
  shows "dir_ok (p_dir (send_put p side buf) (1 - side))"
    "pending (p_dir (send_put p side buf) (1 - side)) = pending (p_dir p (1 - side)) @ buf"
proof -
  let ?d = "p_dir p (1 - side)"
  have "d_bytes ?d = 0 \<or> d_bytes ?d + length buf \<le> PIPE_CAPACITY" using assms(1,2) by (auto simp: send_waits_def Let_def)
  then show "dir_ok (p_dir (send_put p side buf) (1 - side))"
    using assms(3,4) by (auto simp: dir_ok_def send_put_def Let_def filter_empty_conv sum_list_eq_0_iff PIPE_CAPACITY_def)
  show "pending (p_dir (send_put p side buf) (1 - side)) = pending ?d @ buf" by (simp add: pending_def send_put_def Let_def)
qed

lemma dir_ok_bytes: "dir_ok d \<Longrightarrow> d_bytes d \<le> MESSAGE_MAX"
proof -
  have "list_all (\<lambda>m. length (m_data m) \<le> k) ms \<Longrightarrow> sum_list (map (length \<circ> m_data) ms) \<le> k * length (filter (\<lambda>m. m_data m \<noteq> []) ms)"
    for k ms by (induction ms) (auto simp: add_mono)
  from this [of MESSAGE_MAX "d_msgs d"] show "dir_ok d \<Longrightarrow> d_bytes d \<le> MESSAGE_MAX"
    by (auto simp: dir_ok_def list_all_iff PIPE_CAPACITY_def MESSAGE_MAX_def)
qed

text \<open>A thread inside a read or a write.\<close>

fun transfers :: "thread \<Rightarrow> bool" where
  "transfers (Receiving side len deadline) \<longleftrightarrow> True"
| "transfers (Received side bs) \<longleftrightarrow> True"
| "transfers (Sending side buf) \<longleftrightarrow> length buf \<le> MESSAGE_MAX"
| "transfers (Sent side n) \<longleftrightarrow> True"
| "transfers (Returned r) \<longleftrightarrow> True"
| "transfers _ \<longleftrightarrow> False"

lemma transfers_call: "transfers (pipe_recv side len deadline)" "transfers (pipe_send ok side buf)"
  by (simp_all add: pipe_recv_def pipe_send_def)

text \<open>The invariant while no thread releases an end.\<close>

definition world_ok :: "world \<Rightarrow> bool" where
  "world_ok w \<longleftrightarrow> \<not> w_fault w \<and> (\<exists>p. w_pipe w = Some p \<and>
     (\<forall>i. dir_ok (p_dir p i) \<and> w_sent w i = w_got w i @ pending (p_dir p i)))"

lemma thread_step_ok:
  assumes "thread_step expired t w = Some (t', w')" "world_ok w" "transfers t"
  shows "world_ok w' \<and> transfers t'"
proof -
  obtain p where p: "w_pipe w = Some p" "\<not> w_fault w" "\<And>i. dir_ok (p_dir p i)" "\<And>i. w_sent w i = w_got w i @ pending (p_dir p i)"
    using assms(2) by (auto simp: world_ok_def)
  show ?thesis
  proof (cases t)
    case (Receiving side len deadline)
    show ?thesis
    proof (cases "recv_waits p side")
      case True
      with assms Receiving p show ?thesis by (auto split: if_splits)
    next
      case False
      obtain bs fin p1 where rt: "recv_take p side len = (bs, fin, p1)" by (metis prod_cases3)
      obtain d' where "p1 = p\<lparr>p_dir := (p_dir p)(side := d')\<rparr>" "dir_ok d'" "pending (p_dir p side) = bs @ pending d'"
        using recv_take_cases [OF rt p(3)] by blast
      with assms(1) Receiving p False rt show ?thesis by (auto simp: world_ok_def)
    qed
  next
    case (Sending side buf)
    with assms p send_put_ok [of p side buf] show ?thesis
      by (auto simp: world_ok_def send_put_def Let_def split: if_splits)
  qed (use assms p in auto)
qed

lemma run_threads_ok:
  "run_threads sched (ts, w) = Some (ts', w') \<Longrightarrow> world_ok w \<Longrightarrow> list_all transfers ts \<Longrightarrow> world_ok w' \<and> list_all transfers ts'"
proof (induction sched arbitrary: ts w)
  case (Cons x sched)
  obtain i expired where x: "x = (i, expired)" by (cases x)
  with Cons.prems(1) obtain t w1 where st: "i < length ts" "thread_step expired (ts ! i) w = Some (t, w1)"
    "run_threads sched (ts[i := t], w1) = Some (ts', w')" by (auto split: if_splits option.splits)
  have "world_ok w1 \<and> transfers t" using thread_step_ok [OF st(2) Cons.prems(2)] Cons.prems(3) st(1) by (simp add: list_all_length)
  moreover have "list_all transfers (ts[i := t])" using Cons.prems(3) calculation st(1) by (auto simp: list_all_length nth_list_update)
  ultimately show ?case using Cons.IH [OF st(3)] by simp
qed simp

section \<open>Correctness\<close>

text \<open>C14: A pipe delivers what was written, in order. For any number of reads and writes on both
  ends, whole or partial, interleaved in any way, what was accepted in a direction is what was read
  from it followed by what is still queued: no byte is lost, repeated or reordered. The bytes queued
  never exceed one message of the largest size, and the pipe is not touched after it is freed.\<close>

theorem pipe_fifo:
  assumes "pipe_create True = Inr p" and "list_all transfers ts" and "run_threads sched (ts, fresh p) = Some (ts', w)"
  shows "\<not> w_fault w \<and> (\<exists>p'. w_pipe w = Some p' \<and>
    (\<forall>i. w_sent w i = w_got w i @ pending (p_dir p' i) \<and> d_bytes (p_dir p' i) \<le> MESSAGE_MAX))"
proof -
  have "world_ok (fresh p)" using assms(1) by (auto simp: pipe_create_def world_ok_def fresh_def dir_ok_def pending_def)
  from run_threads_ok [OF assms(3) this assms(2)] show ?thesis by (auto simp: world_ok_def dest: dir_ok_bytes)
qed

text \<open>Three bytes sent from end 0, read by two threads at end 1.\<close>

definition fifo_threads :: "thread list" where
  "fifo_threads = [pipe_send True 0 [1, 2, 3], pipe_recv 1 2 False, pipe_recv 1 9 True]"

theorem pipe_fifo_witness:
  "\<exists>p ts w p'. pipe_create True = Inr p \<and>
     run_threads [(0, False), (1, False), (2, False)] (fifo_threads, fresh p) = Some (ts, w) \<and> w_pipe w = Some p' \<and>
     w_sent w 1 = [1, 2, 3] \<and> w_got w 1 @ pending (p_dir p' 1) = [1, 2, 3]"
proof -
  obtain p where p: "pipe_create True = Inr p" by (simp add: pipe_create_def)
  have t: "list_all transfers fifo_threads" by (simp add: fifo_threads_def transfers_call)
  obtain ts w where r: "run_threads [(0, False), (1, False), (2, False)] (fifo_threads, fresh p) = Some (ts, w)" "w_sent w 1 = [1, 2, 3]"
    using p by (auto simp: pipe_create_def fifo_threads_def pipe_send_def pipe_recv_def fresh_def MESSAGE_MAX_def send_waits_def
        send_put_def recv_waits_def recv_take_def)
  from pipe_fifo [OF p t r(1)] p r show ?thesis by fastforce
qed


end
